(* ===== verification/Prelude.thy ===== *)
theory Prelude
  imports Main "HOL-Library.Word" "HOL-Library.While_Combinator"
begin

text \<open>
  Shared vocabulary of the development: the machine types of the C sources, the packing of byte
  sequences into words that the hash functions use, the C character literals that appear in the
  mail code, and generic lemmas on lists and words.  The collection \<open>byte_simps\<close> gathers the facts
  about bytes and packing, \<open>len_simps\<close> the length facts of the components.
\<close>

unbundle bit_operations_syntax

named_theorems byte_simps \<open>packing and unpacking of bytes\<close>

named_theorems len_simps \<open>lengths of the sequences the components produce\<close>

type_synonym u8 = "8 word"
type_synonym u16 = "16 word"
type_synonym u32 = "32 word"
type_synonym u64 = "64 word"

text \<open>A C string or buffer is its list of bytes.\<close>

type_synonym bytes = "u8 list"

text \<open>C character literals: a literal of the source is the byte of its ASCII code.\<close>

definition ch :: "char \<Rightarrow> u8" where
  "ch c = of_nat (of_char c)"

definition str :: "string \<Rightarrow> bytes" where
  "str s = map ch s"

lemma length_str [simp]: "length (str s) = length s"
  by (simp add: str_def)

lemma str_append [simp]: "str (s @ t) = str s @ str t"
  by (simp add: str_def)

section \<open>Packing bytes into words\<close>

text \<open>
  \<open>w = (w << 8) | *dp++\<close>, repeated: the most significant byte comes first.
\<close>

definition pack_be :: "bytes \<Rightarrow> 'a::len word" where
  "pack_be bs = foldl (\<lambda>w b. push_bit 8 w OR ucast b) 0 bs"

text \<open>
  \<open>*dp = w; w >>= 8\<close>, repeated \<open>n\<close> times: the least significant byte is produced first.
\<close>

primrec unpack_le :: "nat \<Rightarrow> 'a::len word \<Rightarrow> bytes" where
  "unpack_le 0 w = []"
| "unpack_le (Suc n) w = ucast w # unpack_le n (drop_bit 8 w)"

lemma length_unpack_le [simp, len_simps]: "length (unpack_le n w) = n"
  by (induction n arbitrary: w) auto

lemma unpack_le_numeral:
  "unpack_le (numeral k) w = ucast w # unpack_le (pred_numeral k) (drop_bit 8 w)"
  by (simp add: numeral_eq_Suc)

lemma unpack_le_map: "unpack_le n v = map (\<lambda>i. ucast (drop_bit (8 * i) v)) [0..<n]"
proof (induction n arbitrary: v)
  case 0
  then show ?case by simp
next
  case (Suc n)
  have "[0..<Suc n] = 0 # map Suc [0..<n]" by (simp add: upt_conv_Cons map_Suc_upt del: upt_Suc)
  with Suc show ?case by (simp add: add.commute del: upt_Suc)
qed

lemma unpack_le_8_be:
  "rev (unpack_le 8 (w :: 'a::len word)) =
   [ucast (drop_bit 56 w), ucast (drop_bit 48 w), ucast (drop_bit 40 w), ucast (drop_bit 32 w),
    ucast (drop_bit 24 w), ucast (drop_bit 16 w), ucast (drop_bit 8 w), ucast w]"
  by (simp add: unpack_le_numeral)

lemma pack_be_Nil [simp]: "pack_be [] = 0"
  by (simp add: pack_be_def)

lemma pack_be_snoc: "pack_be (bs @ [b]) = push_bit 8 (pack_be bs) OR ucast b"
  by (simp add: pack_be_def)

lemma ucast_push_or [byte_simps]:
  fixes w :: "'a::len word" and b :: u8
  assumes "8 \<le> LENGTH('a)"
  shows "(ucast (push_bit 8 w OR ucast b) :: u8) = b"
  using assms by (intro bit_word_eqI) (auto simp: bit_simps)

lemma drop_push_or:
  fixes w :: "'a::len word" and b :: u8
  assumes "8 * Suc n \<le> LENGTH('a)" and "\<And>i. 8 * n \<le> i \<Longrightarrow> \<not> bit w i"
  shows "drop_bit 8 (push_bit 8 w OR ucast b) = w"
proof (rule bit_word_eqI)
  fix i assume "i < LENGTH('a)"
  moreover have "bit w i \<Longrightarrow> i < 8 * n" using assms(2)[of i] by linarith
  moreover have "\<not> bit b (8 + i)" by (auto dest: bit_imp_le_length)
  ultimately show "bit (drop_bit 8 (push_bit 8 w OR ucast b)) i = bit w i"
    using assms(1) by (auto simp: bit_simps)
qed

lemma pack_be_high:
  assumes "8 * length bs \<le> i"
  shows "\<not> bit (pack_be bs :: 'a::len word) i"
  using assms
proof (induction bs arbitrary: i rule: rev_induct)
  case Nil
  then show ?case by simp
next
  case (snoc b bs)
  then show ?case
    by (auto simp: pack_be_snoc bit_simps dest: bit_imp_le_length)
qed

lemma unpack_pack [byte_simps]:
  assumes "8 * length bs \<le> LENGTH('a)"
  shows "unpack_le (length bs) (pack_be bs :: 'a::len word) = rev bs"
  using assms
proof (induction bs rule: rev_induct)
  case Nil
  then show ?case by simp
next
  case (snoc b bs)
  then have "drop_bit 8 (push_bit 8 (pack_be bs) OR ucast b) = (pack_be bs :: 'a word)"
    by (intro drop_push_or[of "length bs"]) (auto simp: pack_be_high)
  with snoc show ?case
    by (simp add: pack_be_snoc ucast_push_or)
qed

lemma pack_unpack_bits:
  assumes "8 * n \<le> LENGTH('a)"
  shows "bit (pack_be (rev (unpack_le n w)) :: 'a::len word) i \<longleftrightarrow> bit w i \<and> i < 8 * n"
  using assms
proof (induction n arbitrary: w i)
  case 0
  then show ?case by simp
next
  case (Suc n)
  then show ?case
    by (auto simp: pack_be_snoc bit_simps dest: bit_imp_le_length)
qed

lemma pack_unpack [byte_simps]:
  assumes "8 * n = LENGTH('a)"
  shows "pack_be (rev (unpack_le n w)) = (w :: 'a::len word)"
  using assms by (intro bit_word_eqI) (simp add: pack_unpack_bits)

text \<open>The rotations the hash functions write as two shifts.\<close>

lemma rotl_shift [byte_simps]:
  fixes w :: "'a::len word"
  assumes "0 < n" "n < LENGTH('a)"
  shows "push_bit n w OR drop_bit (LENGTH('a) - n) w = word_rotl n w"
proof (rule bit_word_eqI)
  fix i assume i: "i < LENGTH('a)"
  have "(i + (LENGTH('a) - n)) mod LENGTH('a) = (if i < n then i + (LENGTH('a) - n) else i - n)"
    using assms i by (auto simp: mod_if)
  with assms i show "bit (push_bit n w OR drop_bit (LENGTH('a) - n) w) i = bit (word_rotl n w) i"
    by (auto simp: bit_simps bit_word_rotl_iff add.commute dest: bit_imp_le_length)
qed

lemma rotr_shift [byte_simps]:
  fixes w :: "'a::len word"
  assumes "0 < n" "n < LENGTH('a)"
  shows "drop_bit n w OR push_bit (LENGTH('a) - n) w = word_rotr n w"
proof (rule bit_word_eqI)
  fix i assume i: "i < LENGTH('a)"
  have "(i + n) mod LENGTH('a) = (if i + n < LENGTH('a) then i + n else i + n - LENGTH('a))"
    using assms i by (auto simp: mod_if)
  with assms i show "bit (drop_bit n w OR push_bit (LENGTH('a) - n) w) i = bit (word_rotr n w) i"
    by (auto simp: bit_simps bit_word_rotr_iff add.commute dest: bit_imp_le_length)
qed
lemma bit_less_exp:
  fixes n :: nat
  assumes "n < 2 ^ k" and "bit n i"
  shows "i < k"
proof (rule ccontr)
  assume "\<not> i < k"
  then have "n < 2 ^ i" using assms(1) by (meson less_le_trans not_less one_le_numeral power_increasing)
  with assms(2) show False by (simp add: bit_iff_odd)
qed

section \<open>Shifts and masks as arithmetic\<close>

lemma or_shift_nat:
  fixes x y :: nat
  assumes "y < 2 ^ n"
  shows "push_bit n x OR y = x * 2 ^ n + y"
proof -
  have "push_bit n x AND y = 0"
    by (auto simp: bit_eq_iff bit_simps dest: bit_less_exp[OF assms])
  then show ?thesis
    by (simp only: disjunctive_add_eq_or[symmetric] push_bit_eq_mult)
qed

lemma unat_ucast_ge: "LENGTH('a) \<le> LENGTH('b) \<Longrightarrow> unat (ucast (a :: 'a::len word) :: 'b::len word) = unat a"
  by (simp add: unsigned_ucast_eq take_bit_nat_eq_self order_less_le_trans[OF unsigned_less])

lemma unat_ucast_mod: "unat (ucast (v :: 'a::len word) :: 'b::len word) = unat v mod 2 ^ LENGTH('b)"
  by (simp add: unsigned_ucast_eq take_bit_eq_mod)

lemma unat_and_low:
  "mask n = m \<Longrightarrow> unat (x AND m) = unat (x :: 'a::len word) mod 2 ^ n"
  by (auto simp: unsigned_take_bit_eq take_bit_eq_mod[of n "unat x"] simp flip: take_bit_eq_mask)

lemma unat_drop_div: "unat (drop_bit n w) = unat w div 2 ^ n"
  by (simp only: unat_drop_bit_eq drop_bit_eq_div[of n "unat w"])

lemma unat_push_mult:
  "unat x * 2 ^ n < 2 ^ LENGTH('a) \<Longrightarrow> unat (push_bit n (x :: 'a::len word)) = unat x * 2 ^ n"
  by (simp only: unsigned_push_bit_eq push_bit_eq_mult[of n "unat x"] take_bit_nat_eq_self)

lemma unat_push_or:
  assumes "unat x * 2 ^ n < 2 ^ LENGTH('a)" and "unat y < 2 ^ n"
  shows "unat (push_bit n x OR y :: 'a::len word) = unat x * 2 ^ n + unat y"
  using or_shift_nat[OF assms(2), of "unat x"] assms(1)
  by (simp only: unsigned_or_eq unat_push_mult push_bit_eq_mult[of n "unat x"])

section \<open>Lists\<close>

text \<open>\<open>memcpy (buf + p, xs, length xs)\<close> on an array long enough to hold it.\<close>

definition memcpy_at :: "'a list \<Rightarrow> nat \<Rightarrow> 'a list \<Rightarrow> 'a list" where
  "memcpy_at buf p xs = take p buf @ xs @ drop (p + length xs) buf"

lemma length_memcpy_at [simp, len_simps]:
  "p + length xs \<le> length buf \<Longrightarrow> length (memcpy_at buf p xs) = length buf"
  by (simp add: memcpy_at_def)

lemma take_memcpy_at [simp]:
  "p \<le> length buf \<Longrightarrow> take (p + length xs) (memcpy_at buf p xs) = take p buf @ xs"
  by (simp add: memcpy_at_def min_def)

lemma takeWhile_drop_nth: "n < length xs \<Longrightarrow> drop n xs = xs ! n # drop (Suc n) xs"
  by (simp add: Cons_nth_drop_Suc)

text \<open>An array filled in index order by a recurrence is the table of the recurrence.\<close>

lemma fold_append_rec:
  assumes "\<And>t. n \<le> t \<Longrightarrow> t < m \<Longrightarrow> f t (map w [0..<t]) = w t"
  shows "n \<le> m \<Longrightarrow> fold (\<lambda>t W. W @ [f t W]) [n..<m] (map w [0..<n]) = map w [0..<m]"
  using assms
proof (induction m)
  case 0
  then show ?case by simp
next
  case (Suc m)
  then show ?case by (cases "n = Suc m") auto
qed

lemma list_eq_map_nth: "length xs = n \<Longrightarrow> map ((!) xs) [0..<n] = xs"
  by (metis map_nth)

lemma take_4_drop:
  "4 * t + 3 < length b \<Longrightarrow>
   take 4 (drop (4 * t) b) = [b ! (4 * t), b ! (4 * t + 1), b ! (4 * t + 2), b ! (4 * t + 3)]"
  by (intro nth_equalityI) (auto simp: nth_Cons numeral_eq_Suc less_Suc_eq split: nat.splits)

lemma take_8_drop:
  "8 * t + 7 < length b \<Longrightarrow>
   take 8 (drop (8 * t) b) = [b ! (8 * t), b ! (8 * t + 1), b ! (8 * t + 2), b ! (8 * t + 3),
     b ! (8 * t + 4), b ! (8 * t + 5), b ! (8 * t + 6), b ! (8 * t + 7)]"
  by (intro nth_equalityI) (auto simp: nth_Cons numeral_eq_Suc less_Suc_eq split: nat.splits)

text \<open>
  The length encoding of SHA-1 and SHA-256: four zero bytes and the low half of the bit count.
  Below 2 ^ 29 bytes this is the whole 64-bit count, most significant byte first.
\<close>

lemma be_length_bytes_small:
  assumes "n < 2 ^ 29"
    and enc: "\<And>l :: u64. enc l = (let l = l * 8 in
     [0, 0, 0, 0, ucast (drop_bit 24 l), ucast (drop_bit 16 l), ucast (drop_bit 8 l), ucast l])"
  shows "enc (of_nat n) = (rev (unpack_le 8 (of_nat (8 * n) :: u64)) :: bytes)"
proof -
  define m where "m = 8 * n"
  let ?w = "of_nat m :: u64"
  have "m < 2 ^ 32" using assms(1) by (simp add: m_def)
  then have low: "i < 32" if "bit m i" for i
    using that by (rule bit_less_exp)
  have z: "ucast (drop_bit k ?w) = (0 :: u8)" if "32 \<le> k" for k
    using that by (intro bit_word_eqI) (auto simp: bit_simps dest!: low)
  have w: "of_nat n * 8 = ?w" by (simp add: m_def)
  have "rev (unpack_le 8 ?w) = enc (of_nat n)"
    unfolding enc Let_def unpack_le_8_be w by (simp add: z)
  then show ?thesis by (simp only: m_def)
qed

lemma upt_16: "[0..<16] = [0,1,2,3,4,5,6,7,8,9,10,11,12,13,14,15::nat]"
  by (simp add: upt_rec)

section \<open>Return codes\<close>

text \<open>
  A C function that returns an int code next to its effect: a code other than 0 returns at once,
  with the state reached so far.
\<close>

definition rc_bind :: "int \<times> 's \<Rightarrow> ('s \<Rightarrow> int \<times> 't) \<Rightarrow> ('s \<Rightarrow> 't) \<Rightarrow> int \<times> 't" where
  "rc_bind r k e = (case r of (rc, s) \<Rightarrow> if rc \<noteq> 0 then (rc, e s) else k s)"

abbreviation rc_then :: "int \<times> 's \<Rightarrow> ('s \<Rightarrow> int \<times> 's) \<Rightarrow> int \<times> 's" where
  "rc_then r k \<equiv> rc_bind r k (\<lambda>s. s)"

lemma rc_bind_simps [simp]:
  "rc_bind (0, s) k e = k s"
  "rc \<noteq> 0 \<Longrightarrow> rc_bind (rc, s) k e = (rc, e s)"
  by (simp_all add: rc_bind_def)

section \<open>A fact of all bytes, by evaluation\<close>

definition all_bytes :: "u8 list" where
  "all_bytes = map of_nat [0..<256]"

lemma byte_cases:
  assumes "list_all P all_bytes"
  shows "P p"
proof -
  have "p = of_nat (unat p)" "unat p < 256" using unsigned_less[of p] by simp_all
  then have "p \<in> set all_bytes" unfolding all_bytes_def set_map by (intro image_eqI) simp_all
  with assms show ?thesis by (simp add: list_all_iff)
qed

end
