(* ===== verification/Hash_Stream.thy ===== *)
theory Hash_Stream
  imports Prelude
begin

text \<open>
  The buffering that the hash implementations share.  Every context of md5/md5.c, sha1/sha1.c,
  sha1/sha256.c and sha1/sha512.c is a chaining value plus the pair \<open>blk\<close>, \<open>blk_ptr\<close>; the
  functions \<open>*_context_hashstream\<close> are the same text in the four files, with another block size
  and another block function, and so are the padding loops of the \<open>*_context_endstream\<close>.  They
  are written once here over the record \<open>hash_buf\<close>, which the contexts extend.  The reference is
  \<open>absorb\<close>, which cuts a whole message into blocks.  The interface \<open>block_hash\<close> states what the
  buffering needs of a block function, \<open>md_hash\<close> what the padding needs; the lemmas are proved
  once inside and every hash function is an interpretation.
\<close>

section \<open>Contexts and the buffering loop\<close>

record hash_buf =
  blk :: bytes
  blk_ptr :: nat

text \<open>
  The loop of \<open>*_context_hashstream\<close> over the remaining input \<open>cp[0..l)\<close>.  The size \<open>B\<close> is 64 or
  128; \<open>B = 0\<close> is excluded in the first test only to make the function total.
\<close>

function context_hashstream ::
  "nat \<Rightarrow> ('a hash_buf_scheme \<Rightarrow> bytes \<Rightarrow> 'a hash_buf_scheme) \<Rightarrow>
   'a hash_buf_scheme \<Rightarrow> bytes \<Rightarrow> 'a hash_buf_scheme" where
  "context_hashstream B hash c cp =
     (if cp = [] \<or> B = 0 then c
      else if blk_ptr c = 0 \<and> B \<le> length cp then
        context_hashstream B hash (hash c (take B cp)) (drop B cp)
      else
        let ll = min (length cp) (B - blk_ptr c);
            c = c\<lparr>blk := memcpy_at (blk c) (blk_ptr c) (take ll cp), blk_ptr := blk_ptr c + ll\<rparr>
        in context_hashstream B hash
             (if B \<le> blk_ptr c then (hash c (blk c))\<lparr>blk_ptr := 0\<rparr> else c) (drop ll cp))"
  by pat_completeness auto
termination
  by (relation "measures [\<lambda>(B, hash, c, cp). length cp, \<lambda>(B, hash, c, cp). blk_ptr c]")
     (auto simp: min_def Let_def)

declare context_hashstream.simps [simp del]

text \<open>
  The padding of \<open>*_context_endstream\<close>: the byte 0x80, then zeros until \<open>blk_ptr = B - L\<close>, where
  \<open>L\<close> bytes are left for the message length.
\<close>

definition pad_step ::
  "nat \<Rightarrow> nat \<Rightarrow> ('a hash_buf_scheme \<Rightarrow> bytes \<Rightarrow> 'a hash_buf_scheme) \<Rightarrow>
   'a hash_buf_scheme \<Rightarrow> 'a hash_buf_scheme" where
  "pad_step B L hash c =
     (if B - L < blk_ptr c
      then context_hashstream B hash c (replicate (B - blk_ptr c) 0)
      else context_hashstream B hash c (replicate (B - L - blk_ptr c) 0))"

definition context_pad ::
  "nat \<Rightarrow> nat \<Rightarrow> ('a hash_buf_scheme \<Rightarrow> bytes \<Rightarrow> 'a hash_buf_scheme) \<Rightarrow>
   'a hash_buf_scheme \<Rightarrow> 'a hash_buf_scheme" where
  "context_pad B L hash c =
     while (\<lambda>c. blk_ptr c \<noteq> B - L) (pad_step B L hash) (context_hashstream B hash c [0x80])"

section \<open>The reference: a message cut into blocks\<close>

fun absorb :: "nat \<Rightarrow> ('h \<Rightarrow> bytes \<Rightarrow> 'h) \<Rightarrow> 'h \<Rightarrow> bytes \<Rightarrow> 'h \<times> bytes" where
  "absorb B cf h bs =
     (if length bs < B \<or> B = 0 then (h, bs) else absorb B cf (cf h (take B bs)) (drop B bs))"

declare absorb.simps [simp del]

lemma absorb_short: "length bs < B \<Longrightarrow> absorb B cf h bs = (h, bs)"
  by (simp add: absorb.simps)

lemma absorb_block:
  "length x = B \<Longrightarrow> 0 < B \<Longrightarrow> absorb B cf h (x @ bs) = absorb B cf (cf h x) bs"
  by (subst absorb.simps) simp

lemma absorb_one: "length x = B \<Longrightarrow> 0 < B \<Longrightarrow> absorb B cf h x = (cf h x, [])"
  using absorb_block[of x B cf h "[]"] by (simp add: absorb_short)

lemma absorb_append:
  assumes "0 < B"
  shows "absorb B cf h (xs @ ys) =
    (case absorb B cf h xs of (h', r) \<Rightarrow> absorb B cf h' (r @ ys))"
proof (induction B cf h xs rule: absorb.induct)
  case (1 B cf h xs)
  show ?case
  proof (cases "length xs < B \<or> B = 0")
    case True
    then show ?thesis by (simp add: absorb.simps[of B cf h xs])
  next
    case False
    then have "absorb B cf h (xs @ ys) = absorb B cf (cf h (take B xs)) (drop B xs @ ys)"
      by (simp add: absorb.simps[of B cf h "xs @ ys"])
    with 1 False show ?thesis by (simp add: absorb.simps[of B cf h xs])
  qed
qed

lemma absorb_cont:
  "0 < B \<Longrightarrow> (h', r) = absorb B cf h xs \<Longrightarrow> absorb B cf h (xs @ ys) = absorb B cf h' (r @ ys)"
  by (metis absorb_append case_prod_conv)

lemma absorb_rest_length: "0 < B \<Longrightarrow> length (snd (absorb B cf h bs)) = length bs mod B"
proof (induction B cf h bs rule: absorb.induct)
  case (1 B cf h bs)
  then show ?case
    by (subst absorb.simps) (auto simp: le_mod_geq not_less)
qed

lemma absorb_cong:
  assumes "\<And>h b. length b = B \<Longrightarrow> f h b = g h b"
  shows "absorb B f h bs = absorb B g h bs"
proof (induction "length bs" arbitrary: h bs rule: less_induct)
  case less
  show ?case
  proof (cases "length bs < B \<or> B = 0")
    case True
    then show ?thesis by (simp add: absorb.simps[of B])
  next
    case False
    then have "absorb B f (g h (take B bs)) (drop B bs) = absorb B g (g h (take B bs)) (drop B bs)"
      by (intro less) auto
    with False assms show ?thesis by (simp add: absorb.simps[of B _ h bs])
  qed
qed

text \<open>
  The number of zero bytes of the padding: the smallest \<open>k\<close> with \<open>n + 1 + k \<equiv> B - L (mod B)\<close> for
  a message of \<open>n\<close> bytes, as RFC 1321 and FIPS 180 define it (there in bits).
\<close>

definition pad_zeros :: "nat \<Rightarrow> nat \<Rightarrow> nat \<Rightarrow> nat" where
  "pad_zeros B L n = nat ((int B - int L - int n - 1) mod int B)"

lemma pad_zeros_mod: "pad_zeros B L (n mod B) = pad_zeros B L n"
proof -
  have "(int B - int L - int (n mod B) - 1) mod int B = (int B - int L - 1 - int n) mod int B"
    by (metis (no_types, opaque_lifting) mod_diff_right_eq zmod_int diff_right_commute)
  moreover have "int B - int L - 1 - int n = int B - int L - int n - 1" by simp
  ultimately show ?thesis by (simp only: pad_zeros_def)
qed

lemma pad_zeros_lt: "n < B - L \<Longrightarrow> pad_zeros B L n = B - L - Suc n"
proof -
  assume "n < B - L"
  then have "(int B - int L - int n - 1) mod int B = int B - int L - int n - 1"
    by (intro mod_pos_pos_trivial) auto
  then show ?thesis by (simp add: pad_zeros_def)
qed

lemma pad_zeros_ge: "B - L \<le> n \<Longrightarrow> n < B \<Longrightarrow> 0 < L \<Longrightarrow> L < B \<Longrightarrow>
    pad_zeros B L n = (B - Suc n) + (B - L)"
proof -
  assume a: "B - L \<le> n" "n < B" "0 < L" "L < B"
  have "(int B - int L - int n - 1) mod int B = (int B - int L - int n - 1 + int B) mod int B"
    by (rule mod_add_self2[symmetric])
  also have "\<dots> = int B - int L - int n - 1 + int B"
    using a by (intro mod_pos_pos_trivial) auto
  finally show ?thesis using a by (simp add: pad_zeros_def)
qed

text \<open>
  The whole hash of a message: the blocks of the message, the byte 0x80, the zeros and the encoded
  length \<open>le\<close>, fed to the compression function one after the other.
\<close>

definition md_ref :: "nat \<Rightarrow> nat \<Rightarrow> ('h \<Rightarrow> bytes \<Rightarrow> 'h) \<Rightarrow> 'h \<Rightarrow> bytes \<Rightarrow> bytes \<Rightarrow> 'h" where
  "md_ref B L cf iv m le =
     fst (absorb B cf iv (m @ [0x80] @ replicate (pad_zeros B L (length m)) 0 @ le))"

lemma md_ref_cong:
  assumes "\<And>h b. length b = B \<Longrightarrow> f h b = g h b"
  shows "md_ref B L f iv m le = md_ref B L g iv m le"
  unfolding md_ref_def by (simp only: absorb_cong[of B f g, OF assms])

section \<open>The interface of a block function\<close>

definition wf_buf :: "nat \<Rightarrow> 'a hash_buf_scheme \<Rightarrow> bool" where
  "wf_buf B c \<longleftrightarrow> length (blk c) = B \<and> blk_ptr c < B"

definition pending :: "'a hash_buf_scheme \<Rightarrow> bytes" where
  "pending c = take (blk_ptr c) (blk c)"

lemma length_pending [len_simps]: "wf_buf B c \<Longrightarrow> length (pending c) = blk_ptr c"
  by (simp add: wf_buf_def pending_def)

lemma pending_empty: "blk_ptr c = 0 \<Longrightarrow> pending c = []"
  by (simp add: pending_def)

locale block_hash =
  fixes B :: nat
    and hash :: "'a hash_buf_scheme \<Rightarrow> bytes \<Rightarrow> 'a hash_buf_scheme"
    and cv :: "'a hash_buf_scheme \<Rightarrow> 'h"
    and cf :: "'h \<Rightarrow> bytes \<Rightarrow> 'h"
  assumes B_pos: "0 < B"
    and cv_hash: "cv (hash c b) = cf (cv c) b"
    and blk_hash: "blk (hash c b) = blk c"
    and ptr_hash: "blk_ptr (hash c b) = blk_ptr c"
    and cv_blk: "cv (c\<lparr>blk := x\<rparr>) = cv c"
    and cv_ptr: "cv (c\<lparr>blk_ptr := p\<rparr>) = cv c"
begin

lemmas hash_laws = cv_hash blk_hash ptr_hash cv_blk cv_ptr

lemma stream_absorb:
  "wf_buf B c \<Longrightarrow>
   wf_buf B (context_hashstream B hash c cp) \<and>
   absorb B cf (cv c) (pending c @ cp) =
     (cv (context_hashstream B hash c cp), pending (context_hashstream B hash c cp))"
proof (induction "length cp" arbitrary: c cp rule: less_induct)
  case less
  then have wf: "length (blk c) = B" "blk_ptr c < B" by (auto simp: wf_buf_def)
  consider (empty) "cp = []" | (direct) "cp \<noteq> []" "blk_ptr c = 0" "B \<le> length cp"
    | (fill) "cp \<noteq> []" "blk_ptr c + length cp < B"
    | (full) "cp \<noteq> []" "blk_ptr c \<noteq> 0" "B \<le> blk_ptr c + length cp" by linarith
  then show ?case
  proof cases
    case empty
    with less.prems show ?thesis
      by (simp add: context_hashstream.simps absorb_short length_pending wf)
  next
    case direct
    let ?c = "hash c (take B cp)"
    have "length (drop B cp) < length cp" using direct B_pos by simp
    moreover have "wf_buf B ?c" using less.prems by (simp add: wf_buf_def hash_laws)
    ultimately have IH: "wf_buf B (context_hashstream B hash ?c (drop B cp)) \<and>
      absorb B cf (cv ?c) (pending ?c @ drop B cp) =
       (cv (context_hashstream B hash ?c (drop B cp)),
        pending (context_hashstream B hash ?c (drop B cp)))" by (rule less.hyps)
    have "context_hashstream B hash c cp = context_hashstream B hash ?c (drop B cp)"
      using direct B_pos by (simp add: context_hashstream.simps[of B hash c cp])
    moreover have "absorb B cf (cv c) cp = absorb B cf (cf (cv c) (take B cp)) (drop B cp)"
      using direct B_pos absorb_block[of "take B cp" B cf "cv c" "drop B cp"] by simp
    moreover have "pending c = []" "pending ?c = []"
      using direct(2) by (auto simp: pending_def hash_laws)
    ultimately show ?thesis using IH by (simp add: hash_laws)
  next
    case fill
    let ?c = "c\<lparr>blk := memcpy_at (blk c) (blk_ptr c) cp, blk_ptr := blk_ptr c + length cp\<rparr>"
    have eq: "context_hashstream B hash c cp = ?c"
      using fill wf B_pos
      by (simp add: context_hashstream.simps[of B hash c cp] context_hashstream.simps[of B hash ?c]
          Let_def min_def)
    have "pending ?c = pending c @ cp"
      using wf fill by (simp add: pending_def)
    moreover have "length (pending c @ cp) < B"
      using fill less.prems by (simp add: length_pending)
    moreover have "wf_buf B ?c" using fill wf by (simp add: wf_buf_def)
    ultimately show ?thesis by (simp add: eq absorb_short hash_laws)
  next
    case full
    let ?ll = "B - blk_ptr c"
    let ?b = "pending c @ take ?ll cp"
    let ?c1 = "c\<lparr>blk := memcpy_at (blk c) (blk_ptr c) (take ?ll cp), blk_ptr := blk_ptr c + ?ll\<rparr>"
    let ?c = "(hash ?c1 (blk ?c1))\<lparr>blk_ptr := 0\<rparr>"
    have blk1: "blk ?c1 = ?b"
      using full wf by (simp add: memcpy_at_def pending_def min_def)
    have lenb: "length ?b = B" using full wf less.prems by (simp add: length_pending)
    have "length (drop ?ll cp) < length cp" using full wf by simp
    moreover have wfc: "wf_buf B ?c" using wf full lenb blk1 by (simp add: wf_buf_def hash_laws)
    ultimately have IH: "wf_buf B (context_hashstream B hash ?c (drop ?ll cp)) \<and>
      absorb B cf (cv ?c) (pending ?c @ drop ?ll cp) =
       (cv (context_hashstream B hash ?c (drop ?ll cp)),
        pending (context_hashstream B hash ?c (drop ?ll cp)))" by (rule less.hyps)
    have min: "min (length cp) ?ll = ?ll" using full by simp
    have eq: "context_hashstream B hash c cp = context_hashstream B hash ?c (drop ?ll cp)"
      using full wf B_pos by (subst context_hashstream.simps) (simp add: Let_def min)
    have "absorb B cf (cv c) (pending c @ cp) =
        absorb B cf (cv c) (?b @ drop ?ll cp)" by simp
    also have "\<dots> = absorb B cf (cf (cv c) ?b) (drop ?ll cp)"
      using lenb B_pos by (rule absorb_block)
    finally show ?thesis using IH blk1 by (simp add: eq hash_laws pending_empty)
  qed
qed

lemma stream_wf: "wf_buf B c \<Longrightarrow> wf_buf B (context_hashstream B hash c cp)"
  by (simp add: stream_absorb)

lemma stream_abs:
  "wf_buf B c \<Longrightarrow>
   (cv (context_hashstream B hash c cp), pending (context_hashstream B hash c cp)) =
   absorb B cf (cv c) (pending c @ cp)"
  using stream_absorb[of c cp] by simp

lemma stream_cont:
  assumes "wf_buf B c"
  shows "absorb B cf (cv (context_hashstream B hash c xs))
           (pending (context_hashstream B hash c xs) @ ys) =
         absorb B cf (cv c) (pending c @ xs @ ys)"
  using absorb_cont[OF B_pos stream_abs[OF assms], of xs ys] by simp

lemma stream_append:
  assumes wf: "wf_buf B c"
  shows "cv (context_hashstream B hash (context_hashstream B hash c xs) ys) =
         cv (context_hashstream B hash c (xs @ ys))" (is "cv ?two = cv ?one")
    and "pending (context_hashstream B hash (context_hashstream B hash c xs) ys) =
         pending (context_hashstream B hash c (xs @ ys))"
proof -
  have "(cv ?two, pending ?two) = absorb B cf (cv c) (pending c @ xs @ ys)"
    by (simp add: stream_abs[OF stream_wf[OF wf]] stream_cont[OF wf])
  also have "\<dots> = (cv ?one, pending ?one)"
    by (rule stream_abs[OF wf, symmetric])
  finally show "cv ?two = cv ?one" "pending ?two = pending ?one" by simp_all
qed

lemma stream_ptr:
  assumes wf: "wf_buf B c"
  shows "blk_ptr (context_hashstream B hash c cp) = (blk_ptr c + length cp) mod B"
proof -
  have "length (snd (absorb B cf (cv c) (pending c @ cp))) = (blk_ptr c + length cp) mod B"
    using B_pos wf by (simp add: absorb_rest_length length_pending)
  then show ?thesis
    by (simp add: stream_abs[OF wf, symmetric] length_pending[OF stream_wf[OF wf]])
qed

lemma pad_loop:
  assumes wf: "wf_buf B c" and L: "0 < L" "L < B"
  obtains c' where
    "while_option (\<lambda>c. blk_ptr c \<noteq> B - L) (pad_step B L hash) c = Some c'"
    "wf_buf B c'" "blk_ptr c' = B - L"
    "(cv c', pending c') = absorb B cf (cv c) (pending c @
       replicate (if blk_ptr c \<le> B - L then B - L - blk_ptr c else B - blk_ptr c + (B - L)) 0)"
proof -
  let ?W = "while_option (\<lambda>c. blk_ptr c \<noteq> B - L) (pad_step B L hash)"
  have low: "\<exists>c'. ?W c = Some c' \<and> wf_buf B c' \<and> blk_ptr c' = B - L \<and>
      (cv c', pending c') = absorb B cf (cv c) (pending c @ replicate (B - L - blk_ptr c) 0)"
    if wf: "wf_buf B c" and le: "blk_ptr c \<le> B - L" for c
  proof (cases "blk_ptr c = B - L")
    case True
    then have "?W c = Some c" by (subst while_option_unfold) simp
    with True wf L show ?thesis
      by (simp add: absorb_short length_pending)
  next
    case False
    let ?d = "context_hashstream B hash c (replicate (B - L - blk_ptr c) 0)"
    have "pad_step B L hash c = ?d" using le by (simp add: pad_step_def)
    moreover have ptr: "blk_ptr ?d = B - L"
      using L le by (simp add: stream_ptr[OF wf])
    ultimately have "?W c = Some ?d"
      using False by (subst while_option_unfold, simp) (subst while_option_unfold, simp)
    with ptr stream_abs[OF wf, of "replicate (B - L - blk_ptr c) 0"] stream_wf[OF wf]
    show ?thesis by blast
  qed
  show thesis
  proof (cases "blk_ptr c \<le> B - L")
    case True
    with low[OF wf] that show ?thesis by auto
  next
    case False
    let ?d = "context_hashstream B hash c (replicate (B - blk_ptr c) 0)"
    have ptr: "blk_ptr ?d = 0"
      using wf False by (simp add: stream_ptr[OF wf] wf_buf_def)
    have step: "?W c = ?W ?d"
      using False by (subst while_option_unfold) (simp add: pad_step_def)
    obtain c' where c': "?W ?d = Some c'" "wf_buf B c'" "blk_ptr c' = B - L"
      "(cv c', pending c') = absorb B cf (cv ?d) (pending ?d @ replicate (B - L) 0)"
      using low[OF stream_wf[OF wf]] ptr by (metis diff_zero le0)
    have "absorb B cf (cv ?d) (pending ?d @ replicate (B - L) 0) =
        absorb B cf (cv c) (pending c @ replicate (B - blk_ptr c) 0 @ replicate (B - L) 0)"
      by (rule stream_cont[OF wf])
    with c' step False that show ?thesis by (simp add: replicate_add[symmetric])
  qed
qed

lemma context_pad_terminates:
  assumes "wf_buf B c" and "0 < L" "L < B"
  shows "while_option (\<lambda>c. blk_ptr c \<noteq> B - L) (pad_step B L hash)
     (context_hashstream B hash c [0x80]) = Some (context_pad B L hash c)"
proof -
  obtain c' where "while_option (\<lambda>c. blk_ptr c \<noteq> B - L) (pad_step B L hash)
     (context_hashstream B hash c [0x80]) = Some c'"
    by (rule pad_loop[OF stream_wf[OF assms(1)] assms(2,3)])
  then show ?thesis by (simp add: context_pad_def while_def)
qed

lemma context_pad_abs:
  assumes wf: "wf_buf B c" and L: "0 < L" "L < B"
  shows "wf_buf B (context_pad B L hash c)"
    and "blk_ptr (context_pad B L hash c) = B - L"
    and "(cv (context_pad B L hash c), pending (context_pad B L hash c)) =
      absorb B cf (cv c) (pending c @ [0x80] @ replicate (pad_zeros B L (blk_ptr c)) 0)"
proof -
  let ?c1 = "context_hashstream B hash c [0x80]"
  let ?k = "if blk_ptr ?c1 \<le> B - L then B - L - blk_ptr ?c1 else B - blk_ptr ?c1 + (B - L)"
  obtain c' where c': "while_option (\<lambda>c. blk_ptr c \<noteq> B - L) (pad_step B L hash) ?c1 = Some c'"
    "wf_buf B c'" "blk_ptr c' = B - L"
    "(cv c', pending c') = absorb B cf (cv ?c1) (pending ?c1 @ replicate ?k 0)"
    by (rule pad_loop[OF stream_wf[OF wf] L])
  have pad: "context_pad B L hash c = c'"
    using context_pad_terminates[OF assms] c'(1) by simp
  have ptr: "blk_ptr ?c1 = Suc (blk_ptr c) mod B"
    by (simp add: stream_ptr[OF wf])
  have k: "?k = pad_zeros B L (blk_ptr c)"
  proof (cases "blk_ptr c < B - L")
    case True
    with L wf ptr show ?thesis by (simp add: pad_zeros_lt wf_buf_def)
  next
    case False
    with L wf have "pad_zeros B L (blk_ptr c) = (B - Suc (blk_ptr c)) + (B - L)"
      by (simp add: pad_zeros_ge wf_buf_def)
    with False L wf ptr show ?thesis
      by (cases "Suc (blk_ptr c) = B") (auto simp: wf_buf_def)
  qed
  show "wf_buf B (context_pad B L hash c)" "blk_ptr (context_pad B L hash c) = B - L"
    using c' pad by simp_all
  have "absorb B cf (cv ?c1) (pending ?c1 @ replicate ?k 0) =
      absorb B cf (cv c) (pending c @ [0x80] @ replicate ?k 0)"
    by (rule stream_cont[OF wf])
  then show "(cv (context_pad B L hash c), pending (context_pad B L hash c)) =
      absorb B cf (cv c) (pending c @ [0x80] @ replicate (pad_zeros B L (blk_ptr c)) 0)"
    using c' pad k by simp
qed

end

section \<open>The interface of a complete hash function\<close>

locale md_hash = block_hash B hash cv cf
  for B :: nat
    and hash :: "'a hash_buf_scheme \<Rightarrow> bytes \<Rightarrow> 'a hash_buf_scheme"
    and cv :: "'a hash_buf_scheme \<Rightarrow> 'h"
    and cf :: "'h \<Rightarrow> bytes \<Rightarrow> 'h" +
  fixes L :: nat
    and iv :: 'h
    and init :: "'a hash_buf_scheme \<Rightarrow> 'a hash_buf_scheme"
    and endstream :: "'a hash_buf_scheme \<Rightarrow> u64 \<Rightarrow> 'a hash_buf_scheme"
    and lenenc :: "u64 \<Rightarrow> bytes"
    and digest :: "'a hash_buf_scheme \<Rightarrow> bytes"
    and out :: "'h \<Rightarrow> bytes"
  assumes L_pos: "0 < L" and L_less: "L < B"
    and cv_init: "cv (init c) = iv"
    and blk_init: "blk (init c) = blk c"
    and ptr_init: "blk_ptr (init c) = 0"
    and endstream_eq: "endstream c n = context_hashstream B hash (context_pad B L hash c) (lenenc n)"
    and length_lenenc: "length (lenenc n) = L"
    and digest_eq: "digest c = out (cv c)"
begin

lemma wf_init: "length (blk c) = B \<Longrightarrow> wf_buf B (init c)"
  using B_pos by (simp add: wf_buf_def blk_init ptr_init)

lemma endstream_abs:
  assumes wf: "wf_buf B c"
  shows "cv (endstream c n) =
      fst (absorb B cf (cv c) (pending c @ [0x80] @ replicate (pad_zeros B L (blk_ptr c)) 0 @ lenenc n))"
    and "blk_ptr (endstream c n) = 0"
    and "wf_buf B (endstream c n)"
proof -
  let ?p = "context_pad B L hash c"
  let ?z = "replicate (pad_zeros B L (blk_ptr c)) 0"
  have p: "wf_buf B ?p" "blk_ptr ?p = B - L"
    "(cv ?p, pending ?p) = absorb B cf (cv c) (pending c @ [0x80] @ ?z)"
    using context_pad_abs[OF wf L_pos L_less] by auto
  have "(cv (endstream c n), pending (endstream c n)) = absorb B cf (cv ?p) (pending ?p @ lenenc n)"
    by (simp add: endstream_eq stream_abs[OF p(1)])
  also have "\<dots> = absorb B cf (cv c) (pending c @ [0x80] @ ?z @ lenenc n)"
    using absorb_cont[OF B_pos p(3), of "lenenc n"] by simp
  finally show "cv (endstream c n) = fst (absorb B cf (cv c) (pending c @ [0x80] @ ?z @ lenenc n))"
    by (metis fst_conv)
  show "blk_ptr (endstream c n) = 0"
    using L_pos L_less by (simp add: endstream_eq stream_ptr[OF p(1)] p(2) length_lenenc)
  show "wf_buf B (endstream c n)"
    by (simp add: endstream_eq stream_wf[OF p(1)])
qed

text \<open>From any state whose buffer is empty, hashing a message and finishing.\<close>

lemma finish_from:
  assumes wf: "wf_buf B c" and empty: "blk_ptr c = 0"
  shows "cv (endstream (context_hashstream B hash c m) n) = md_ref B L cf (cv c) m (lenenc n)"
proof -
  let ?s = "context_hashstream B hash c m"
  have "blk_ptr ?s = length m mod B" by (simp add: stream_ptr[OF wf] empty)
  then have z: "pad_zeros B L (blk_ptr ?s) = pad_zeros B L (length m)" by (simp add: pad_zeros_mod)
  have "absorb B cf (cv ?s) (pending ?s @ t) = absorb B cf (cv c) (m @ t)" for t
    using stream_cont[OF wf, of m t] by (simp add: pending_empty[OF empty])
  then show ?thesis
    by (simp add: endstream_abs(1)[OF stream_wf[OF wf]] z md_ref_def)
qed

lemma one_shot:
  assumes "length (blk c) = B"
  shows "digest (endstream (context_hashstream B hash (init c) m) n) =
     out (md_ref B L cf iv m (lenenc n))"
  using finish_from[OF wf_init[OF assms] ptr_init] by (simp add: digest_eq cv_init)

text \<open>Feeding a message in pieces, empty ones included.\<close>

lemma chunks_abs:
  assumes "wf_buf B c"
  shows "wf_buf B (foldl (context_hashstream B hash) c ms)"
    and "cv (foldl (context_hashstream B hash) c ms) = cv (context_hashstream B hash c (concat ms))"
    and "pending (foldl (context_hashstream B hash) c ms) =
         pending (context_hashstream B hash c (concat ms))"
proof -
  have "wf_buf B (foldl (context_hashstream B hash) c ms) \<and>
     absorb B cf (cv c) (pending c @ concat ms) =
       (cv (foldl (context_hashstream B hash) c ms), pending (foldl (context_hashstream B hash) c ms))"
    using assms
  proof (induction ms arbitrary: c)
    case Nil
    then have "length (pending c) < B" by (simp add: length_pending) (simp add: wf_buf_def)
    with Nil show ?case by (simp add: absorb_short)
  next
    case (Cons m ms)
    note IH = Cons.IH[OF stream_wf[OF Cons.prems, of m]]
    then show ?case using stream_cont[OF Cons.prems, of m "concat ms"] by simp
  qed
  then show "wf_buf B (foldl (context_hashstream B hash) c ms)"
    "cv (foldl (context_hashstream B hash) c ms) = cv (context_hashstream B hash c (concat ms))"
    "pending (foldl (context_hashstream B hash) c ms) =
       pending (context_hashstream B hash c (concat ms))"
    using stream_abs[OF assms, of "concat ms"] by auto
qed

lemma one_shot_chunks:
  assumes "length (blk c) = B"
  shows "digest (endstream (foldl (context_hashstream B hash) (init c) ms) n) =
     out (md_ref B L cf iv (concat ms) (lenenc n))"
proof -
  let ?f = "foldl (context_hashstream B hash) (init c) ms"
  let ?s = "context_hashstream B hash (init c) (concat ms)"
  note wf = wf_init[OF assms]
  note ch = chunks_abs[OF wf, of ms]
  have "blk_ptr ?f = blk_ptr ?s"
    using ch(3) length_pending[OF ch(1)] length_pending[OF stream_wf[OF wf, of "concat ms"]] by metis
  then have "cv (endstream ?f n) = cv (endstream ?s n)"
    by (simp add: endstream_abs(1)[OF ch(1)] endstream_abs(1)[OF stream_wf[OF wf]] ch(2,3))
  then show ?thesis
    using one_shot[OF assms, of "concat ms" n] by (simp add: digest_eq)
qed

text \<open>A context can be used again: the buffer keeps its size.\<close>

lemma endstream_blk:
  assumes "length (blk c) = B"
  shows "length (blk (endstream (foldl (context_hashstream B hash) (init c) ms) n)) = B"
  using endstream_abs(3)[OF chunks_abs(1)[OF wf_init[OF assms]]] by (simp add: wf_buf_def)

end

end
