(* ===== verification/Md5.thy ===== *)
theory Md5
  imports Hash_Stream
begin

text \<open>
  md5/md5.c: the context \<open>struct MD5_CONTEXT\<close>, the block function with its four groups of sixteen
  macro lines, streaming, padding, digest and restore.  The macro lines are kept as the source
  lists them (which registers in which order, word index, shift, table index); the reference
  \<open>md5_rfc_compress\<close> is the formulation of RFC 1321 with rotating registers and computed indices,
  and the section on refinement shows that the two block functions agree.
\<close>

section \<open>The context\<close>

record md5_context = hash_buf +
  md5_A :: u32
  md5_B :: u32
  md5_C :: u32
  md5_D :: u32

type_synonym md5_regs = "u32 \<times> u32 \<times> u32 \<times> u32"

definition MD5_DIGEST_SIZE :: nat where "MD5_DIGEST_SIZE = 16"

definition MD5_BLOCK_SIZE :: nat where "MD5_BLOCK_SIZE = 64"

lemmas md5_sizes = MD5_DIGEST_SIZE_def MD5_BLOCK_SIZE_def

definition MD5_ROL :: "u32 \<Rightarrow> nat \<Rightarrow> u32" where
  "MD5_ROL w n = (push_bit n w OR drop_bit (32 - n) w)"

definition md5_T :: "u32 list" where
  "md5_T = [
   0xd76aa478, 0xe8c7b756, 0x242070db, 0xc1bdceee,
   0xf57c0faf, 0x4787c62a, 0xa8304613, 0xfd469501,
   0x698098d8, 0x8b44f7af, 0xffff5bb1, 0x895cd7be,
   0x6b901122, 0xfd987193, 0xa679438e, 0x49b40821,
   0xf61e2562, 0xc040b340, 0x265e5a51, 0xe9b6c7aa,
   0xd62f105d, 0x2441453, 0xd8a1e681, 0xe7d3fbc8,
   0x21e1cde6, 0xc33707d6, 0xf4d50d87, 0x455a14ed,
   0xa9e3e905, 0xfcefa3f8, 0x676f02d9, 0x8d2a4c8a,
   0xfffa3942, 0x8771f681, 0x6d9d6122, 0xfde5380c,
   0xa4beea44, 0x4bdecfa9, 0xf6bb4b60, 0xbebfbc70,
   0x289b7ec6, 0xeaa127fa, 0xd4ef3085, 0x4881d05,
   0xd9d4d039, 0xe6db99e5, 0x1fa27cf8, 0xc4ac5665,
   0xf4292244, 0x432aff97, 0xab9423a7, 0xfc93a039,
   0x655b59c3, 0x8f0ccc92, 0xffeff47d, 0x85845dd1,
   0x6fa87e4f, 0xfe2ce6e0, 0xa3014314, 0x4e0811a1,
   0xf7537e82, 0xbd3af235, 0x2ad7d2bb, 0xeb86d391]"

definition md5_context_init :: "md5_context \<Rightarrow> md5_context" where
  "md5_context_init c = c\<lparr>md5_A := 0x67452301, md5_B := 0xefcdab89, md5_C := 0x98badcfe,
     md5_D := 0x10325476, blk_ptr := 0\<rparr>"

section \<open>The block function\<close>

text \<open>The words \<open>x[i]\<close>: four bytes each, least significant first.\<close>

definition md5_load :: "bytes \<Rightarrow> u32 list" where
  "md5_load b = map (\<lambda>i. ucast (b ! (4 * i)) OR push_bit 8 (ucast (b ! (4 * i + 1)))
     OR push_bit 16 (ucast (b ! (4 * i + 2))) OR push_bit 24 (ucast (b ! (4 * i + 3)))) [0..<16]"

definition md5_F :: "u32 \<Rightarrow> u32 \<Rightarrow> u32 \<Rightarrow> u32" where
  "md5_F X Y Z = ((X AND Y) OR (NOT X AND Z))"

definition md5_G :: "u32 \<Rightarrow> u32 \<Rightarrow> u32 \<Rightarrow> u32" where
  "md5_G X Y Z = ((X AND Z) OR (Y AND NOT Z))"

definition md5_H :: "u32 \<Rightarrow> u32 \<Rightarrow> u32 \<Rightarrow> u32" where
  "md5_H X Y Z = (X XOR Y XOR Z)"

definition md5_I :: "u32 \<Rightarrow> u32 \<Rightarrow> u32 \<Rightarrow> u32" where
  "md5_I X Y Z = (Y XOR (X OR NOT Z))"

text \<open>
  One macro line \<open>ROUNDn(a,b,c,d,k,s,i)\<close>: the datatype names the order in which the four
  registers are passed; only the first one is assigned.
\<close>

datatype md5_order = ABCD | DABC | CDAB | BCDA

type_synonym md5_line = "md5_order \<times> nat \<times> nat \<times> nat"

fun md5_ROUND :: "(u32 \<Rightarrow> u32 \<Rightarrow> u32 \<Rightarrow> u32) \<Rightarrow> u32 list \<Rightarrow> md5_line \<Rightarrow> md5_regs \<Rightarrow> md5_regs" where
  "md5_ROUND f x (ABCD, k, s, i) (A, B, C, D) =
     (let zz = A + f B C D + x ! k + md5_T ! i in (B + MD5_ROL zz s, B, C, D))"
| "md5_ROUND f x (DABC, k, s, i) (A, B, C, D) =
     (let zz = D + f A B C + x ! k + md5_T ! i in (A, B, C, A + MD5_ROL zz s))"
| "md5_ROUND f x (CDAB, k, s, i) (A, B, C, D) =
     (let zz = C + f D A B + x ! k + md5_T ! i in (A, B, D + MD5_ROL zz s, D))"
| "md5_ROUND f x (BCDA, k, s, i) (A, B, C, D) =
     (let zz = B + f C D A + x ! k + md5_T ! i in (A, C + MD5_ROL zz s, C, D))"

definition md5_ROUND1 :: "md5_line list" where
  "md5_ROUND1 = [
   (ABCD, 0, 7, 0), (DABC, 1, 12, 1), (CDAB, 2, 17, 2), (BCDA, 3, 22, 3),
   (ABCD, 4, 7, 4), (DABC, 5, 12, 5), (CDAB, 6, 17, 6), (BCDA, 7, 22, 7),
   (ABCD, 8, 7, 8), (DABC, 9, 12, 9), (CDAB, 10, 17, 10), (BCDA, 11, 22, 11),
   (ABCD, 12, 7, 12), (DABC, 13, 12, 13), (CDAB, 14, 17, 14), (BCDA, 15, 22, 15)]"

definition md5_ROUND2 :: "md5_line list" where
  "md5_ROUND2 = [
   (ABCD, 1, 5, 16), (DABC, 6, 9, 17), (CDAB, 11, 14, 18), (BCDA, 0, 20, 19),
   (ABCD, 5, 5, 20), (DABC, 10, 9, 21), (CDAB, 15, 14, 22), (BCDA, 4, 20, 23),
   (ABCD, 9, 5, 24), (DABC, 14, 9, 25), (CDAB, 3, 14, 26), (BCDA, 8, 20, 27),
   (ABCD, 13, 5, 28), (DABC, 2, 9, 29), (CDAB, 7, 14, 30), (BCDA, 12, 20, 31)]"

definition md5_ROUND3 :: "md5_line list" where
  "md5_ROUND3 = [
   (ABCD, 5, 4, 32), (DABC, 8, 11, 33), (CDAB, 11, 16, 34), (BCDA, 14, 23, 35),
   (ABCD, 1, 4, 36), (DABC, 4, 11, 37), (CDAB, 7, 16, 38), (BCDA, 10, 23, 39),
   (ABCD, 13, 4, 40), (DABC, 0, 11, 41), (CDAB, 3, 16, 42), (BCDA, 6, 23, 43),
   (ABCD, 9, 4, 44), (DABC, 12, 11, 45), (CDAB, 15, 16, 46), (BCDA, 2, 23, 47)]"

definition md5_ROUND4 :: "md5_line list" where
  "md5_ROUND4 = [
   (ABCD, 0, 6, 48), (DABC, 7, 10, 49), (CDAB, 14, 15, 50), (BCDA, 5, 21, 51),
   (ABCD, 12, 6, 52), (DABC, 3, 10, 53), (CDAB, 10, 15, 54), (BCDA, 1, 21, 55),
   (ABCD, 8, 6, 56), (DABC, 15, 10, 57), (CDAB, 6, 15, 58), (BCDA, 13, 21, 59),
   (ABCD, 4, 6, 60), (DABC, 11, 10, 61), (CDAB, 2, 15, 62), (BCDA, 9, 21, 63)]"

definition md5_rounds :: "u32 list \<Rightarrow> md5_regs \<Rightarrow> md5_regs" where
  "md5_rounds x r = fold (md5_ROUND md5_I x) md5_ROUND4 (fold (md5_ROUND md5_H x) md5_ROUND3
     (fold (md5_ROUND md5_G x) md5_ROUND2 (fold (md5_ROUND md5_F x) md5_ROUND1 r)))"

definition md5_context_hash :: "md5_context \<Rightarrow> bytes \<Rightarrow> md5_context" where
  "md5_context_hash c b =
     (case md5_rounds (md5_load b) (md5_A c, md5_B c, md5_C c, md5_D c) of (A, B, C, D) \<Rightarrow>
        c\<lparr>md5_A := md5_A c + A, md5_B := md5_B c + B, md5_C := md5_C c + C, md5_D := md5_D c + D\<rparr>)"

section \<open>Streaming, padding, digest\<close>

definition md5_context_hashstream :: "md5_context \<Rightarrow> bytes \<Rightarrow> md5_context" where
  "md5_context_hashstream = context_hashstream MD5_BLOCK_SIZE md5_context_hash"

text \<open>
  The eight length bytes: \<open>l\<close> is a 32-bit word, so \<open>l = ll\<close> drops the upper half of the byte
  count; the low word of the bit count comes first, then \<open>l >> 29\<close>.
\<close>

definition md5_length_bytes :: "u64 \<Rightarrow> bytes" where
  "md5_length_bytes ll = (let l = ucast ll :: u32 in
     unpack_le 4 (push_bit 3 l) @ unpack_le 4 (drop_bit 29 l))"

definition md5_context_endstream :: "md5_context \<Rightarrow> u64 \<Rightarrow> md5_context" where
  "md5_context_endstream c ll =
     md5_context_hashstream (context_pad MD5_BLOCK_SIZE 8 md5_context_hash c) (md5_length_bytes ll)"

definition md5_context_digest :: "md5_context \<Rightarrow> bytes" where
  "md5_context_digest c =
     unpack_le 4 (md5_A c) @ unpack_le 4 (md5_B c) @ unpack_le 4 (md5_C c) @ unpack_le 4 (md5_D c)"

text \<open>\<open>GET\<close> reads four bytes backwards; the last four bytes are \<open>D\<close>.\<close>

definition md5_context_restore :: "md5_context \<Rightarrow> bytes \<Rightarrow> md5_context" where
  "md5_context_restore c d = c\<lparr>
     md5_D := pack_be [d ! 15, d ! 14, d ! 13, d ! 12],
     md5_C := pack_be [d ! 11, d ! 10, d ! 9, d ! 8],
     md5_B := pack_be [d ! 7, d ! 6, d ! 5, d ! 4],
     md5_A := pack_be [d ! 3, d ! 2, d ! 1, d ! 0],
     blk_ptr := 0\<rparr>"

text \<open>
  The local variable \<open>struct MD5_CONTEXT c\<close> of \<open>md5_digest\<close> is uninitialised; any context with a
  64 byte block stands for it.  The argument \<open>msg\<close>, \<open>len\<close> is the list of the \<open>len\<close> bytes.
\<close>

definition md5_digest :: "md5_context \<Rightarrow> bytes \<Rightarrow> bytes" where
  "md5_digest c msg = md5_context_digest (md5_context_endstream
     (md5_context_hashstream (md5_context_init c) msg) (of_nat (length msg)))"

definition md5_stack :: md5_context where
  "md5_stack = \<lparr>blk = replicate MD5_BLOCK_SIZE 0, blk_ptr = 0, md5_A = 0, md5_B = 0, md5_C = 0, md5_D = 0\<rparr>"

section \<open>The reference of RFC 1321\<close>

definition md5_rfc_f :: "nat \<Rightarrow> u32 \<Rightarrow> u32 \<Rightarrow> u32 \<Rightarrow> u32" where
  "md5_rfc_f i x y z =
     (if i < 16 then (x AND y) OR (NOT x AND z)
      else if i < 32 then (x AND z) OR (y AND NOT z)
      else if i < 48 then x XOR y XOR z
      else y XOR (x OR NOT z))"

definition md5_rfc_k :: "nat \<Rightarrow> nat" where
  "md5_rfc_k i = (if i < 16 then i else if i < 32 then (5 * i + 1) mod 16
     else if i < 48 then (3 * i + 5) mod 16 else (7 * i) mod 16)"

definition md5_rfc_s :: "nat \<Rightarrow> nat" where
  "md5_rfc_s i = [[7,12,17,22], [5,9,14,20], [4,11,16,23], [6,10,15,21]] ! (i div 16) ! (i mod 4)"

fun md5_rfc_step :: "u32 list \<Rightarrow> nat \<Rightarrow> md5_regs \<Rightarrow> md5_regs" where
  "md5_rfc_step x i (a, b, c, d) =
     (d, b + word_rotl (md5_rfc_s i) (a + md5_rfc_f i b c d + x ! md5_rfc_k i + md5_T ! i), b, c)"

definition md5_rfc_words :: "bytes \<Rightarrow> u32 list" where
  "md5_rfc_words b = map (\<lambda>i. pack_be (rev (take 4 (drop (4 * i) b)))) [0..<16]"

fun md5_add :: "md5_regs \<Rightarrow> md5_regs \<Rightarrow> md5_regs" where
  "md5_add (a, b, c, d) (a', b', c', d') = (a + a', b + b', c + c', d + d')"

definition md5_rfc_compress :: "md5_regs \<Rightarrow> bytes \<Rightarrow> md5_regs" where
  "md5_rfc_compress r b = md5_add r (fold (md5_rfc_step (md5_rfc_words b)) [0..<64] r)"

definition md5_iv :: md5_regs where
  "md5_iv = (0x67452301, 0xefcdab89, 0x98badcfe, 0x10325476)"

fun md5_out :: "md5_regs \<Rightarrow> bytes" where
  "md5_out (a, b, c, d) = concat (map (unpack_le 4) [a, b, c, d])"

text \<open>The digest of RFC 1321 of a whole message: the length is the 64-bit count of bits.\<close>

definition md5_rfc :: "bytes \<Rightarrow> bytes" where
  "md5_rfc m = md5_out (md_ref 64 8 md5_rfc_compress md5_iv m
     (unpack_le 8 (of_nat (8 * length m) :: u64)))"

section \<open>The block function refines RFC 1321\<close>

definition md5_order_of :: "nat \<Rightarrow> md5_order" where
  "md5_order_of i = [ABCD, DABC, CDAB, BCDA] ! (i mod 4)"

definition md5_line_of :: "nat \<Rightarrow> md5_line" where
  "md5_line_of i = (md5_order_of i, md5_rfc_k i, md5_rfc_s i, i)"

lemma md5_lines:
  "md5_ROUND1 = map md5_line_of [0..<16]" "md5_ROUND2 = map md5_line_of [16..<32]"
  "md5_ROUND3 = map md5_line_of [32..<48]" "md5_ROUND4 = map md5_line_of [48..<64]"
  by code_simp+

text \<open>The registers in the order RFC 1321 names them before step \<open>i\<close>.\<close>

fun md5_view :: "md5_order \<Rightarrow> md5_regs \<Rightarrow> md5_regs" where
  "md5_view ABCD (A, B, C, D) = (A, B, C, D)"
| "md5_view DABC (A, B, C, D) = (D, A, B, C)"
| "md5_view CDAB (A, B, C, D) = (C, D, A, B)"
| "md5_view BCDA (A, B, C, D) = (B, C, D, A)"

lemma rotl_eq [byte_simps]: "0 < n \<Longrightarrow> n < 32 \<Longrightarrow> MD5_ROL w n = word_rotl n w"
  using rotl_shift[of n w] by (simp add: MD5_ROL_def)

lemma md5_rfc_s_lt: "i < 64 \<Longrightarrow> 0 < md5_rfc_s i \<and> md5_rfc_s i < 32"
proof -
  have "list_all (\<lambda>i. 0 < md5_rfc_s i \<and> md5_rfc_s i < 32) [0..<64]" by code_simp
  then show "i < 64 \<Longrightarrow> 0 < md5_rfc_s i \<and> md5_rfc_s i < 32" by (simp add: list_all_iff)
qed
lemma md5_order_Suc: "md5_order_of (Suc i) = (case md5_order_of i of ABCD \<Rightarrow> DABC | DABC \<Rightarrow> CDAB | CDAB \<Rightarrow> BCDA | BCDA \<Rightarrow> ABCD)"
proof -
  have "i mod 4 < 4" by simp
  then consider "i mod 4 = 0" | "i mod 4 = 1" | "i mod 4 = 2" | "i mod 4 = 3" by linarith
  then show ?thesis
    by cases (simp_all add: md5_order_of_def mod_Suc)
qed

lemma md5_ROUND_view:
  "i < 64 \<Longrightarrow> md5_view (md5_order_of (Suc i)) (md5_ROUND (md5_rfc_f i) x (md5_line_of i) r) =
   md5_rfc_step x i (md5_view (md5_order_of i) r)"
  by (cases r; cases "md5_order_of i")
     (simp_all add: md5_line_of_def md5_order_Suc Let_def rotl_eq md5_rfc_s_lt)

lemma md5_fold_view:
  assumes "j \<le> 64" and "\<And>k. i \<le> k \<Longrightarrow> k < j \<Longrightarrow> md5_rfc_f k = f"
  shows "i \<le> j \<Longrightarrow> md5_view (md5_order_of j) (fold (md5_ROUND f x) (map md5_line_of [i..<j]) r) =
    fold (md5_rfc_step x) [i..<j] (md5_view (md5_order_of i) r)"
  using assms
proof (induction j)
  case 0
  then show ?case by simp
next
  case (Suc j)
  show ?case
  proof (cases "i = Suc j")
    case True
    then show ?thesis by simp
  next
    case False
    with Suc.prems have "i \<le> j" by simp
    with Suc show ?thesis
      using md5_ROUND_view[of j x] by simp
  qed
qed

lemma md5_rfc_f_cases:
  "md5_rfc_f i = (if i < 16 then md5_F else if i < 32 then md5_G else if i < 48 then md5_H else md5_I)"
  by (auto simp: fun_eq_iff md5_rfc_f_def md5_F_def md5_G_def md5_H_def md5_I_def)

lemma md5_rounds_rfc: "md5_rounds x r = fold (md5_rfc_step x) [0..<64] r"
proof -
  have upt: "[0..<64] = [0..<16] @ [16..<32] @ [32..<48] @ [48..<(64::nat)]"
    by code_simp
  have [simp]: "md5_view (md5_order_of n) r = r" if "n mod 4 = 0" for n r
    using that by (cases r) (simp add: md5_order_of_def)
  show ?thesis
    using md5_fold_view[of 16 0 md5_F x] md5_fold_view[of 32 16 md5_G x]
      md5_fold_view[of 48 32 md5_H x] md5_fold_view[of 64 48 md5_I x]
    by (simp add: md5_rounds_def md5_lines upt md5_rfc_f_cases)
qed

lemma md5_load_words:
  assumes "length b = 64"
  shows "md5_load b = md5_rfc_words b"
proof -
  have "take 4 (drop (4 * i) b) = [b ! (4 * i), b ! (4 * i + 1), b ! (4 * i + 2), b ! (4 * i + 3)]"
    if "i < 16" for i
    using that assms by (intro take_4_drop) simp
  moreover have "ucast b0 OR push_bit 8 (ucast b1) OR push_bit 16 (ucast b2) OR push_bit 24 (ucast b3)
     = (pack_be [b3, b2, b1, b0] :: u32)" for b0 b1 b2 b3 :: u8
    by (intro bit_word_eqI) (auto simp: pack_be_def bit_simps)
  ultimately show ?thesis
    by (simp add: md5_load_def md5_rfc_words_def)
qed

definition md5_cv :: "md5_context \<Rightarrow> md5_regs" where
  "md5_cv c = (md5_A c, md5_B c, md5_C c, md5_D c)"

definition md5_compress :: "md5_regs \<Rightarrow> bytes \<Rightarrow> md5_regs" where
  "md5_compress r b = md5_add r (md5_rounds (md5_load b) r)"

lemma md5_compress_rfc: "length b = 64 \<Longrightarrow> md5_compress r b = md5_rfc_compress r b"
  by (simp add: md5_compress_def md5_rfc_compress_def md5_rounds_rfc md5_load_words)

section \<open>The interpretation of the hash interface\<close>

interpretation md5: md_hash MD5_BLOCK_SIZE md5_context_hash md5_cv md5_compress 8 md5_iv
  md5_context_init md5_context_endstream md5_length_bytes md5_context_digest md5_out
proof (unfold_locales, goal_cases)
  case (2 c b)
  then show ?case
    by (simp add: md5_cv_def md5_context_hash_def md5_compress_def split: prod.split)
qed (auto simp: md5_sizes md5_cv_def md5_context_hash_def md5_context_init_def md5_iv_def
      md5_context_endstream_def md5_context_hashstream_def md5_length_bytes_def Let_def
      md5_context_digest_def split: prod.split)

section \<open>The digest of a message\<close>

lemma unpack_le_8:
  "unpack_le 8 (w :: u64) = unpack_le 4 (ucast w :: u32) @ unpack_le 4 (ucast (drop_bit 32 w) :: u32)"
  by (simp add: numeral_eq_Suc) (intro conjI bit_word_eqI; simp add: bit_simps)

lemma md5_length_bytes_rfc:
  assumes "n < 2 ^ 32"
  shows "md5_length_bytes (of_nat n) = unpack_le 8 (of_nat (8 * n) :: u64)"
proof -
  let ?w = "of_nat n :: u64"
  have low: "i < 32" if "bit n i" for i
    using assms that by (rule bit_less_exp)
  have w: "(of_nat (8 * n) :: u64) = push_bit 3 ?w"
    by (simp add: push_bit_eq_mult)
  have "ucast (push_bit 3 ?w) = push_bit 3 (ucast ?w :: u32)"
    by (intro bit_word_eqI) (auto simp: bit_simps)
  moreover have "ucast (drop_bit 32 (push_bit 3 ?w)) = drop_bit 29 (ucast ?w :: u32)"
    by (intro bit_word_eqI) (auto simp: bit_simps add.commute dest: low)
  ultimately show ?thesis
    by (simp only: w md5_length_bytes_def unpack_le_8 Let_def)
qed

lemma md5_finish_rfc:
  assumes "length m < 2 ^ 32"
  shows "md5_out (md_ref MD5_BLOCK_SIZE 8 md5_compress md5_iv m (md5_length_bytes (of_nat (length m))))
    = md5_rfc m"
proof -
  have "md_ref MD5_BLOCK_SIZE 8 md5_compress md5_iv m le =
      md_ref MD5_BLOCK_SIZE 8 md5_rfc_compress md5_iv m le" for le
    by (rule md_ref_cong) (simp add: md5_compress_rfc md5_sizes)
  then show ?thesis
    by (simp add: md5_rfc_def md5_length_bytes_rfc[OF assms(1)] md5_sizes)
qed

lemma md5_digest_rfc:
  assumes "length m < 2 ^ 32" and "length (blk c) = MD5_BLOCK_SIZE"
  shows "md5_digest c m = md5_rfc m"
  unfolding md5_digest_def md5_context_hashstream_def
  by (simp add: md5.one_shot[OF assms(2)] md5_finish_rfc[OF assms(1)])

lemma length_md5_rfc [simp]: "length (md5_rfc m) = 16"
proof -
  have "length (md5_out r) = 16" for r by (cases r rule: md5_out.cases) simp
  then show ?thesis by (simp add: md5_rfc_def)
qed

text \<open>What a client that feeds pieces relies on; the context can be used again.\<close>

lemma md5_pieces_rfc:
  assumes "length (concat ms) < 2 ^ 32" and "length (blk c) = MD5_BLOCK_SIZE" and "n = length (concat ms)"
  shows "md5_context_digest (md5_context_endstream
      (foldl md5_context_hashstream (md5_context_init c) ms) (of_nat n)) = md5_rfc (concat ms)"
  unfolding md5_context_hashstream_def
  by (simp add: md5.one_shot_chunks[OF assms(2)] md5_finish_rfc[OF assms(1)] assms(3) del: length_concat)

lemma md5_pieces_blk:
  "length (blk c) = MD5_BLOCK_SIZE \<Longrightarrow> length (blk (md5_context_endstream
      (foldl md5_context_hashstream (md5_context_init c) ms) n)) = MD5_BLOCK_SIZE"
  unfolding md5_context_hashstream_def by (rule md5.endstream_blk)

lemma length_md5_context_digest [len_simps]: "length (md5_context_digest c) = MD5_DIGEST_SIZE"
  by (simp add: md5_context_digest_def md5_sizes unpack_le_numeral)

text \<open>
  C14: MD5 streaming. A message fed to md5_context_hashstream in any pieces, then finished by
  md5_context_endstream with its total length, gives the digest of RFC 1321 of the concatenation,
  whatever the uninitialised context held, for every length that a C argument of type unsigned holds.
\<close>

theorem md5_stream_rfc:
  assumes "length (concat ms) < 2 ^ 32" and "length (blk c) = MD5_BLOCK_SIZE"
  shows "md5_context_digest (md5_context_endstream
      (foldl md5_context_hashstream (md5_context_init c) ms) (of_nat (length (concat ms)))) =
    md5_rfc (concat ms)"
  unfolding md5_context_hashstream_def
  by (simp add: md5.one_shot_chunks[OF assms(2)] md5_finish_rfc[OF assms(1)] del: length_concat)

theorem md5_stream_rfc_witness:
  "md5_context_digest (md5_context_endstream
      (foldl md5_context_hashstream (md5_context_init md5_stack) [str ''a'', [], str ''bc'']) 3) =
     [0x90, 0x01, 0x50, 0x98, 0x3c, 0xd2, 0x4f, 0xb0, 0xd6, 0x96, 0x3f, 0x7d, 0x28, 0xe1, 0x7f, 0x72]"
proof -
  have "md5_rfc (str ''a'' @ str ''bc'') =
     [0x90, 0x01, 0x50, 0x98, 0x3c, 0xd2, 0x4f, 0xb0, 0xd6, 0x96, 0x3f, 0x7d, 0x28, 0xe1, 0x7f, 0x72]"
    by code_simp
  then show ?thesis
    using md5_stream_rfc[of "[str ''a'', [], str ''bc'']" md5_stack] by (simp add: md5_stack_def)
qed

end
