(* ===== verification/Sha1.thy ===== *)
theory Sha1
  imports Hash_Stream
begin

text \<open>
  sha1/sha1.c: the context \<open>struct SHA1_CONTEXT\<close>, the block function with its message schedule and
  eighty steps, streaming, padding, digest and restore.  The reference \<open>sha1_fips\<close> follows FIPS 180:
  a recursively defined schedule, rotations, and the 64-bit length; the code's padding stores only
  the low 32 bits of the bit count, which the last section makes precise.
\<close>

section \<open>The context\<close>

record sha1_context = hash_buf +
  sha1_H :: "u32 list"

definition SHA1_DIGEST_SIZE :: nat where "SHA1_DIGEST_SIZE = 20"

definition SHA1_BLOCK_SIZE :: nat where "SHA1_BLOCK_SIZE = 64"

lemmas sha1_sizes = SHA1_DIGEST_SIZE_def SHA1_BLOCK_SIZE_def

text \<open>The table \<open>K[80]\<close>: four constants, twenty times each.\<close>

definition sha1_K :: "u32 list" where
  "sha1_K = replicate 20 0x5A827999 @ replicate 20 0x6ED9EBA1 @
     replicate 20 0x8F1BBCDC @ replicate 20 0xCA62C1D6"

definition sha1_context_init :: "sha1_context \<Rightarrow> sha1_context" where
  "sha1_context_init c = c\<lparr>sha1_H := [0x67452301, 0xEFCDAB89, 0x98BADCFE, 0x10325476, 0xC3D2E1F0],
     blk_ptr := 0\<rparr>"

section \<open>The block function\<close>

definition sha1_f :: "nat \<Rightarrow> u32 \<Rightarrow> u32 \<Rightarrow> u32 \<Rightarrow> u32" where
  "sha1_f t B C D =
     (if t < 20 then (B AND C) OR (NOT B AND D)
      else if 40 \<le> t \<and> t < 60 then (B AND C) OR (B AND D) OR (C AND D)
      else B XOR C XOR D)"

definition sha1_S :: "u32 \<Rightarrow> nat \<Rightarrow> u32" where
  "sha1_S a b = (push_bit b a OR drop_bit (32 - b) a)"

text \<open>The first sixteen words of \<open>W\<close>, then the loop from 16 to 79.\<close>

definition sha1_load :: "bytes \<Rightarrow> u32 list" where
  "sha1_load b = map (\<lambda>t. pack_be [b ! (4 * t), b ! (4 * t + 1), b ! (4 * t + 2), b ! (4 * t + 3)]) [0..<16]"

definition sha1_next :: "nat \<Rightarrow> u32 list \<Rightarrow> u32" where
  "sha1_next t W =
     (let TEMP = W ! (t - 3) XOR W ! (t - 8) XOR W ! (t - 14) XOR W ! (t - 16) in sha1_S TEMP 1)"

definition sha1_schedule :: "bytes \<Rightarrow> u32 list" where
  "sha1_schedule b = fold (\<lambda>t W. W @ [sha1_next t W]) [16..<80] (sha1_load b)"

type_synonym sha1_regs = "u32 \<times> u32 \<times> u32 \<times> u32 \<times> u32"

fun sha1_step :: "u32 list \<Rightarrow> nat \<Rightarrow> sha1_regs \<Rightarrow> sha1_regs" where
  "sha1_step W t (A, B, C, D, E) =
     (let TEMP = sha1_S A 5 + sha1_f t B C D + E + W ! t + sha1_K ! t
      in (TEMP, A, sha1_S B 30, C, D))"

definition sha1_context_hash :: "sha1_context \<Rightarrow> bytes \<Rightarrow> sha1_context" where
  "sha1_context_hash c b =
     (let W = sha1_schedule b; H = sha1_H c
      in case fold (sha1_step W) [0..<80] (H ! 0, H ! 1, H ! 2, H ! 3, H ! 4) of (A, B, C, D, E) \<Rightarrow>
        c\<lparr>sha1_H := [H ! 0 + A, H ! 1 + B, H ! 2 + C, H ! 3 + D, H ! 4 + E]\<rparr>)"

section \<open>Streaming, padding, digest\<close>

definition sha1_context_hashstream :: "sha1_context \<Rightarrow> bytes \<Rightarrow> sha1_context" where
  "sha1_context_hashstream = context_hashstream SHA1_BLOCK_SIZE sha1_context_hash"

text \<open>
  The length bytes: \<open>l *= 8\<close> in 64 bits, then \<open>buf[7]\<close> down to \<open>buf[4]\<close> get its low four bytes and
  \<open>buf[3]\<close> to \<open>buf[0]\<close> are zero.
\<close>

definition sha1_length_bytes :: "u64 \<Rightarrow> bytes" where
  "sha1_length_bytes l = (let l = l * 8 in
     [0, 0, 0, 0, ucast (drop_bit 24 l), ucast (drop_bit 16 l), ucast (drop_bit 8 l), ucast l])"

definition sha1_context_endstream :: "sha1_context \<Rightarrow> u64 \<Rightarrow> sha1_context" where
  "sha1_context_endstream c l =
     sha1_context_hashstream (context_pad SHA1_BLOCK_SIZE 8 sha1_context_hash c) (sha1_length_bytes l)"

definition sha1_context_digest :: "sha1_context \<Rightarrow> bytes" where
  "sha1_context_digest c = concat (map (\<lambda>i. rev (unpack_le 4 (sha1_H c ! i))) [0..<5])"

definition sha1_context_restore :: "sha1_context \<Rightarrow> bytes \<Rightarrow> sha1_context" where
  "sha1_context_restore c d = c\<lparr>
     sha1_H := map (\<lambda>i. pack_be [d ! (4 * i), d ! (4 * i + 1), d ! (4 * i + 2), d ! (4 * i + 3)]) [0..<5],
     blk_ptr := 0\<rparr>"

text \<open>As in MD5, the context on the stack is uninitialised: any context with a 64 byte block.\<close>

definition sha1_digest :: "sha1_context \<Rightarrow> bytes \<Rightarrow> bytes" where
  "sha1_digest c msg = sha1_context_digest (sha1_context_endstream
     (sha1_context_hashstream (sha1_context_init c) msg) (of_nat (length msg)))"

definition sha1_stack :: sha1_context where
  "sha1_stack = \<lparr>blk = replicate SHA1_BLOCK_SIZE 0, blk_ptr = 0, sha1_H = replicate 5 0\<rparr>"

section \<open>The reference of FIPS 180\<close>

fun sha1_fips_W :: "bytes \<Rightarrow> nat \<Rightarrow> u32" where
  "sha1_fips_W b t = (if t < 16 then pack_be (take 4 (drop (4 * t) b))
     else word_rotl 1 (sha1_fips_W b (t - 3) XOR sha1_fips_W b (t - 8)
       XOR sha1_fips_W b (t - 14) XOR sha1_fips_W b (t - 16)))"

declare sha1_fips_W.simps [simp del]

definition sha1_fips_K :: "nat \<Rightarrow> u32" where
  "sha1_fips_K t = [0x5A827999, 0x6ED9EBA1, 0x8F1BBCDC, 0xCA62C1D6] ! (t div 20)"

text \<open>The functions Ch, Parity and Maj of the standard.\<close>

definition sha1_fips_f :: "nat \<Rightarrow> u32 \<Rightarrow> u32 \<Rightarrow> u32 \<Rightarrow> u32" where
  "sha1_fips_f t x y z =
     [(x AND y) XOR (NOT x AND z), x XOR y XOR z, (x AND y) XOR (x AND z) XOR (y AND z), x XOR y XOR z] ! (t div 20)"

fun sha1_fips_step :: "bytes \<Rightarrow> nat \<Rightarrow> sha1_regs \<Rightarrow> sha1_regs" where
  "sha1_fips_step b t (A, B, C, D, E) =
     (word_rotl 5 A + sha1_fips_f t B C D + E + sha1_fips_K t + sha1_fips_W b t, A, word_rotl 30 B, C, D)"

definition sha1_fips_compress :: "u32 list \<Rightarrow> bytes \<Rightarrow> u32 list" where
  "sha1_fips_compress H b =
     (case fold (sha1_fips_step b) [0..<80] (H ! 0, H ! 1, H ! 2, H ! 3, H ! 4) of (A, B, C, D, E) \<Rightarrow>
        [H ! 0 + A, H ! 1 + B, H ! 2 + C, H ! 3 + D, H ! 4 + E])"

definition sha1_iv :: "u32 list" where
  "sha1_iv = [0x67452301, 0xEFCDAB89, 0x98BADCFE, 0x10325476, 0xC3D2E1F0]"

definition sha1_out :: "u32 list \<Rightarrow> bytes" where
  "sha1_out H = concat (map (\<lambda>i. rev (unpack_le 4 (H ! i))) [0..<5])"

definition sha1_fips :: "bytes \<Rightarrow> bytes" where
  "sha1_fips m = sha1_out (md_ref 64 8 sha1_fips_compress sha1_iv m
     (rev (unpack_le 8 (of_nat (8 * length m) :: u64))))"

section \<open>The block function refines FIPS 180\<close>

lemma sha1_S_rotl: "0 < n \<Longrightarrow> n < 32 \<Longrightarrow> sha1_S w n = word_rotl n w"
  using rotl_shift[of n w] by (simp add: sha1_S_def)

lemma sha1_load_fips:
  assumes "length b = 64"
  shows "sha1_load b = map (sha1_fips_W b) [0..<16]"
  using assms by (auto simp: sha1_load_def sha1_fips_W.simps take_4_drop)

lemma sha1_schedule_fips:
  assumes "length b = 64"
  shows "sha1_schedule b = map (sha1_fips_W b) [0..<80]"
  unfolding sha1_schedule_def sha1_load_fips[OF assms]
proof (rule fold_append_rec)
  fix t assume "16 \<le> t" "t < (80::nat)"
  then show "sha1_next t (map (sha1_fips_W b) [0..<t]) = sha1_fips_W b t"
    by (simp add: sha1_next_def sha1_S_rotl sha1_fips_W.simps[of b t] Let_def)
qed simp

lemma sha1_K_fips: "t < 80 \<Longrightarrow> sha1_K ! t = sha1_fips_K t"
proof -
  have "list_all (\<lambda>t. sha1_K ! t = sha1_fips_K t) [0..<80]" by code_simp
  then show "t < 80 \<Longrightarrow> sha1_K ! t = sha1_fips_K t" by (simp add: list_all_iff)
qed

lemma sha1_f_fips:
  assumes "t < 80"
  shows "sha1_f t = sha1_fips_f t"
proof -
  have ch: "(x AND y) OR (NOT x AND z) = (x AND y) XOR (NOT x AND z)" for x y z :: u32
    by (intro bit_word_eqI) (auto simp: bit_simps)
  have maj: "(x AND y) OR (x AND z) OR (y AND z) = (x AND y) XOR (x AND z) XOR (y AND z)" for x y z :: u32
    by (intro bit_word_eqI) (auto simp: bit_simps)
  consider "t div 20 = 0" "t < 20" | "t div 20 = 1" "20 \<le> t" "t < 40" | "t div 20 = 2" "40 \<le> t" "t < 60"
    | "t div 20 = 3" "60 \<le> t"
    using assms by linarith
  then show ?thesis
    by cases (simp_all add: fun_eq_iff sha1_f_def sha1_fips_f_def ch maj)
qed

lemma sha1_steps_fips:
  assumes "length b = 64"
  shows "fold (sha1_step (sha1_schedule b)) [0..<80] r = fold (sha1_fips_step b) [0..<80] r"
proof (rule fold_cong)
  fix t assume "t \<in> set [0..<80]"
  then have t: "t < 80" by simp
  show "sha1_step (sha1_schedule b) t = sha1_fips_step b t"
  proof
    fix r show "sha1_step (sha1_schedule b) t r = sha1_fips_step b t r"
      using t by (cases r)
        (simp add: sha1_schedule_fips[OF assms] sha1_S_rotl sha1_K_fips sha1_f_fips Let_def algebra_simps)
  qed
qed simp_all

definition sha1_compress :: "u32 list \<Rightarrow> bytes \<Rightarrow> u32 list" where
  "sha1_compress H b =
     (case fold (sha1_step (sha1_schedule b)) [0..<80] (H ! 0, H ! 1, H ! 2, H ! 3, H ! 4) of
        (A, B, C, D, E) \<Rightarrow> [H ! 0 + A, H ! 1 + B, H ! 2 + C, H ! 3 + D, H ! 4 + E])"

lemma sha1_compress_fips: "length b = 64 \<Longrightarrow> sha1_compress H b = sha1_fips_compress H b"
  by (simp add: sha1_compress_def sha1_fips_compress_def sha1_steps_fips)

section \<open>The interpretation of the hash interface\<close>

interpretation sha1: md_hash SHA1_BLOCK_SIZE sha1_context_hash sha1_H sha1_compress 8 sha1_iv
  sha1_context_init sha1_context_endstream sha1_length_bytes sha1_context_digest sha1_out
  by unfold_locales
    (auto simp: sha1_sizes sha1_context_hash_def sha1_compress_def sha1_context_init_def sha1_iv_def
      sha1_context_endstream_def sha1_context_hashstream_def sha1_length_bytes_def Let_def
      sha1_context_digest_def sha1_out_def split: prod.split)

section \<open>The digest of a message\<close>

lemma sha1_length_bytes_fips:
  assumes "n < 2 ^ 29"
  shows "sha1_length_bytes (of_nat n) = rev (unpack_le 8 (of_nat (8 * n) :: u64))"
  using assms by (rule be_length_bytes_small[OF _ sha1_length_bytes_def])

lemma sha1_finish_fips:
  assumes "length m < 2 ^ 29"
  shows "sha1_out (md_ref SHA1_BLOCK_SIZE 8 sha1_compress sha1_iv m (sha1_length_bytes (of_nat (length m))))
    = sha1_fips m"
proof -
  have "md_ref SHA1_BLOCK_SIZE 8 sha1_compress sha1_iv m le =
      md_ref SHA1_BLOCK_SIZE 8 sha1_fips_compress sha1_iv m le" for le
    by (rule md_ref_cong) (simp add: sha1_compress_fips sha1_sizes)
  then show ?thesis
    by (simp add: sha1_fips_def sha1_length_bytes_fips[OF assms(1)] sha1_sizes)
qed

lemma sha1_digest_fips:
  assumes "length m < 2 ^ 29" and "length (blk c) = SHA1_BLOCK_SIZE"
  shows "sha1_digest c m = sha1_fips m"
  unfolding sha1_digest_def sha1_context_hashstream_def
  by (simp add: sha1.one_shot[OF assms(2)] sha1_finish_fips[OF assms(1)])

text \<open>
  C23: Beyond that bound the digest is not that of the standard: only the low 32 bits of the bit count
  reach the length field, so lengths that differ by \<open>2 ^ 29\<close> bytes are finished alike.
\<close>

theorem sha1_endstream_truncates:
  "sha1_context_endstream c (l + 2 ^ 29) = sha1_context_endstream c l"
proof -
  have m: "(l + 2 ^ 29) * 8 = l * 8 + push_bit 32 1"
    by (simp add: algebra_simps)
  have "bit (l * 8 + push_bit 32 1) i = bit (l * 8) i" if "i < 32" for i
  proof -
    have "unat (l * 8 + push_bit 32 1) mod 2 ^ 32 = unat (l * 8) mod 2 ^ 32"
      by (simp add: unat_word_ariths mod_mod_cancel)
    then have "take_bit 32 (unat (l * 8 + push_bit 32 1)) = take_bit 32 (unat (l * 8))"
      by (simp only: take_bit_eq_mod)
    then have "bit (unat (l * 8 + push_bit 32 1)) i = bit (unat (l * 8)) i"
      using that by (metis bit_take_bit_iff)
    with that show ?thesis by (simp add: bit_unsigned_iff)
  qed
  then have "(ucast (drop_bit k ((l + 2 ^ 29) * 8)) :: u8) = ucast (drop_bit k (l * 8))" if "k \<le> 24" for k
    using that unfolding m by (intro bit_word_eqI) (simp add: bit_simps)
  from this[of 0] this[of 8] this[of 16] this[of 24] show ?thesis
    by (simp add: sha1_context_endstream_def sha1_length_bytes_def Let_def)
qed

text \<open>
  C15: SHA1 streaming. A message fed to sha1_context_hashstream in any pieces, then finished by
  sha1_context_endstream with its total length, gives the digest of FIPS 180 of the concatenation,
  whatever the uninitialised context held, as long as the message is shorter than \<open>2 ^ 29\<close> bytes.
\<close>

theorem sha1_stream_fips:
  assumes "length (concat ms) < 2 ^ 29" and "length (blk c) = SHA1_BLOCK_SIZE"
  shows "sha1_context_digest (sha1_context_endstream
      (foldl sha1_context_hashstream (sha1_context_init c) ms) (of_nat (length (concat ms)))) =
    sha1_fips (concat ms)"
  unfolding sha1_context_hashstream_def
  by (simp add: sha1.one_shot_chunks[OF assms(2)] sha1_finish_fips[OF assms(1)] del: length_concat)

theorem sha1_stream_fips_witness:
  "sha1_context_digest (sha1_context_endstream
      (foldl sha1_context_hashstream (sha1_context_init sha1_stack) [str ''a'', [], str ''bc''])
      (of_nat (length (concat [str ''a'', [], str ''bc''])))) = sha1_fips (concat [str ''a'', [], str ''bc''])"
  by (rule sha1_stream_fips) (simp_all add: sha1_stack_def str_def)

end
