(* ===== verification/Sha256.thy ===== *)
theory Sha256
  imports Hash_Stream
begin

text \<open>
  sha1/sha256.c: the context \<open>struct SHA256_CONTEXT\<close>, the block function, streaming, padding, digest
  and restore, with the reference of FIPS 180 (rotations, a recursively defined schedule).
\<close>

section \<open>The context\<close>

record sha256_context = hash_buf +
  sha256_H :: "u32 list"

definition SHA256_DIGEST_SIZE :: nat where "SHA256_DIGEST_SIZE = 32"

definition SHA256_BLOCK_SIZE :: nat where "SHA256_BLOCK_SIZE = 64"

lemmas sha256_sizes = SHA256_DIGEST_SIZE_def SHA256_BLOCK_SIZE_def

definition sha256_ROTR :: "u32 \<Rightarrow> nat \<Rightarrow> u32" where
  "sha256_ROTR x n = (drop_bit n x OR push_bit (32 - n) x)"

definition sha256_CH :: "u32 \<Rightarrow> u32 \<Rightarrow> u32 \<Rightarrow> u32" where
  "sha256_CH x y z = ((x AND y) XOR (NOT x AND z))"

definition sha256_MAJ :: "u32 \<Rightarrow> u32 \<Rightarrow> u32 \<Rightarrow> u32" where
  "sha256_MAJ x y z = ((x AND y) XOR (x AND z) XOR (y AND z))"

definition sha256_SUM0 :: "u32 \<Rightarrow> u32" where
  "sha256_SUM0 x = (sha256_ROTR x 2 XOR sha256_ROTR x 13 XOR sha256_ROTR x 22)"

definition sha256_SUM1 :: "u32 \<Rightarrow> u32" where
  "sha256_SUM1 x = (sha256_ROTR x 6 XOR sha256_ROTR x 11 XOR sha256_ROTR x 25)"

definition sha256_TH0 :: "u32 \<Rightarrow> u32" where
  "sha256_TH0 x = (sha256_ROTR x 7 XOR sha256_ROTR x 18 XOR drop_bit 3 x)"

definition sha256_TH1 :: "u32 \<Rightarrow> u32" where
  "sha256_TH1 x = (sha256_ROTR x 17 XOR sha256_ROTR x 19 XOR drop_bit 10 x)"

definition sha256_K :: "u32 list" where
  "sha256_K = [
   0x428A2F98, 0x71374491, 0xB5C0FBCF, 0xE9B5DBA5,
   0x3956C25B, 0x59F111F1, 0x923F82A4, 0xAB1C5ED5,
   0xD807AA98, 0x12835B01, 0x243185BE, 0x550C7DC3,
   0x72BE5D74, 0x80DEB1FE, 0x9BDC06A7, 0xC19BF174,
   0xE49B69C1, 0xEFBE4786, 0x0FC19DC6, 0x240CA1CC,
   0x2DE92C6F, 0x4A7484AA, 0x5CB0A9DC, 0x76F988DA,
   0x983E5152, 0xA831C66D, 0xB00327C8, 0xBF597FC7,
   0xC6E00BF3, 0xD5A79147, 0x06CA6351, 0x14292967,
   0x27B70A85, 0x2E1B2138, 0x4D2C6DFC, 0x53380D13,
   0x650A7354, 0x766A0ABB, 0x81C2C92E, 0x92722C85,
   0xA2BFE8A1, 0xA81A664B, 0xC24B8B70, 0xC76C51A3,
   0xD192E819, 0xD6990624, 0xF40E3585, 0x106AA070,
   0x19A4C116, 0x1E376C08, 0x2748774C, 0x34B0BCB5,
   0x391C0CB3, 0x4ED8AA4A, 0x5B9CCA4F, 0x682E6FF3,
   0x748F82EE, 0x78A5636F, 0x84C87814, 0x8CC70208,
   0x90BEFFFA, 0xA4506CEB, 0xBEF9A3F7, 0xC67178F2]"

definition sha256_context_init :: "sha256_context \<Rightarrow> sha256_context" where
  "sha256_context_init c = c\<lparr>sha256_H := [0x6A09E667, 0xBB67AE85, 0x3C6EF372, 0xA54FF53A,
     0x510E527F, 0x9B05688C, 0x1F83D9AB, 0x5BE0CD19], blk_ptr := 0\<rparr>"

section \<open>The block function\<close>

definition sha256_load :: "bytes \<Rightarrow> u32 list" where
  "sha256_load b = map (\<lambda>t. pack_be [b ! (4 * t), b ! (4 * t + 1), b ! (4 * t + 2), b ! (4 * t + 3)]) [0..<16]"

definition sha256_next :: "nat \<Rightarrow> u32 list \<Rightarrow> u32" where
  "sha256_next t W = sha256_TH1 (W ! (t - 2)) + W ! (t - 7) + sha256_TH0 (W ! (t - 15)) + W ! (t - 16)"

definition sha256_schedule :: "bytes \<Rightarrow> u32 list" where
  "sha256_schedule b = fold (\<lambda>t W. W @ [sha256_next t W]) [16..<64] (sha256_load b)"

type_synonym sha256_regs = "u32 \<times> u32 \<times> u32 \<times> u32 \<times> u32 \<times> u32 \<times> u32 \<times> u32"

fun sha256_step :: "u32 list \<Rightarrow> nat \<Rightarrow> sha256_regs \<Rightarrow> sha256_regs" where
  "sha256_step W t (a, b, c, d, e, f, g, h) =
     (let T1 = h + sha256_SUM1 e + sha256_CH e f g + sha256_K ! t + W ! t;
          T2 = sha256_SUM0 a + sha256_MAJ a b c
      in (T1 + T2, a, b, c, d + T1, e, f, g))"

definition sha256_context_hash :: "sha256_context \<Rightarrow> bytes \<Rightarrow> sha256_context" where
  "sha256_context_hash cc m =
     (let W = sha256_schedule m; H = sha256_H cc
      in case fold (sha256_step W) [0..<64] (H ! 0, H ! 1, H ! 2, H ! 3, H ! 4, H ! 5, H ! 6, H ! 7) of
        (a, b, c, d, e, f, g, h) \<Rightarrow>
          cc\<lparr>sha256_H := [H ! 0 + a, H ! 1 + b, H ! 2 + c, H ! 3 + d, H ! 4 + e, H ! 5 + f, H ! 6 + g, H ! 7 + h]\<rparr>)"

section \<open>Streaming, padding, digest\<close>

definition sha256_context_hashstream :: "sha256_context \<Rightarrow> bytes \<Rightarrow> sha256_context" where
  "sha256_context_hashstream = context_hashstream SHA256_BLOCK_SIZE sha256_context_hash"

text \<open>
  The length bytes, as in SHA-1: the low four bytes of \<open>l * 8\<close> after four zero bytes.
\<close>

definition sha256_length_bytes :: "u64 \<Rightarrow> bytes" where
  "sha256_length_bytes l = (let l = l * 8 in
     [0, 0, 0, 0, ucast (drop_bit 24 l), ucast (drop_bit 16 l), ucast (drop_bit 8 l), ucast l])"

definition sha256_context_endstream :: "sha256_context \<Rightarrow> u64 \<Rightarrow> sha256_context" where
  "sha256_context_endstream c l =
     sha256_context_hashstream (context_pad SHA256_BLOCK_SIZE 8 sha256_context_hash c) (sha256_length_bytes l)"

definition sha256_context_digest :: "sha256_context \<Rightarrow> bytes" where
  "sha256_context_digest c = concat (map (\<lambda>i. rev (unpack_le 4 (sha256_H c ! i))) [0..<8])"

definition sha256_context_restore :: "sha256_context \<Rightarrow> bytes \<Rightarrow> sha256_context" where
  "sha256_context_restore c d = c\<lparr>
     sha256_H := map (\<lambda>i. pack_be [d ! (4 * i), d ! (4 * i + 1), d ! (4 * i + 2), d ! (4 * i + 3)]) [0..<8],
     blk_ptr := 0\<rparr>"

definition sha256_digest :: "sha256_context \<Rightarrow> bytes \<Rightarrow> bytes" where
  "sha256_digest c msg = sha256_context_digest (sha256_context_endstream
     (sha256_context_hashstream (sha256_context_init c) msg) (of_nat (length msg)))"

definition sha256_stack :: sha256_context where
  "sha256_stack = \<lparr>blk = replicate SHA256_BLOCK_SIZE 0, blk_ptr = 0, sha256_H = replicate 8 0\<rparr>"

section \<open>The reference of FIPS 180\<close>

definition sha256_sigma0 :: "u32 \<Rightarrow> u32" where
  "sha256_sigma0 x = (word_rotr 7 x XOR word_rotr 18 x XOR drop_bit 3 x)"

definition sha256_sigma1 :: "u32 \<Rightarrow> u32" where
  "sha256_sigma1 x = (word_rotr 17 x XOR word_rotr 19 x XOR drop_bit 10 x)"

definition sha256_Sigma0 :: "u32 \<Rightarrow> u32" where
  "sha256_Sigma0 x = (word_rotr 2 x XOR word_rotr 13 x XOR word_rotr 22 x)"

definition sha256_Sigma1 :: "u32 \<Rightarrow> u32" where
  "sha256_Sigma1 x = (word_rotr 6 x XOR word_rotr 11 x XOR word_rotr 25 x)"

fun sha256_fips_W :: "bytes \<Rightarrow> nat \<Rightarrow> u32" where
  "sha256_fips_W b t = (if t < 16 then pack_be (take 4 (drop (4 * t) b))
     else sha256_sigma1 (sha256_fips_W b (t - 2)) + sha256_fips_W b (t - 7)
       + sha256_sigma0 (sha256_fips_W b (t - 15)) + sha256_fips_W b (t - 16))"

declare sha256_fips_W.simps [simp del]

definition sha256_Ch :: "u32 \<Rightarrow> u32 \<Rightarrow> u32 \<Rightarrow> u32" where
  "sha256_Ch x y z = ((x AND y) OR (NOT x AND z))"

definition sha256_Maj :: "u32 \<Rightarrow> u32 \<Rightarrow> u32 \<Rightarrow> u32" where
  "sha256_Maj x y z = ((x AND y) OR (x AND z) OR (y AND z))"

fun sha256_fips_step :: "bytes \<Rightarrow> nat \<Rightarrow> sha256_regs \<Rightarrow> sha256_regs" where
  "sha256_fips_step m t (a, b, c, d, e, f, g, h) =
     (let T1 = h + sha256_Sigma1 e + sha256_Ch e f g + sha256_K ! t + sha256_fips_W m t;
          T2 = sha256_Sigma0 a + sha256_Maj a b c
      in (T1 + T2, a, b, c, d + T1, e, f, g))"

definition sha256_fips_compress :: "u32 list \<Rightarrow> bytes \<Rightarrow> u32 list" where
  "sha256_fips_compress H m =
     (case fold (sha256_fips_step m) [0..<64] (H ! 0, H ! 1, H ! 2, H ! 3, H ! 4, H ! 5, H ! 6, H ! 7) of
        (a, b, c, d, e, f, g, h) \<Rightarrow>
          [H ! 0 + a, H ! 1 + b, H ! 2 + c, H ! 3 + d, H ! 4 + e, H ! 5 + f, H ! 6 + g, H ! 7 + h])"

definition sha256_iv :: "u32 list" where
  "sha256_iv = [0x6A09E667, 0xBB67AE85, 0x3C6EF372, 0xA54FF53A,
     0x510E527F, 0x9B05688C, 0x1F83D9AB, 0x5BE0CD19]"

definition sha256_out :: "u32 list \<Rightarrow> bytes" where
  "sha256_out H = concat (map (\<lambda>i. rev (unpack_le 4 (H ! i))) [0..<8])"

definition sha256_fips :: "bytes \<Rightarrow> bytes" where
  "sha256_fips m = sha256_out (md_ref 64 8 sha256_fips_compress sha256_iv m
     (rev (unpack_le 8 (of_nat (8 * length m) :: u64))))"

section \<open>The block function refines FIPS 180\<close>

lemma sha256_ROTR_rotr: "0 < n \<Longrightarrow> n < 32 \<Longrightarrow> sha256_ROTR x n = word_rotr n x"
  using rotr_shift[of n x] by (simp add: sha256_ROTR_def)

lemma sha256_choices: "sha256_CH = sha256_Ch" "sha256_MAJ = sha256_Maj"
proof -
  show "sha256_CH = sha256_Ch" unfolding fun_eq_iff sha256_CH_def sha256_Ch_def
    by (intro allI bit_word_eqI) (auto simp: bit_simps)
  show "sha256_MAJ = sha256_Maj" unfolding fun_eq_iff sha256_MAJ_def sha256_Maj_def
    by (intro allI bit_word_eqI) (auto simp: bit_simps)
qed

lemma sha256_sigmas:
  "sha256_TH0 = sha256_sigma0" "sha256_TH1 = sha256_sigma1" "sha256_SUM0 = sha256_Sigma0" "sha256_SUM1 = sha256_Sigma1"
  by (simp_all add: fun_eq_iff sha256_TH0_def sha256_TH1_def sha256_SUM0_def sha256_SUM1_def sha256_ROTR_rotr
      sha256_sigma0_def sha256_sigma1_def sha256_Sigma0_def sha256_Sigma1_def)

lemma sha256_load_fips:
  assumes "length b = 64"
  shows "sha256_load b = map (sha256_fips_W b) [0..<16]"
  using assms by (auto simp: sha256_load_def sha256_fips_W.simps take_4_drop)

lemma sha256_schedule_fips:
  assumes "length b = 64"
  shows "sha256_schedule b = map (sha256_fips_W b) [0..<64]"
  unfolding sha256_schedule_def sha256_load_fips[OF assms]
proof (rule fold_append_rec)
  fix t assume "16 \<le> t" "t < (64::nat)"
  then show "sha256_next t (map (sha256_fips_W b) [0..<t]) = sha256_fips_W b t"
    by (simp add: sha256_next_def sha256_sigmas sha256_fips_W.simps[of b t])
qed simp

lemma sha256_steps_fips:
  assumes "length b = 64"
  shows "fold (sha256_step (sha256_schedule b)) [0..<64] r = fold (sha256_fips_step b) [0..<64] r"
proof (rule fold_cong)
  fix t assume "t \<in> set [0..<64]"
  then have t: "t < 64" by simp
  show "sha256_step (sha256_schedule b) t = sha256_fips_step b t"
  proof
    fix r show "sha256_step (sha256_schedule b) t r = sha256_fips_step b t r"
      using t by (cases "(b, t, r)" rule: sha256_fips_step.cases) (simp add: sha256_schedule_fips[OF assms] sha256_sigmas sha256_choices Let_def)
  qed
qed simp_all

definition sha256_compress :: "u32 list \<Rightarrow> bytes \<Rightarrow> u32 list" where
  "sha256_compress H m =
     (case fold (sha256_step (sha256_schedule m)) [0..<64] (H ! 0, H ! 1, H ! 2, H ! 3, H ! 4, H ! 5, H ! 6, H ! 7) of
        (a, b, c, d, e, f, g, h) \<Rightarrow>
          [H ! 0 + a, H ! 1 + b, H ! 2 + c, H ! 3 + d, H ! 4 + e, H ! 5 + f, H ! 6 + g, H ! 7 + h])"

lemma sha256_compress_fips: "length b = 64 \<Longrightarrow> sha256_compress H b = sha256_fips_compress H b"
  by (simp add: sha256_compress_def sha256_fips_compress_def sha256_steps_fips)

section \<open>The interpretation of the hash interface\<close>

interpretation sha256: md_hash SHA256_BLOCK_SIZE sha256_context_hash sha256_H sha256_compress 8 sha256_iv
  sha256_context_init sha256_context_endstream sha256_length_bytes sha256_context_digest sha256_out
  by unfold_locales
    (auto simp: sha256_sizes sha256_context_hash_def sha256_compress_def sha256_context_init_def sha256_iv_def
      sha256_context_endstream_def sha256_context_hashstream_def sha256_length_bytes_def Let_def
      sha256_context_digest_def sha256_out_def split: prod.split)

section \<open>The digest of a message\<close>

lemma sha256_length_bytes_fips:
  assumes "n < 2 ^ 29"
  shows "sha256_length_bytes (of_nat n) = rev (unpack_le 8 (of_nat (8 * n) :: u64))"
  using assms by (rule be_length_bytes_small[OF _ sha256_length_bytes_def])

lemma sha256_finish_fips:
  assumes "length m < 2 ^ 29"
  shows "sha256_out (md_ref SHA256_BLOCK_SIZE 8 sha256_compress sha256_iv m (sha256_length_bytes (of_nat (length m))))
    = sha256_fips m"
proof -
  have "md_ref SHA256_BLOCK_SIZE 8 sha256_compress sha256_iv m le =
      md_ref SHA256_BLOCK_SIZE 8 sha256_fips_compress sha256_iv m le" for le
    by (rule md_ref_cong) (simp add: sha256_compress_fips sha256_sizes)
  then show ?thesis
    by (simp add: sha256_fips_def sha256_length_bytes_fips[OF assms(1)] sha256_sizes)
qed

lemma sha256_digest_fips:
  assumes "length m < 2 ^ 29" and "length (blk c) = SHA256_BLOCK_SIZE"
  shows "sha256_digest c m = sha256_fips m"
  unfolding sha256_digest_def sha256_context_hashstream_def
  by (simp add: sha256.one_shot[OF assms(2)] sha256_finish_fips[OF assms(1)])

text \<open>
  Beyond that bound the digest is not that of the standard: only the low 32 bits of the bit count
  reach the length field, so lengths that differ by \<open>2 ^ 29\<close> bytes are finished alike.
\<close>

lemma sha256_endstream_truncates:
  "sha256_context_endstream c (l + 2 ^ 29) = sha256_context_endstream c l"
proof -
  have m: "(l + 2 ^ 29) * 8 = l * 8 + push_bit 32 1"
    by (simp add: algebra_simps)
  have "bit (l * 8 + push_bit 32 1) i = bit (l * 8) i" if "i < 32" for i
  proof -
    have "unat (l * 8 + push_bit 32 1) mod 2 ^ 32 = unat (l * 8) mod 2 ^ 32"
      by (simp add: unat_word_ariths mod_mod_cancel)
    then have "take_bit 32 (unat (l * 8 + push_bit 32 1)) = take_bit 32 (unat (l * 8))"
      by (simp only: take_bit_eq_mod)
    then have "bit (unat (l * 8 + push_bit 32 1)) i = bit (unat (l * 8)) i"
      using that by (metis bit_take_bit_iff)
    with that show ?thesis by (simp add: bit_unsigned_iff)
  qed
  then have "(ucast (drop_bit k ((l + 2 ^ 29) * 8)) :: u8) = ucast (drop_bit k (l * 8))" if "k \<le> 24" for k
    using that unfolding m by (intro bit_word_eqI) (simp add: bit_simps)
  from this[of 0] this[of 8] this[of 16] this[of 24] show ?thesis
    by (simp add: sha256_context_endstream_def sha256_length_bytes_def Let_def)
qed

text \<open>
  C16: SHA256 streaming. A message fed to sha256_context_hashstream in any pieces, then finished by
  sha256_context_endstream with its total length, gives the digest of FIPS 180 of the concatenation,
  whatever the uninitialised context held, as long as the message is shorter than \<open>2 ^ 29\<close> bytes.
\<close>

theorem sha256_stream_fips:
  assumes "length (concat ms) < 2 ^ 29" and "length (blk c) = SHA256_BLOCK_SIZE"
  shows "sha256_context_digest (sha256_context_endstream
      (foldl sha256_context_hashstream (sha256_context_init c) ms) (of_nat (length (concat ms)))) =
    sha256_fips (concat ms)"
  unfolding sha256_context_hashstream_def
  by (simp add: sha256.one_shot_chunks[OF assms(2)] sha256_finish_fips[OF assms(1)] del: length_concat)

theorem sha256_stream_fips_witness:
  "sha256_context_digest (sha256_context_endstream
      (foldl sha256_context_hashstream (sha256_context_init sha256_stack) [str ''a'', [], str ''bc''])
      (of_nat (length (concat [str ''a'', [], str ''bc''])))) = sha256_fips (concat [str ''a'', [], str ''bc''])"
  by (rule sha256_stream_fips) (simp_all add: sha256_stack_def str_def)

end
