(* ===== verification/Hmac.thy ===== *)
theory Hmac
  imports Md5 Sha1 Sha256
begin

text \<open>
  libhmac/hmac.c and the hash descriptors of md5/hmac.c and sha1/hmac.c.  The descriptor
  \<open>struct hmac_hashinfo\<close> is a record of functions over the context type; the two helpers that only
  allocate a context or a digest on the stack have no model, the uninitialised context they pass is
  an argument.  The code hashes the padded key once (\<open>hmac_hashkey\<close>), keeps the two intermediate
  chaining values as digests, and resumes from them for every text (\<open>hmac_hashtext\<close>); the
  interface \<open>hmac_hash\<close> states what a hash function must satisfy for this to be the HMAC of
  RFC 2104, and MD5, SHA-1 and SHA-256 are its interpretations.
\<close>

section \<open>The code\<close>

record 'c hmac_hashinfo =
  hh_B :: nat
  hh_L :: nat
  hh_init :: "'c \<Rightarrow> 'c"
  hh_hash :: "'c \<Rightarrow> bytes \<Rightarrow> 'c"
  hh_endhash :: "'c \<Rightarrow> u64 \<Rightarrow> 'c"
  hh_getdigest :: "'c \<Rightarrow> bytes"
  hh_setdigest :: "'c \<Rightarrow> bytes \<Rightarrow> 'c"

text \<open>
  \<open>hh_hash\<close> takes its length as \<open>unsigned\<close>: of a buffer of \<open>size_t\<close> length only the bytes of the
  length modulo 2 ^ 32 are hashed.
\<close>

definition as_unsigned :: "bytes \<Rightarrow> bytes" where
  "as_unsigned xs = take (length xs mod 2 ^ 32) xs"

text \<open>
  One of the two loops of \<open>dokeycalc\<close>: the key byte or zero, combined with \<open>x\<close>, is collected in
  \<open>buf[64]\<close>, which is hashed whenever it is full.
\<close>

definition keycalc_byte :: "bytes \<Rightarrow> u8 \<Rightarrow> nat \<Rightarrow> u8" where
  "keycalc_byte k x l = (if l < length k then k ! l else 0) XOR x"

definition keycalc_step :: "'c hmac_hashinfo \<Rightarrow> bytes \<Rightarrow> u8 \<Rightarrow> nat \<Rightarrow> 'c \<times> bytes \<Rightarrow> 'c \<times> bytes" where
  "keycalc_step hh k x l = (\<lambda>(context, buf).
     let buf = buf @ [keycalc_byte k x l]
     in if 64 \<le> length buf then (hh_hash hh context buf, []) else (context, buf))"

definition keycalc :: "'c hmac_hashinfo \<Rightarrow> 'c \<Rightarrow> bytes \<Rightarrow> u8 \<Rightarrow> 'c" where
  "keycalc hh context k x =
     (case fold (keycalc_step hh k x) [0..<hh_B hh] (hh_init hh context, []) of (context, buf) \<Rightarrow>
        if buf \<noteq> [] then hh_hash hh context buf else context)"

text \<open>\<open>dokeycalc\<close> fills \<open>kxopad\<close> and \<open>kxipad\<close>; the second loop reuses the context.\<close>

definition dokeycalc :: "'c hmac_hashinfo \<Rightarrow> 'c \<Rightarrow> bytes \<Rightarrow> bytes \<times> bytes" where
  "dokeycalc hh context k =
     (let context1 = keycalc hh context k 0x5C; context2 = keycalc hh context1 k 0x36
      in (hh_getdigest hh context1, hh_getdigest hh context2))"

definition dohashkey :: "'c hmac_hashinfo \<Rightarrow> 'c \<Rightarrow> bytes \<Rightarrow> bytes \<times> bytes" where
  "dohashkey hh context k =
     (let context = hh_endhash hh (hh_hash hh (hh_init hh context) (as_unsigned k)) (of_nat (length k))
      in dokeycalc hh context (take (hh_L hh) (hh_getdigest hh context)))"

definition hmac_hashkey :: "'c hmac_hashinfo \<Rightarrow> 'c \<Rightarrow> bytes \<Rightarrow> bytes \<times> bytes" where
  "hmac_hashkey hh context k =
     (if hh_B hh < length k then dohashkey hh context k else dokeycalc hh context k)"

definition hmac_hashtext :: "'c hmac_hashinfo \<Rightarrow> 'c \<Rightarrow> bytes \<Rightarrow> bytes \<Rightarrow> bytes \<Rightarrow> bytes" where
  "hmac_hashtext hh c t kxopad kxipad =
     (let c1 = hh_endhash hh (hh_hash hh (hh_setdigest hh c kxipad) (as_unsigned t))
                 (of_nat (length t + hh_B hh));
          hash = hh_getdigest hh c1;
          c2 = hh_endhash hh (hh_hash hh (hh_setdigest hh c1 kxopad) (take (hh_L hh) hash))
                 (of_nat (hh_L hh + hh_B hh))
      in hh_getdigest hh c2)"

definition hmac_md5 :: "md5_context hmac_hashinfo" where
  "hmac_md5 = \<lparr>hh_B = MD5_BLOCK_SIZE, hh_L = MD5_DIGEST_SIZE, hh_init = md5_context_init,
     hh_hash = md5_context_hashstream, hh_endhash = md5_context_endstream,
     hh_getdigest = md5_context_digest, hh_setdigest = md5_context_restore\<rparr>"

definition hmac_sha1 :: "sha1_context hmac_hashinfo" where
  "hmac_sha1 = \<lparr>hh_B = SHA1_BLOCK_SIZE, hh_L = SHA1_DIGEST_SIZE, hh_init = sha1_context_init,
     hh_hash = sha1_context_hashstream, hh_endhash = sha1_context_endstream,
     hh_getdigest = sha1_context_digest, hh_setdigest = sha1_context_restore\<rparr>"

definition hmac_sha256 :: "sha256_context hmac_hashinfo" where
  "hmac_sha256 = \<lparr>hh_B = SHA256_BLOCK_SIZE, hh_L = SHA256_DIGEST_SIZE, hh_init = sha256_context_init,
     hh_hash = sha256_context_hashstream, hh_endhash = sha256_context_endstream,
     hh_getdigest = sha256_context_digest, hh_setdigest = sha256_context_restore\<rparr>"

section \<open>The reference of RFC 2104\<close>

definition hmac_rfc_key :: "(bytes \<Rightarrow> bytes) \<Rightarrow> nat \<Rightarrow> bytes \<Rightarrow> bytes" where
  "hmac_rfc_key H B k = (let k' = if B < length k then H k else k in k' @ replicate (B - length k') 0)"

definition hmac_rfc :: "(bytes \<Rightarrow> bytes) \<Rightarrow> nat \<Rightarrow> bytes \<Rightarrow> bytes \<Rightarrow> bytes" where
  "hmac_rfc H B k t = (let K = hmac_rfc_key H B k in
     H (map (\<lambda>b. b XOR 0x5C) K @ H (map (\<lambda>b. b XOR 0x36) K @ t)))"

lemma keycalc_bytes:
  "length k \<le> B \<Longrightarrow>
   map (keycalc_byte k x) [0..<B] = map (\<lambda>b. b XOR x) (k @ replicate (B - length k) 0)"
  by (intro nth_equalityI) (auto simp: keycalc_byte_def nth_append)

lemma md_ref_block:
  assumes "length x = B" and "0 < B"
  shows "md_ref B L cf (cf iv x) m le = md_ref B L cf iv (x @ m) le"
proof -
  have "pad_zeros B L (length (x @ m)) = pad_zeros B L (length m)"
    using assms pad_zeros_mod[of B L "length x + length m"] pad_zeros_mod[of B L "length m"] by simp
  then show ?thesis by (simp add: md_ref_def absorb_block[OF assms])
qed

lemma hmac_rfc_cong:
  assumes H: "\<And>m. length m < N \<Longrightarrow> H m = H' m" and D: "\<And>m. length (H m) = D"
    and N: "length k < N" "B + length t < N" "B + D < N" and "D \<le> B"
  shows "hmac_rfc H B k t = hmac_rfc H' B k t"
proof -
  have K: "hmac_rfc_key H B k = hmac_rfc_key H' B k"
    using H N(1) by (simp add: hmac_rfc_key_def)
  have L: "length (hmac_rfc_key H' B k) = B"
    unfolding K[symmetric] using D \<open>D \<le> B\<close> by (simp add: hmac_rfc_key_def Let_def)
  then have "H (map (\<lambda>b. b XOR 0x36) (hmac_rfc_key H' B k) @ t) =
      H' (map (\<lambda>b. b XOR 0x36) (hmac_rfc_key H' B k) @ t)" (is "H ?i = _")
    using N by (intro H) simp
  moreover have "H (map (\<lambda>b. b XOR 0x5C) (hmac_rfc_key H' B k) @ H ?i) =
      H' (map (\<lambda>b. b XOR 0x5C) (hmac_rfc_key H' B k) @ H ?i)"
    using N L by (intro H) (simp add: D)
  ultimately show ?thesis by (simp add: hmac_rfc_def K Let_def)
qed

section \<open>The interface of a hash function that HMAC resumes\<close>

locale hmac_hash = md_hash B hash cv cf L iv init endstream lenenc digest out
  for B :: nat
    and hash :: "'a hash_buf_scheme \<Rightarrow> bytes \<Rightarrow> 'a hash_buf_scheme"
    and cv :: "'a hash_buf_scheme \<Rightarrow> 'h"
    and cf :: "'h \<Rightarrow> bytes \<Rightarrow> 'h"
    and L :: nat
    and iv :: 'h
    and init :: "'a hash_buf_scheme \<Rightarrow> 'a hash_buf_scheme"
    and endstream :: "'a hash_buf_scheme \<Rightarrow> u64 \<Rightarrow> 'a hash_buf_scheme"
    and lenenc :: "u64 \<Rightarrow> bytes"
    and digest :: "'a hash_buf_scheme \<Rightarrow> bytes"
    and out :: "'h \<Rightarrow> bytes" +
  fixes hh :: "'a hash_buf_scheme hmac_hashinfo"
    and D :: nat
    and good :: "'h \<Rightarrow> bool"
  assumes fields: "hh_B hh = B" "hh_L hh = D" "hh_init hh = init"
      "hh_hash hh = context_hashstream B hash" "hh_endhash hh = endstream" "hh_getdigest hh = digest"
    and good_iv: "good iv"
    and good_cf: "good h \<Longrightarrow> good (cf h b)"
    and length_out: "length (out h) = D"
    and D_le: "D \<le> B"
    and restore: "good h \<Longrightarrow> cv (hh_setdigest hh c (out h)) = h"
    and restore_blk: "blk (hh_setdigest hh c d) = blk c"
    and restore_ptr: "blk_ptr (hh_setdigest hh c d) = 0"
begin

lemma keycalc_fold:
  "\<exists>ms. (case fold (keycalc_step hh k x) ls (foldl (context_hashstream B hash) c acc, buf) of (d, b) \<Rightarrow>
      d = foldl (context_hashstream B hash) c ms \<and>
      concat ms @ b = concat acc @ buf @ map (keycalc_byte k x) ls)"
proof (induction ls arbitrary: acc buf)
  case Nil
  then show ?case by (auto intro: exI[of _ acc])
next
  case (Cons l ls)
  let ?b = "buf @ [keycalc_byte k x l]"
  show ?case
  proof (cases "64 \<le> length ?b")
    case True
    with Cons.IH[of "acc @ [?b]" "[]"] show ?thesis
      by (simp add: keycalc_step_def fields split: prod.splits)
  next
    case False
    with Cons.IH[of acc ?b] show ?thesis
      by (simp add: keycalc_step_def fields split: prod.splits)
  qed
qed

lemma keycalc_abs:
  assumes wf: "length (blk c) = B"
  shows "cv (keycalc hh c k x) = cf iv (map (keycalc_byte k x) [0..<B])"
    and "length (blk (keycalc hh c k x)) = B"
proof -
  let ?S = "context_hashstream B hash"
  let ?p = "map (keycalc_byte k x) [0..<B]"
  obtain ms b where ms: "fold (keycalc_step hh k x) [0..<B] (init c, []) = (foldl ?S (init c) ms, b)"
      "concat ms @ b = ?p"
    using keycalc_fold[where k = k and x = x and ls = "[0..<B]" and c = "init c" and acc = "[]" and buf = "[]"] by (cases "fold (keycalc_step hh k x) [0..<B] (init c, [])") auto
  obtain ms' where ms': "keycalc hh c k x = foldl ?S (init c) ms'" "concat ms' = ?p"
  proof (cases "b = []")
    case True
    with ms that[of ms] show ?thesis by (simp add: keycalc_def fields)
  next
    case False
    with ms that[of "ms @ [b]"] show ?thesis by (simp add: keycalc_def fields)
  qed
  note wfi = wf_init[OF wf]
  have "absorb B cf (cv (init c)) (pending (init c) @ ?p) = (cf iv ?p, [])"
    using B_pos by (simp add: pending_empty ptr_init cv_init absorb_one)
  then have "cv (?S (init c) ?p) = cf iv ?p"
    using stream_abs[OF wfi, of ?p] by simp
  then show "cv (keycalc hh c k x) = cf iv ?p"
    using chunks_abs(2)[OF wfi, of ms'] ms' by simp
  show "length (blk (keycalc hh c k x)) = B"
    using chunks_abs(1)[OF wfi, of ms'] ms' by (simp add: wf_buf_def)
qed

definition H where
  "H m = out (md_ref B L cf iv m (lenenc (of_nat (length m))))"

lemma length_H: "length (H m) = D"
  by (simp add: H_def length_out)

lemma as_unsigned_small: "length m < 2 ^ 32 \<Longrightarrow> as_unsigned m = m"
  by (simp add: as_unsigned_def)

lemma hashkey_abs:
  assumes c: "length (blk c) = B" and k: "length k < 2 ^ 32"
  defines "K \<equiv> hmac_rfc_key H B k"
  shows "hmac_hashkey hh c k =
    (out (cf iv (map (\<lambda>b. b XOR 0x5C) K)), out (cf iv (map (\<lambda>b. b XOR 0x36) K)))"
proof -
  have calc: "dokeycalc hh d k' =
     (out (cf iv (map (\<lambda>b. b XOR 0x5C) (k' @ replicate (B - length k') 0))),
      out (cf iv (map (\<lambda>b. b XOR 0x36) (k' @ replicate (B - length k') 0))))"
    if "length (blk d) = B" "length k' \<le> B" for d k'
    using that keycalc_abs[where c = d and k = k' and x = "0x5C"]
      keycalc_abs[where c = "keycalc hh d k' 0x5C" and k = k' and x = "0x36"]
    by (simp add: dokeycalc_def Let_def fields digest_eq keycalc_bytes)
  show ?thesis
  proof (cases "B < length k")
    case False
    then show ?thesis
      using c by (simp add: hmac_hashkey_def fields calc K_def hmac_rfc_key_def Let_def)
  next
    case True
    let ?d = "endstream (context_hashstream B hash (init c) k) (of_nat (length k))"
    have "length (blk ?d) = B"
      using endstream_abs(3)[OF stream_wf[OF wf_init[OF c]]] by (simp add: wf_buf_def)
    moreover have "digest ?d = H k" by (simp add: one_shot[OF c] H_def)
    ultimately show ?thesis
      using True k D_le calc[of ?d "H k"]
      by (simp add: hmac_hashkey_def dohashkey_def Let_def fields as_unsigned_small length_H
          K_def hmac_rfc_key_def)
  qed
qed

lemma resume:
  assumes c: "length (blk c) = B" and x: "length x = B"
  shows "digest (endstream (context_hashstream B hash (hh_setdigest hh c (out (cf iv x))) m)
           (of_nat (length m + B))) = H (x @ m)"
    and "length (blk (endstream (context_hashstream B hash (hh_setdigest hh c (out (cf iv x))) m) n)) = B"
proof -
  let ?r = "hh_setdigest hh c (out (cf iv x))"
  have r: "wf_buf B ?r" "blk_ptr ?r = 0" "cv ?r = cf iv x"
    using c B_pos by (simp_all add: wf_buf_def restore restore_blk restore_ptr good_iv good_cf)
  show "digest (endstream (context_hashstream B hash ?r m) (of_nat (length m + B))) = H (x @ m)"
    using md_ref_block[OF x B_pos, of L cf iv m]
    by (simp add: digest_eq finish_from[OF r(1,2)] r(3) H_def x add.commute)
  show "length (blk (endstream (context_hashstream B hash ?r m) n)) = B"
    using endstream_abs(3)[OF stream_wf[OF r(1)]] by (simp add: wf_buf_def)
qed

lemma hmac_correct:
  assumes c: "length (blk c) = B" "length (blk c') = B"
    and k: "length k < 2 ^ 32" and t: "length t < 2 ^ 32"
  shows "(case hmac_hashkey hh c k of (kxopad, kxipad) \<Rightarrow> hmac_hashtext hh c' t kxopad kxipad) =
    hmac_rfc H B k t"
proof -
  let ?K = "hmac_rfc_key H B k"
  have K: "length ?K = B" using D_le by (simp add: hmac_rfc_key_def Let_def length_H)
  let ?i = "map (\<lambda>b. b XOR 0x36) ?K"
  let ?o = "map (\<lambda>b. b XOR 0x5C) ?K"
  let ?c1 = "endstream (context_hashstream B hash (hh_setdigest hh c' (out (cf iv ?i))) t)
    (of_nat (length t + B))"
  have "digest ?c1 = H (?i @ t)" "length (blk ?c1) = B"
    using resume[OF c(2), of ?i t] K by simp_all
  then show ?thesis
    using resume(1)[of ?c1 ?o "H (?i @ t)"] K t
    by (simp add: hashkey_abs[OF c(1) k] hmac_hashtext_def Let_def fields as_unsigned_small length_H
        hmac_rfc_def)
qed

lemma hmac_refines:
  assumes "\<And>m. length m < N \<Longrightarrow> H m = H' m" and "N \<le> 2 ^ 32" and "2 * B < N"
    and "length k < N" and "length t + B < N" and "length (blk c) = B" "length (blk c') = B"
  shows "(case hmac_hashkey hh c k of (kxopad, kxipad) \<Rightarrow> hmac_hashtext hh c' t kxopad kxipad) =
    hmac_rfc H' B k t"
proof -
  have "hmac_rfc H B k t = hmac_rfc H' B k t"
    using assms D_le length_H by (intro hmac_rfc_cong[of N H H' D]) auto
  then show ?thesis using assms by (simp add: hmac_correct)
qed

end

section \<open>The descriptors are interpretations\<close>

lemma length_5_list: "length h = 5 \<Longrightarrow> [h ! 0, h ! 1, h ! 2, h ! 3, h ! 4] = h"
  by (intro nth_equalityI) (auto simp: nth_Cons numeral_eq_Suc less_Suc_eq split: nat.splits)

text \<open>Reading back the words that the digest functions write.\<close>

lemma pack_be_4: "pack_be [ucast (drop_bit 24 w), ucast (drop_bit 16 w), ucast (drop_bit 8 w), ucast w]
    = (w :: u32)"
  using pack_unpack[of 4 w] by (simp add: unpack_le_numeral)

lemma nth_concat_4:
  assumes "i < n" and "j < 4"
  shows "concat (map (\<lambda>i. rev (unpack_le 4 (f i))) [0..<n]) ! (4 * i + j) = rev (unpack_le 4 (f i)) ! j"
  using assms
proof (induction n)
  case 0
  then show ?case by simp
next
  case (Suc n)
  have "length (concat (map (\<lambda>i. rev (unpack_le 4 (f i))) [0..<n])) = 4 * n"
    by (simp add: length_concat sum_list_triv comp_def)
  with Suc show ?case by (cases "i = n") (auto simp: nth_append)
qed

lemma pack_concat_4:
  fixes f :: "nat \<Rightarrow> u32"
  assumes "i < n"
  defines "d \<equiv> concat (map (\<lambda>i. rev (unpack_le 4 (f i))) [0..<n])"
  shows "pack_be [d ! (4 * i), d ! (4 * i + 1), d ! (4 * i + 2), d ! (4 * i + 3)] = (f i :: u32)"
  using nth_concat_4[OF assms(1), of 0 f] nth_concat_4[OF assms(1), of 1 f]
    nth_concat_4[OF assms(1), of 2 f] nth_concat_4[OF assms(1), of 3 f]
  by (simp add: d_def unpack_le_numeral pack_be_4)

interpretation hmac_md5: hmac_hash MD5_BLOCK_SIZE md5_context_hash md5_cv md5_compress 8 md5_iv
  md5_context_init md5_context_endstream md5_length_bytes md5_context_digest md5_out
  hmac_md5 MD5_DIGEST_SIZE "\<lambda>_. True"
proof unfold_locales
  fix h :: md5_regs and c
  show "md5_cv (hh_setdigest hmac_md5 c (md5_out h)) = h"
    by (cases h) (simp add: hmac_md5_def md5_context_restore_def md5_cv_def unpack_le_numeral pack_be_4)
  show "length (md5_out h) = MD5_DIGEST_SIZE"
    by (cases h) (simp add: md5_sizes)
qed (simp_all add: hmac_md5_def md5_context_hashstream_def md5_sizes md5_context_restore_def)

interpretation hmac_sha1: hmac_hash SHA1_BLOCK_SIZE sha1_context_hash sha1_H sha1_compress 8 sha1_iv
  sha1_context_init sha1_context_endstream sha1_length_bytes sha1_context_digest sha1_out
  hmac_sha1 SHA1_DIGEST_SIZE "\<lambda>h. length h = 5"
proof unfold_locales
  fix h :: "u32 list" and c
  assume h: "length h = 5"
  have "sha1_H (sha1_context_restore c (sha1_out h)) = map ((!) h) [0..<5]"
    by (simp add: sha1_context_restore_def sha1_out_def pack_concat_4[simplified] cong: map_cong)
  then show "sha1_H (hh_setdigest hmac_sha1 c (sha1_out h)) = h"
    using h by (simp add: hmac_sha1_def list_eq_map_nth)
qed (simp_all add: hmac_sha1_def sha1_context_hashstream_def sha1_sizes sha1_context_restore_def
      sha1_iv_def sha1_compress_def sha1_out_def length_concat comp_def sum_list_triv split: prod.split)

interpretation hmac_sha256: hmac_hash SHA256_BLOCK_SIZE sha256_context_hash sha256_H sha256_compress 8
  sha256_iv sha256_context_init sha256_context_endstream sha256_length_bytes sha256_context_digest
  sha256_out hmac_sha256 SHA256_DIGEST_SIZE "\<lambda>h. length h = 8"
proof unfold_locales
  fix h :: "u32 list" and c
  assume h: "length h = 8"
  have "sha256_H (sha256_context_restore c (sha256_out h)) = map ((!) h) [0..<8]"
    by (simp add: sha256_context_restore_def sha256_out_def pack_concat_4[simplified] cong: map_cong)
  then show "sha256_H (hh_setdigest hmac_sha256 c (sha256_out h)) = h"
    using h by (simp add: hmac_sha256_def list_eq_map_nth)
qed (simp_all add: hmac_sha256_def sha256_context_hashstream_def sha256_sizes sha256_context_restore_def
      sha256_iv_def sha256_compress_def sha256_out_def length_concat comp_def sum_list_triv split: prod.split)

section \<open>HMAC of the three hash functions\<close>

text \<open>
  C18: HMAC-MD5. The outer and inner intermediate digests of hmac_hashkey, resumed by hmac_hashtext,
  give the HMAC of RFC 2104 over the MD5 of RFC 1321, for keys shorter and longer than a block.
\<close>

theorem hmac_md5_rfc2104:
  assumes "length k < 2 ^ 32" and "length t + MD5_BLOCK_SIZE < 2 ^ 32"
    and "length (blk c) = MD5_BLOCK_SIZE" and "length (blk c') = MD5_BLOCK_SIZE"
  shows "(case hmac_hashkey hmac_md5 c k of (kxopad, kxipad) \<Rightarrow>
      hmac_hashtext hmac_md5 c' t kxopad kxipad) = hmac_rfc md5_rfc MD5_BLOCK_SIZE k t"
proof (rule hmac_md5.hmac_refines[OF _ order_refl])
  fix m :: bytes assume "length m < 2 ^ 32"
  then show "hmac_md5.H m = md5_rfc m" by (simp add: hmac_md5.H_def md5_finish_rfc)
qed (use assms in \<open>simp_all add: md5_sizes\<close>)

theorem hmac_md5_rfc2104_witness:
  "(case hmac_hashkey hmac_md5 md5_stack (str ''key'') of (kxopad, kxipad) \<Rightarrow>
      hmac_hashtext hmac_md5 md5_stack (str ''msg'') kxopad kxipad) =
   hmac_rfc md5_rfc MD5_BLOCK_SIZE (str ''key'') (str ''msg'')"
  by (rule hmac_md5_rfc2104) (simp_all add: md5_stack_def md5_sizes)

text \<open>
  HMAC-SHA-1. As for MD5, over the reference of FIPS 180, for keys and texts within
  the SHA-1 length bound of the implementation.
\<close>

theorem hmac_sha1_rfc2104:
  assumes "length k < 2 ^ 29" and "length t + SHA1_BLOCK_SIZE < 2 ^ 29"
    and "length (blk c) = SHA1_BLOCK_SIZE" and "length (blk c') = SHA1_BLOCK_SIZE"
  shows "(case hmac_hashkey hmac_sha1 c k of (kxopad, kxipad) \<Rightarrow>
      hmac_hashtext hmac_sha1 c' t kxopad kxipad) = hmac_rfc sha1_fips SHA1_BLOCK_SIZE k t"
proof (rule hmac_sha1.hmac_refines[where N = "2 ^ 29"])
  fix m :: bytes assume "length m < 2 ^ 29"
  then show "hmac_sha1.H m = sha1_fips m" by (simp add: hmac_sha1.H_def sha1_finish_fips)
qed (use assms in \<open>simp_all add: sha1_sizes\<close>)

theorem hmac_sha1_rfc2104_witness:
  "(case hmac_hashkey hmac_sha1 sha1_stack (str ''key'') of (kxopad, kxipad) \<Rightarrow>
      hmac_hashtext hmac_sha1 sha1_stack (str ''msg'') kxopad kxipad) =
   hmac_rfc sha1_fips SHA1_BLOCK_SIZE (str ''key'') (str ''msg'')"
  by (rule hmac_sha1_rfc2104) (simp_all add: sha1_stack_def sha1_sizes)

text \<open>
  HMAC-SHA-256. As for MD5, over the reference of FIPS 180, for keys and texts within
  the SHA-256 length bound of the implementation.
\<close>

theorem hmac_sha256_rfc2104:
  assumes "length k < 2 ^ 29" and "length t + SHA256_BLOCK_SIZE < 2 ^ 29"
    and "length (blk c) = SHA256_BLOCK_SIZE" and "length (blk c') = SHA256_BLOCK_SIZE"
  shows "(case hmac_hashkey hmac_sha256 c k of (kxopad, kxipad) \<Rightarrow>
      hmac_hashtext hmac_sha256 c' t kxopad kxipad) = hmac_rfc sha256_fips SHA256_BLOCK_SIZE k t"
proof (rule hmac_sha256.hmac_refines[where N = "2 ^ 29"])
  fix m :: bytes assume "length m < 2 ^ 29"
  then show "hmac_sha256.H m = sha256_fips m" by (simp add: hmac_sha256.H_def sha256_finish_fips)
qed (use assms in \<open>simp_all add: sha256_sizes\<close>)

theorem hmac_sha256_rfc2104_witness:
  "(case hmac_hashkey hmac_sha256 sha256_stack (str ''key'') of (kxopad, kxipad) \<Rightarrow>
      hmac_hashtext hmac_sha256 sha256_stack (str ''msg'') kxopad kxipad) =
   hmac_rfc sha256_fips SHA256_BLOCK_SIZE (str ''key'') (str ''msg'')"
  by (rule hmac_sha256_rfc2104) (simp_all add: sha256_stack_def sha256_sizes)

end
