(* ===== verification/Base64.thy ===== *)
theory Base64
  imports Prelude
begin

text \<open>
  The base64 encoding loop, which the sources repeat textually in rfc822/encode.c
  (\<open>base64_flush\<close>), md5/md5_hash.c, sha1/sha1_hash.c, sha1/sha256_hash.c and sha1/sha512_hash.c, and
  the stream decoder of rfc2045/base64.c.  The decoder works in place on a 256 byte buffer and hands
  every decoded run to a callback; the interface \<open>sink\<close> states what a callback that collects its
  input promises, and \<open>save_str\<close>, the callback of the source, is its interpretation.  The
  references are \<open>rfc4648\<close>, the encoding by 24-bit groups, and \<open>dec_quads\<close>, the decoding of a whole
  sequence of codes.
\<close>

section \<open>The encoding loop\<close>

definition base64tab :: bytes where
  "base64tab = str ''ABCDEFGHIJKLMNOPQRSTUVWXYZabcdefghijklmnopqrstuvwxyz0123456789+/''"

text \<open>The four characters of the group that starts at \<open>i\<close>; the C variables are of type int.\<close>

definition base64_group :: "bytes \<Rightarrow> nat \<Rightarrow> bytes" where
  "base64_group buf i =
     (let a = ucast (buf ! i) :: u32;
          b = if i + 1 < length buf then ucast (buf ! (i + 1)) else 0;
          c = if i + 2 < length buf then ucast (buf ! (i + 2)) else 0;
          d = base64tab ! unat (drop_bit 2 a);
          e = base64tab ! unat (push_bit 4 (a AND 3) OR drop_bit 4 b);
          f = base64tab ! unat (push_bit 2 (b AND 15) OR drop_bit 6 c);
          g = base64tab ! unat (c AND 63);
          f = if length buf \<le> i + 1 then ch CHR ''='' else f;
          g = if length buf \<le> i + 2 then ch CHR ''='' else g
      in [d, e, f, g])"

function base64_loop :: "bytes \<Rightarrow> nat \<Rightarrow> bytes" where
  "base64_loop buf i = (if i < length buf then base64_group buf i @ base64_loop buf (i + 3) else [])"
  by pat_completeness auto
termination by (relation "measure (\<lambda>(buf, i). length buf - i)") auto

declare base64_loop.simps [simp del]

section \<open>The decoder of rfc2045/base64.c\<close>

text \<open>\<open>strchr\<close> on a C string: the terminating zero is found as well, at the end.\<close>

fun strchr :: "bytes \<Rightarrow> u8 \<Rightarrow> nat option" where
  "strchr [] c = (if c = 0 then Some 0 else None)"
| "strchr (x # xs) c = (if x = c then Some 0 else map_option Suc (strchr xs c))"

text \<open>A callback takes the bytes and its argument, and returns its code and the new argument.\<close>

type_synonym 's callback = "bytes \<Rightarrow> 's \<Rightarrow> int \<times> 's"

record 's base64decode =
  workbuf :: bytes
  workbuflen :: nat
  decode_arg :: 's

definition WORKBUF_SIZE :: nat where "WORKBUF_SIZE = 256"

definition base64_decode_init :: "'s base64decode \<Rightarrow> 's \<Rightarrow> 's base64decode" where
  "base64_decode_init b a = b\<lparr>workbuflen := 0, decode_arg := a\<rparr>"

text \<open>
  One turn of the loop of \<open>doflush\<close>: the codes at \<open>j\<close> to \<open>j + 3\<close> are combined, and the result is
  written back at \<open>k\<close> into the same array.  The codes are 0 to 64 or 100, so reading a char as int
  keeps the value.
\<close>

definition doflush_group :: "nat \<Rightarrow> nat \<times> bytes \<Rightarrow> nat \<times> bytes" where
  "doflush_group j = (\<lambda>(k, buf).
     let w = ucast (buf ! j) :: u32;
         x = ucast (buf ! (j + 1)) :: u32;
         y = ucast (buf ! (j + 2)) :: u32;
         z = ucast (buf ! (j + 3)) :: u32;
         a = ucast (push_bit 2 w OR drop_bit 4 x);
         b = ucast (push_bit 4 x OR drop_bit 2 y);
         c = ucast (push_bit 6 y OR z);
         (k, buf) = (k + 1, buf[k := a]);
         (k, buf) = (if y \<noteq> 100 then (k + 1, buf[k := b]) else (k, buf))
     in if z \<noteq> 100 then (k + 1, buf[k := c]) else (k, buf))"

function doflush_loop :: "nat \<Rightarrow> nat \<Rightarrow> nat \<times> bytes \<Rightarrow> nat \<times> bytes" where
  "doflush_loop i j s = (if j < i then doflush_loop i (j + 4) (doflush_group j s) else s)"
  by pat_completeness auto
termination by (relation "measure (\<lambda>(i, j, s). i - j)") auto

declare doflush_loop.simps [simp del]

text \<open>The loop that moves the codes left over to the start of the buffer.\<close>

function move_loop :: "nat \<Rightarrow> nat \<Rightarrow> nat \<Rightarrow> bytes \<Rightarrow> nat \<times> bytes" where
  "move_loop n i k buf = (if i < n then move_loop n (i + 1) (k + 1) (buf[k := buf ! i]) else (k, buf))"
  by pat_completeness auto
termination by (relation "measure (\<lambda>(n, i, k, buf). n - i)") auto

declare move_loop.simps [simp del]

definition doflush :: "'s callback \<Rightarrow> 's base64decode \<Rightarrow> int \<times> 's base64decode" where
  "doflush f p =
     (let i = workbuflen p div 4 * 4;
          (k, buf) = doflush_loop i 0 (0, workbuf p);
          (rc, arg) = f (take k buf) (decode_arg p);
          (k, buf) = move_loop (workbuflen p) i 0 buf
      in (rc, p\<lparr>workbuf := buf, workbuflen := k, decode_arg := arg\<rparr>))"

definition base64_code :: "u8 \<Rightarrow> u8 option" where
  "base64_code c = (if c = ch CHR ''='' then Some 100 else map_option of_nat (strchr base64tab c))"

fun base64_decode :: "'s callback \<Rightarrow> 's base64decode \<Rightarrow> bytes \<Rightarrow> int \<times> 's base64decode" where
  "base64_decode f b [] = (0, b)"
| "base64_decode f b (p # ps) =
     (let (rc, b) = if WORKBUF_SIZE \<le> workbuflen b then doflush f b else (0, b) in
      if rc \<noteq> 0 then (rc, b)
      else case base64_code p of
        None \<Rightarrow> base64_decode f b ps
      | Some c \<Rightarrow> base64_decode f
          (b\<lparr>workbuf := (workbuf b)[workbuflen b := c], workbuflen := workbuflen b + 1\<rparr>) ps)"

definition base64_decode_end :: "'s callback \<Rightarrow> 's base64decode \<Rightarrow> int \<times> 's base64decode" where
  "base64_decode_end f b = doflush f b"

text \<open>\<open>save_str\<close> copies to where the pointer stands and advances it: the text so far is the state.\<close>

definition save_str :: "bytes callback" where
  "save_str p s = (0, s @ p)"

definition base64_stack :: "'s \<Rightarrow> 's base64decode" where
  "base64_stack s = \<lparr>workbuf = replicate WORKBUF_SIZE 0, workbuflen = 0, decode_arg = s\<rparr>"

text \<open>
  The result of \<open>base64_decode_str\<close>: the decoder state on the stack is uninitialised, and the
  return codes are ignored.  (The allocation by \<open>strdup\<close> is assumed to succeed.)
\<close>

definition base64_decode_str :: "bytes base64decode \<Rightarrow> bytes \<Rightarrow> bytes" where
  "base64_decode_str b s =
     decode_arg (snd (base64_decode_end save_str (snd (base64_decode save_str (base64_decode_init b []) s))))"

section \<open>The reference encoding of RFC 4648\<close>

text \<open>
  Groups of 24 bits, written as four digits of base 64; one or two missing bytes are padded.
\<close>

definition digit64 :: "nat \<Rightarrow> u8" where
  "digit64 n = base64tab ! (n mod 64)"

fun rfc4648 :: "bytes \<Rightarrow> bytes" where
  "rfc4648 (a # b # c # xs) =
     (let n = unat a * 65536 + unat b * 256 + unat c
      in [digit64 (n div 262144), digit64 (n div 4096), digit64 (n div 64), digit64 n] @ rfc4648 xs)"
| "rfc4648 [a, b] =
     (let n = unat a * 65536 + unat b * 256
      in [digit64 (n div 262144), digit64 (n div 4096), digit64 (n div 64), ch CHR ''=''])"
| "rfc4648 [a] =
     (let n = unat a * 65536
      in [digit64 (n div 262144), digit64 (n div 4096), ch CHR ''='', ch CHR ''=''])"
| "rfc4648 [] = []"

section \<open>The encoding loop refines RFC 4648\<close>

lemma base64_indexes:
  fixes a b :: u8
  shows "unat (drop_bit 2 (ucast a :: u32)) = unat a div 4"
    and "unat (push_bit 4 (ucast a AND 3) OR drop_bit 4 (ucast b :: u32)) = unat a mod 4 * 16 + unat b div 16"
    and "unat (push_bit 2 (ucast a AND 15) OR drop_bit 6 (ucast b :: u32)) = unat a mod 16 * 4 + unat b div 64"
    and "unat (ucast a AND (63::u32)) = unat a mod 64"
proof -
  have lt: "unat a < 256" "unat b < 256" using unsigned_less[of a] unsigned_less[of b] by simp_all
  have m: "unat (ucast a AND (3::u32)) = unat a mod 4" "unat (ucast a AND (15::u32)) = unat a mod 16"
    "unat (ucast a AND (63::u32)) = unat a mod 64"
    by (simp_all add: unat_and_low[of 2] unat_and_low[of 4] unat_and_low[of 6] mask_eq_exp_minus_1 unat_ucast_ge)
  show "unat (drop_bit 2 (ucast a :: u32)) = unat a div 4"
    by (simp add: unat_drop_div unat_ucast_ge)
  show "unat (push_bit 4 (ucast a AND 3) OR drop_bit 4 (ucast b :: u32)) = unat a mod 4 * 16 + unat b div 16"
    using lt by (subst unat_push_or) (simp_all add: m unat_drop_div unat_ucast_ge)
  show "unat (push_bit 2 (ucast a AND 15) OR drop_bit 6 (ucast b :: u32)) = unat a mod 16 * 4 + unat b div 64"
    using lt by (subst unat_push_or) (simp_all add: m unat_drop_div unat_ucast_ge)
  show "unat (ucast a AND (63::u32)) = unat a mod 64" by (rule m)
qed

lemma base64_combine:
  fixes w x y z :: u8
  assumes "unat w < 64" "unat x < 64" "unat y < 64" "unat z < 64"
  shows "unat (ucast (push_bit 2 (ucast w) OR drop_bit 4 (ucast x :: u32)) :: u8) = unat w * 4 + unat x div 16"
    and "unat (ucast (push_bit 4 (ucast x) OR drop_bit 2 (ucast y :: u32)) :: u8) = (unat x * 16 + unat y div 4) mod 256"
    and "unat (ucast (push_bit 6 (ucast y) OR (ucast z :: u32)) :: u8) = (unat y * 64 + unat z) mod 256"
  using assms by (simp_all add: unat_ucast_mod unat_push_or unat_drop_div unat_ucast_ge)
lemma group_digits:
  fixes A B C :: nat
  assumes "B < 256" "C < 256"
  defines "n \<equiv> A * 65536 + B * 256 + C"
  shows "n div 262144 = A div 4" and "n div 4096 mod 64 = A mod 4 * 16 + B div 16"
    and "n div 64 mod 64 = B mod 16 * 4 + C div 64" and "n mod 64 = C mod 64"
proof -
  have d1: "n div 4096 = A * 16 + B div 16" using assms by (simp add: n_def)
  have d2: "n div 64 = A * 1024 + B * 4 + C div 64" by (simp add: n_def)
  have "n div 262144 = n div 4096 div 64" by (simp add: div_mult2_eq[of n 4096 64, simplified])
  then show "n div 262144 = A div 4" using assms(1) by (simp add: d1)
  have m: "q < 64 \<Longrightarrow> x = 64 * p + q \<Longrightarrow> x mod 64 = q" for x p q :: nat by simp
  show "n div 4096 mod 64 = A mod 4 * 16 + B div 16"
  proof (rule m)
    show "A mod 4 * 16 + B div 16 < 64" using assms(1) mod_less_divisor[of 4 A] by linarith
    show "n div 4096 = 64 * (A div 4) + (A mod 4 * 16 + B div 16)"
      using div_mult_mod_eq[of A 4] d1 by linarith
  qed
  show "n div 64 mod 64 = B mod 16 * 4 + C div 64"
  proof (rule m)
    show "B mod 16 * 4 + C div 64 < 64" using assms(2) mod_less_divisor[of 16 B] by linarith
    have "B = q * 16 + r \<Longrightarrow> A * 1024 + B * 4 + c = 64 * (A * 16 + q) + (r * 4 + c)" for q r c
      by simp
    from this[OF div_mult_mod_eq[symmetric]] d2
    show "n div 64 = 64 * (A * 16 + B div 16) + (B mod 16 * 4 + C div 64)" by (rule trans[rotated])
  qed
  have "n = 64 * (A * 1024 + B * 4 + C div 64) + C mod 64"
    using div_mult_mod_eq[of C 64] by (simp add: n_def)
  then show "n mod 64 = C mod 64" by (rule m[rotated]) simp
qed

text \<open>A missing byte counts as zero.\<close>

definition byte_at :: "bytes \<Rightarrow> nat \<Rightarrow> u8" where
  "byte_at buf i = (if i < length buf then buf ! i else 0)"

lemma base64_group_digits:
  assumes "i < length buf"
  defines "n \<equiv> unat (byte_at buf i) * 65536 + unat (byte_at buf (i + 1)) * 256 + unat (byte_at buf (i + 2))"
  shows "base64_group buf i = [digit64 (n div 262144), digit64 (n div 4096),
    if length buf \<le> i + 1 then ch CHR ''='' else digit64 (n div 64),
    if length buf \<le> i + 2 then ch CHR ''='' else digit64 n]"
proof -
  have lt: "unat (x :: u8) < 256" for x using unsigned_less[of x] by simp
  have u: "(if j < length buf then ucast (buf ! j) else 0) = (ucast (byte_at buf j) :: u32)" for j
    by (simp add: byte_at_def)
  have a: "ucast (buf ! i) = (ucast (byte_at buf i) :: u32)" using assms(1) by (simp add: byte_at_def)
  have "unat (byte_at buf i) div 4 mod 64 = unat (byte_at buf i) div 4"
    using lt[of "byte_at buf i"] by simp
  then show ?thesis
    unfolding base64_group_def Let_def u a base64_indexes digit64_def n_def
    by (simp only: group_digits[OF lt lt])
qed

lemma base64_group_rfc4648:
  assumes "i < length buf"
  shows "base64_group buf i @ rfc4648 (drop (i + 3) buf) = rfc4648 (drop i buf)"
proof -
  consider (one) "length buf = i + 1" | (two) "length buf = i + 2" | (more) "i + 2 < length buf"
    using assms by linarith
  then show ?thesis
  proof cases
    case one
    then have "drop i buf = [buf ! i]" by (simp add: Cons_nth_drop_Suc[symmetric])
    with one show ?thesis by (simp add: base64_group_digits byte_at_def Let_def)
  next
    case two
    then have "drop i buf = [buf ! i, buf ! (i + 1)]" by (simp add: Cons_nth_drop_Suc[symmetric])
    with two show ?thesis by (simp add: base64_group_digits byte_at_def Let_def)
  next
    case more
    then have "drop i buf = buf ! i # buf ! (i + 1) # buf ! (i + 2) # drop (i + 3) buf"
      by (simp add: Cons_nth_drop_Suc numeral_3_eq_3 numeral_2_eq_2)
    with more show ?thesis by (simp add: base64_group_digits byte_at_def Let_def)
  qed
qed

lemma base64_loop_rfc4648: "base64_loop buf i = rfc4648 (drop i buf)"
proof (induction buf i rule: base64_loop.induct)
  case (1 buf i)
  then show ?case
    by (cases "i < length buf")
      (simp_all add: base64_loop.simps[of buf i] base64_group_rfc4648)
qed

lemma length_rfc4648 [len_simps]: "length (rfc4648 xs) = (length xs + 2) div 3 * 4"
proof (induction xs rule: rfc4648.induct)
  case (1 a b c xs)
  have "(length (a # b # c # xs) + 2) div 3 = Suc ((length xs + 2) div 3)" by simp
  with 1 show ?case by (simp only: rfc4648.simps Let_def length_append list.size) simp
qed (simp_all add: Let_def)

section \<open>The decoder: reference\<close>

fun dec_quads :: "u8 list \<Rightarrow> bytes" where
  "dec_quads (w # x # y # z # cs) =
     [ucast (push_bit 2 (ucast w) OR drop_bit 4 (ucast x :: u32))] @
     (if y \<noteq> 100 then [ucast (push_bit 4 (ucast x) OR drop_bit 2 (ucast y :: u32))] else []) @
     (if z \<noteq> 100 then [ucast (push_bit 6 (ucast y) OR (ucast z :: u32))] else []) @ dec_quads cs"
| "dec_quads cs = []"

definition codes :: "bytes \<Rightarrow> u8 list" where
  "codes ps = concat (map (\<lambda>p. case base64_code p of None \<Rightarrow> [] | Some c \<Rightarrow> [c]) ps)"

lemma codes_simps [simp]:
  "codes [] = []"
  "codes (p # ps) = (case base64_code p of None \<Rightarrow> [] | Some c \<Rightarrow> [c]) @ codes ps"
  "codes (ps @ qs) = codes ps @ codes qs"
  by (simp_all add: codes_def)

lemma dec_quads_append: "4 dvd length cs \<Longrightarrow> dec_quads (cs @ ds) = dec_quads cs @ dec_quads ds"
proof (induction cs rule: dec_quads.induct)
  case (1 w x y z cs)
  then have "4 dvd length cs" by simp presburger
  with 1 show ?case by simp
qed (auto dest!: dvd_imp_le)

lemma dec_quads_short: "length cs < 4 \<Longrightarrow> dec_quads cs = []"
  by (induction cs rule: dec_quads.induct) auto

lemma dec_quads_take: "dec_quads (take (length cs div 4 * 4) cs) = dec_quads cs"
proof -
  have "4 dvd length (take (length cs div 4 * 4) cs)" by simp
  then have "dec_quads (take (length cs div 4 * 4) cs @ drop (length cs div 4 * 4) cs) =
      dec_quads (take (length cs div 4 * 4) cs) @ dec_quads (drop (length cs div 4 * 4) cs)"
    by (rule dec_quads_append)
  moreover have "length (drop (length cs div 4 * 4) cs) < 4"
    by (simp add: minus_div_mult_eq_mod)
  ultimately show ?thesis by (simp add: dec_quads_short)
qed

section \<open>The in-place loops compute the reference\<close>

lemma take_update: "k < length xs \<Longrightarrow> take (Suc k) (xs[k := a]) = take k xs @ [a]"
  by (simp add: take_Suc_conv_app_nth)

lemma doflush_group_quads:
  assumes "k \<le> j" "j + 4 \<le> length buf"
  shows "case doflush_group j (k, buf) of (k', buf') \<Rightarrow>
     k' \<le> j + 4 \<and> length buf' = length buf \<and>
     take k' buf' = take k buf @ dec_quads (take 4 (drop j buf)) \<and>
     drop (j + 4) buf' = drop (j + 4) buf"
proof -
  have q: "take 4 (drop j buf) = [buf ! j, buf ! (j + 1), buf ! (j + 2), buf ! (j + 3)]"
    using assms(2) by (intro nth_equalityI) (auto simp: nth_Cons numeral_eq_Suc less_Suc_eq split: nat.splits)
  have u: "(ucast x = (100 :: u32)) = (x = (100 :: u8))" for x :: u8
  proof
    assume "ucast x = (100 :: u32)"
    then have "unat (ucast x :: u32) = 100" by simp
    then show "x = 100" by (simp add: unat_ucast_ge word_unat_eq_iff)
  qed simp
  show ?thesis
    using assms by (simp add: doflush_group_def Let_def q u take_update del: take_Suc)
qed

lemma doflush_loop_quads:
  "k \<le> j \<Longrightarrow> j \<le> i \<Longrightarrow> i \<le> length buf \<Longrightarrow> 4 dvd i - j \<Longrightarrow>
   (case doflush_loop i j (k, buf) of (k', buf') \<Rightarrow>
     k' \<le> i \<and> length buf' = length buf \<and>
     take k' buf' = take k buf @ dec_quads (take (i - j) (drop j buf)) \<and> drop i buf' = drop i buf)"
proof (induction i j "(k, buf)" arbitrary: k buf rule: doflush_loop.induct)
  case (1 i j k buf)
  show ?case
  proof (cases "j < i")
    case False
    with "1.prems" have "doflush_loop i j (k, buf) = (k, buf)" "i = j"
      by (simp_all add: doflush_loop.simps)
    with "1.prems" show ?thesis by simp
  next
    case True
    with "1.prems"(4) have j4: "j + 4 \<le> i" "4 dvd i - (j + 4)" by presburger+
    obtain k' buf' where g: "doflush_group j (k, buf) = (k', buf')" by fastforce
    have g': "k' \<le> j + 4" "length buf' = length buf"
      "take k' buf' = take k buf @ dec_quads (take 4 (drop j buf))" "drop (j + 4) buf' = drop (j + 4) buf"
      using doflush_group_quads[of k j buf] "1.prems" j4 g by auto
    have "take (i - j) (drop j buf) = take 4 (drop j buf) @ take (i - (j + 4)) (drop (j + 4) buf)"
      using j4 take_add[of 4 "i - (j + 4)" "drop j buf"] by (simp add: add.commute)
    moreover have "4 dvd length (take 4 (drop j buf))" using j4 "1.prems" by simp
    moreover have "drop i buf = drop (i - (j + 4)) (drop (j + 4) buf)"
      "drop i buf' = drop (i - (j + 4)) (drop (j + 4) buf')" using j4 by simp_all
    ultimately show ?thesis
      using "1.hyps"[OF True g, of] "1.prems" g' j4 True g
      by (simp add: doflush_loop.simps[of i j] dec_quads_append split: prod.splits)
  qed
qed

lemma move_loop_take:
  "k \<le> i \<Longrightarrow> i \<le> n \<Longrightarrow> n \<le> length buf \<Longrightarrow>
   (case move_loop n i k buf of (k', buf') \<Rightarrow>
     k' = k + (n - i) \<and> length buf' = length buf \<and>
     take k' buf' = take k buf @ take (n - i) (drop i buf))"
proof (induction n i k buf rule: move_loop.induct)
  case (1 n i k buf)
  show ?case
  proof (cases "i < n")
    case False
    with "1.prems" show ?thesis by (simp add: move_loop.simps[of n i] move_loop.simps[of n n])
  next
    case True
    let ?b = "buf[k := buf ! i]"
    have "take (n - i) (drop i buf) = buf ! i # take (n - (i + 1)) (drop (i + 1) buf)"
      using True "1.prems" by (simp add: Cons_nth_drop_Suc[symmetric] Suc_diff_Suc[symmetric])
    moreover have "drop (i + 1) ?b = drop (i + 1) buf" "take (k + 1) ?b = take k buf @ [buf ! i]"
      using True "1.prems" by (simp_all add: take_update)
    ultimately show ?thesis
      using "1.IH"[OF True] "1.prems" True by (simp add: move_loop.simps[of n i] split: prod.splits)
  qed
qed

section \<open>The contract of a collecting callback\<close>

text \<open>What the decoder and the encoders rely on: the callback accepts every run and keeps it.\<close>

locale sink =
  fixes f :: "'s callback" and text_of :: "'s \<Rightarrow> bytes"
  assumes accepts: "fst (f bs s) = 0"
    and collects: "text_of (snd (f bs s)) = text_of s @ bs"
begin

lemma callback_cases: obtains s' where "f bs s = (0, s')" "text_of s' = text_of s @ bs"
  using accepts[of bs s] collects[of bs s] by (metis prod.collapse)

definition codes_of :: "'s base64decode \<Rightarrow> u8 list" where
  "codes_of b = take (workbuflen b) (workbuf b)"

definition wf_dec :: "'s base64decode \<Rightarrow> bool" where
  "wf_dec b \<longleftrightarrow> length (workbuf b) = WORKBUF_SIZE \<and> workbuflen b \<le> WORKBUF_SIZE"

lemma doflush_spec:
  assumes "wf_dec b"
  shows "case doflush f b of (rc, b') \<Rightarrow> rc = 0 \<and> wf_dec b' \<and>
    text_of (decode_arg b') = text_of (decode_arg b) @ dec_quads (codes_of b) \<and>
    codes_of b' = drop (workbuflen b div 4 * 4) (codes_of b) \<and>
    workbuflen b' = workbuflen b mod 4"
proof -
  let ?n = "workbuflen b" and ?i = "workbuflen b div 4 * 4"
  have wf: "length (workbuf b) = 256" "?n \<le> 256" using assms by (auto simp: wf_dec_def WORKBUF_SIZE_def)
  have i1: "?i \<le> ?n" using div_mult_mod_eq[of ?n 4] by linarith
  have i: "?i \<le> ?n" "?i \<le> length (workbuf b)" "4 dvd ?i - 0"
    using i1 wf by simp_all
  obtain k buf where l: "doflush_loop ?i 0 (0, workbuf b) = (k, buf)" by fastforce
  from doflush_loop_quads[of 0 0 ?i "workbuf b", OF _ _ i(2,3)] l
  have k: "k \<le> ?i" "length buf = length (workbuf b)" "drop ?i buf = drop ?i (workbuf b)"
    "take k buf = dec_quads (take ?i (workbuf b))" by simp_all
  have q: "take k buf = dec_quads (codes_of b)"
    using dec_quads_take[of "codes_of b"] wf i1 by (simp add: codes_of_def k min.absorb1 min.absorb2)
  obtain s' where s': "f (take k buf) (decode_arg b) = (0, s')"
    "text_of s' = text_of (decode_arg b) @ take k buf" by (rule callback_cases)
  obtain k' buf' where m: "move_loop ?n ?i 0 buf = (k', buf')" by fastforce
  from move_loop_take[of 0 ?i ?n buf] m i1 k(2) wf
  have m': "k' = ?n - ?i" "length buf' = length (workbuf b)"
    "take k' buf' = take (?n - ?i) (drop ?i buf)" by auto
  have k': "k' = ?n mod 4" using m'(1) by (simp add: minus_div_mult_eq_mod)
  show ?thesis
    using l s' m m'(2,3) m'(1)[symmetric] k' wf q
    by (simp add: doflush_def Let_def wf_dec_def WORKBUF_SIZE_def codes_of_def drop_take k(3))
qed

lemma decode_spec:
  "wf_dec b \<Longrightarrow> case base64_decode f b ps of (rc, b') \<Rightarrow> rc = 0 \<and> wf_dec b' \<and>
    (\<forall>cs. text_of (decode_arg b') @ dec_quads (codes_of b' @ cs) =
      text_of (decode_arg b) @ dec_quads (codes_of b @ codes ps @ cs))"
proof (induction ps arbitrary: b)
  case Nil
  then show ?case by simp
next
  case (Cons p ps)
  obtain rc b1 where b1: "(if WORKBUF_SIZE \<le> workbuflen b then doflush f b else (0, b)) = (rc, b1)"
    by fastforce
  have "rc = 0 \<and> wf_dec b1 \<and> workbuflen b1 < WORKBUF_SIZE \<and>
    (\<forall>cs. text_of (decode_arg b1) @ dec_quads (codes_of b1 @ cs) =
          text_of (decode_arg b) @ dec_quads (codes_of b @ cs))"
  proof (cases "WORKBUF_SIZE \<le> workbuflen b")
    case False
    with b1 Cons.prems show ?thesis by simp
  next
    case True
    with Cons.prems have n: "workbuflen b = 256" by (simp add: wf_dec_def WORKBUF_SIZE_def)
    then have "length (codes_of b) = 256" using Cons.prems by (simp add: wf_dec_def codes_of_def WORKBUF_SIZE_def)
    then have "dec_quads (codes_of b @ cs) = dec_quads (codes_of b) @ dec_quads cs"
        and "drop (workbuflen b div 4 * 4) (codes_of b) = []" for cs
      using n by (simp_all add: dec_quads_append)
    with doflush_spec[OF Cons.prems] b1 True n show ?thesis by (simp add: WORKBUF_SIZE_def)
  qed
  then have b1': "rc = 0" "wf_dec b1" "workbuflen b1 < WORKBUF_SIZE"
    "\<And>cs. text_of (decode_arg b1) @ dec_quads (codes_of b1 @ cs) =
          text_of (decode_arg b) @ dec_quads (codes_of b @ cs)" by auto
  show ?case
  proof (cases "base64_code p")
    case None
    with Cons.IH[OF b1'(2)] b1 b1' show ?thesis by (simp add: Let_def split: prod.splits)
  next
    case (Some c)
    let ?b = "b1\<lparr>workbuf := (workbuf b1)[workbuflen b1 := c], workbuflen := workbuflen b1 + 1\<rparr>"
    have wf: "wf_dec ?b" using b1' by (simp add: wf_dec_def)
    have "codes_of ?b = codes_of b1 @ [c]"
      using b1' by (simp add: wf_dec_def codes_of_def take_update)
    with Cons.IH[OF wf] b1 b1' Some show ?thesis by (simp add: Let_def split: prod.splits)
  qed
qed

text \<open>A message decoded in pieces.\<close>

fun decode_all :: "'s base64decode \<Rightarrow> bytes list \<Rightarrow> 's base64decode" where
  "decode_all b [] = b"
| "decode_all b (m # ms) = decode_all (snd (base64_decode f b m)) ms"

lemma decode_all_spec:
  "wf_dec b \<Longrightarrow> wf_dec (decode_all b ms) \<and>
    (\<forall>cs. text_of (decode_arg (decode_all b ms)) @ dec_quads (codes_of (decode_all b ms) @ cs) =
      text_of (decode_arg b) @ dec_quads (codes_of b @ codes (concat ms) @ cs))"
proof (induction ms arbitrary: b)
  case Nil
  then show ?case by simp
next
  case (Cons m ms)
  obtain b' where "base64_decode f b m = (0, b')" "wf_dec b'"
    "\<And>cs. text_of (decode_arg b') @ dec_quads (codes_of b' @ cs) =
       text_of (decode_arg b) @ dec_quads (codes_of b @ codes m @ cs)"
    using decode_spec[OF Cons.prems, of m] by (auto split: prod.splits)
  with Cons.IH[of b'] show ?case by simp
qed

lemma wf_init: "length (workbuf b) = WORKBUF_SIZE \<Longrightarrow> wf_dec (base64_decode_init b a)"
  by (simp add: wf_dec_def base64_decode_init_def)

lemma decode_end_spec:
  assumes "length (workbuf b) = WORKBUF_SIZE"
  shows "case base64_decode_end f (decode_all (base64_decode_init b a) ms) of (rc, b') \<Rightarrow>
    rc = 0 \<and> text_of (decode_arg b') = text_of a @ dec_quads (codes (concat ms))"
proof -
  let ?b = "decode_all (base64_decode_init b a) ms"
  have "codes_of (base64_decode_init b a) = []" by (simp add: codes_of_def base64_decode_init_def)
  moreover have "decode_arg (base64_decode_init b a) = a" by (simp add: base64_decode_init_def)
  ultimately have "wf_dec ?b"
    "text_of (decode_arg ?b) @ dec_quads (codes_of ?b) = text_of a @ dec_quads (codes (concat ms))"
    using decode_all_spec[OF wf_init[OF assms, of a], of ms] by (auto dest: spec[of _ "[]"])
  with doflush_spec[of ?b] show ?thesis
    by (auto simp: base64_decode_end_def split: prod.splits)
qed

end

interpretation save_str: sink save_str "\<lambda>s. s"
  by unfold_locales (simp_all add: save_str_def)

section \<open>Decoding what was encoded\<close>

lemma strchr_nth: "distinct xs \<Longrightarrow> n < length xs \<Longrightarrow> strchr xs (xs ! n) = Some n"
proof (induction xs arbitrary: n)
  case (Cons x xs)
  then show ?case by (cases n) (auto simp: nth_eq_iff_index_eq)
qed simp

lemma strchr_None: "c \<notin> set xs \<Longrightarrow> c \<noteq> 0 \<Longrightarrow> strchr xs c = None"
  by (induction xs) auto

lemma base64tab_facts:
  "length base64tab = 64" "distinct base64tab" "ch CHR ''='' \<notin> set base64tab"
  "ch CHR ''\<newline>'' \<notin> set base64tab" "0 \<notin> set base64tab" "ch CHR ''\<newline>'' \<noteq> 0"
  "ch CHR ''\<newline>'' \<noteq> ch CHR ''=''"
  by code_simp+

lemma digit64_not_eq [simp]: "digit64 n \<noteq> ch CHR ''=''"
proof -
  have "digit64 n \<in> set base64tab" by (simp add: digit64_def base64tab_facts)
  with base64tab_facts(3) show ?thesis by auto
qed

lemma base64_code_digit [simp]: "base64_code (digit64 n) = Some (of_nat (n mod 64))"
proof -
  have "strchr base64tab (digit64 n) = Some (n mod 64)"
    unfolding digit64_def by (rule strchr_nth) (simp_all add: base64tab_facts)
  then show ?thesis by (simp add: base64_code_def)
qed

lemma base64_code_pad [simp]: "base64_code (ch CHR ''='') = Some 100"
  by (simp add: base64_code_def)

lemma base64_code_newline [simp]: "base64_code (ch CHR ''\<newline>'') = None"
  using base64tab_facts(4,6,7) by (simp add: base64_code_def strchr_None)

lemma code_not_pad: "(of_nat (n mod 64) :: u8) \<noteq> 100"
proof
  assume "(of_nat (n mod 64) :: u8) = 100"
  then have "unat (of_nat (n mod 64) :: u8) = 100" by simp
  then show False by (simp add: unat_of_nat)
qed

lemma combine_digits:
  fixes a b c :: u8
  defines "n \<equiv> unat a * 65536 + unat b * 256 + unat c"
  shows "(ucast (push_bit 2 (ucast (of_nat (n div 262144 mod 64) :: u8)) OR
      drop_bit 4 (ucast (of_nat (n div 4096 mod 64) :: u8) :: u32)) :: u8) = a" (is ?A)
    and "(ucast (push_bit 4 (ucast (of_nat (n div 4096 mod 64) :: u8)) OR
      drop_bit 2 (ucast (of_nat (n div 64 mod 64) :: u8) :: u32)) :: u8) = b" (is ?B)
    and "(ucast (push_bit 6 (ucast (of_nat (n div 64 mod 64) :: u8)) OR
      (ucast (of_nat (n mod 64) :: u8) :: u32)) :: u8) = c" (is ?C)
proof -
  have lt: "unat (x :: u8) < 256" for x using unsigned_less[of x] by simp
  have u: "unat (of_nat (m mod 64) :: u8) = m mod 64" for m by (simp add: unat_of_nat)
  let ?A' = "unat a" and ?B' = "unat b" and ?C' = "unat c"
  note g = group_digits[where A = ?A' and B = ?B' and C = ?C', OF lt[of b] lt[of c], folded n_def]
  note cb = base64_combine[where w = "of_nat (n div 262144 mod 64)" and x = "of_nat (n div 4096 mod 64)"
      and y = "of_nat (n div 64 mod 64)" and z = "of_nat (n mod 64)", unfolded u,
      OF mod_less_divisor mod_less_divisor mod_less_divisor mod_less_divisor, simplified]
  have d: "?A' div 4 mod 64 = ?A' div 4" using lt[of a] by simp
  have e: "(?A' mod 4 * 16 + ?B' div 16) div 16 = ?A' mod 4" using lt[of b] by simp
  have f: "(?B' mod 16 * 4 + ?C' div 64) div 4 = ?B' mod 16" using lt[of c] by simp
  have "n div 262144 mod 64 * 4 + n div 4096 mod 64 div 16 = ?A'"
    by (simp only: g d e div_mult_mod_eq)
  then show ?A using cb(1) by (simp add: word_unat_eq_iff)
  have "((?A' mod 4 * 16 + ?B' div 16) * 16 + ?B' mod 16) mod 256 = ?B'"
  proof -
    have "(?A' mod 4 * 16 + ?B' div 16) * 16 + ?B' mod 16 = ?A' mod 4 * 256 + (?B' div 16 * 16 + ?B' mod 16)"
      by (simp only: algebra_simps)
    also have "\<dots> = ?A' mod 4 * 256 + ?B'" by (simp only: div_mult_mod_eq)
    finally show ?thesis using lt[of b] by simp
  qed
  then have "(n div 4096 mod 64 * 16 + n div 64 mod 64 div 4) mod 256 = ?B'"
    by (simp only: g f)
  then show ?B using cb(2) by (simp add: word_unat_eq_iff)
  have "((?B' mod 16 * 4 + ?C' div 64) * 64 + ?C' mod 64) mod 256 = ?C'"
  proof -
    have "(?B' mod 16 * 4 + ?C' div 64) * 64 + ?C' mod 64 = ?B' mod 16 * 256 + (?C' div 64 * 64 + ?C' mod 64)"
      by (simp only: algebra_simps)
    also have "\<dots> = ?B' mod 16 * 256 + ?C'" by (simp only: div_mult_mod_eq)
    finally show ?thesis using lt[of c] by simp
  qed
  then have "(n div 64 mod 64 * 64 + n mod 64) mod 256 = ?C'"
    by (simp only: g)
  then show ?C using cb(3) by (simp add: word_unat_eq_iff)
qed

lemma dec_quads_rfc4648: "dec_quads (codes (rfc4648 xs) @ cs) = xs @ dec_quads cs"
proof (induction xs rule: rfc4648.induct)
  case (1 a b c xs)
  then show ?case
    using combine_digits[where a = a and b = b and c = c] by (simp add: Let_def code_not_pad)
next
  case (2 a b)
  then show ?case
    using combine_digits[where a = a and b = b and c = 0] by (simp add: Let_def code_not_pad)
next
  case (3 a)
  then show ?case
    using combine_digits[where a = a and b = 0 and c = 0] by (simp add: Let_def code_not_pad)
qed simp

lemma codes_filter: "codes (filter (\<lambda>c. base64_code c \<noteq> None) ps) = codes ps"
  by (induction ps) auto

lemma codes_rfc4648: "dec_quads (codes (rfc4648 xs)) = xs"
  using dec_quads_rfc4648[of xs "[]"] by simp

lemma decode_all_fold:
  "save_str.decode_all b ms = fold (\<lambda>m b. snd (base64_decode save_str b m)) ms b"
  by (induction ms arbitrary: b) (simp_all add: save_str.decode_all.simps)



text \<open>
  \<open>base64_decode_str\<close> inverts the encoding loop of the password hashes and of the encoder.
\<close>

theorem base64_decode_str_encoded: "base64_decode_str (base64_stack []) (base64_loop xs 0) = xs"
proof -
  have "length (workbuf (base64_stack [])) = WORKBUF_SIZE" by (simp add: base64_stack_def)
  from save_str.decode_end_spec[OF this, of "[]" "[base64_loop xs 0]"] show ?thesis
    by (simp add: base64_decode_str_def decode_all_fold base64_loop_rfc4648 codes_rfc4648
        split: prod.splits)
qed

text \<open>A zero byte is not skipped as other characters outside of the alphabet are: it is code 64.\<close>

lemma base64_code_zero: "base64_code 0 = Some 64"
  by code_simp

end
