(* ===== verification/Sha512.thy ===== *)
theory Sha512
  imports Hash_Stream
begin

text \<open>
  sha1/sha512.c: the context \<open>struct SHA512_CONTEXT\<close>, the block function, streaming, padding, digest
  and restore, with the reference of FIPS 180 (rotations, a recursively defined schedule).
\<close>

section \<open>The context\<close>

record sha512_context = hash_buf +
  sha512_H :: "u64 list"

definition SHA512_DIGEST_SIZE :: nat where "SHA512_DIGEST_SIZE = 64"

definition SHA512_BLOCK_SIZE :: nat where "SHA512_BLOCK_SIZE = 128"

lemmas sha512_sizes = SHA512_DIGEST_SIZE_def SHA512_BLOCK_SIZE_def

definition sha512_ROTR :: "u64 \<Rightarrow> nat \<Rightarrow> u64" where
  "sha512_ROTR x n = (drop_bit n x OR push_bit (64 - n) x)"

definition sha512_CH :: "u64 \<Rightarrow> u64 \<Rightarrow> u64 \<Rightarrow> u64" where
  "sha512_CH x y z = ((x AND y) XOR (NOT x AND z))"

definition sha512_MAJ :: "u64 \<Rightarrow> u64 \<Rightarrow> u64 \<Rightarrow> u64" where
  "sha512_MAJ x y z = ((x AND y) XOR (x AND z) XOR (y AND z))"

definition sha512_SUM0 :: "u64 \<Rightarrow> u64" where
  "sha512_SUM0 x = (sha512_ROTR x 28 XOR sha512_ROTR x 34 XOR sha512_ROTR x 39)"

definition sha512_SUM1 :: "u64 \<Rightarrow> u64" where
  "sha512_SUM1 x = (sha512_ROTR x 14 XOR sha512_ROTR x 18 XOR sha512_ROTR x 41)"

definition sha512_TH0 :: "u64 \<Rightarrow> u64" where
  "sha512_TH0 x = (sha512_ROTR x 1 XOR sha512_ROTR x 8 XOR drop_bit 7 x)"

definition sha512_TH1 :: "u64 \<Rightarrow> u64" where
  "sha512_TH1 x = (sha512_ROTR x 19 XOR sha512_ROTR x 61 XOR drop_bit 6 x)"

definition sha512_K :: "u64 list" where
  "sha512_K = [
   0x428A2F98D728AE22, 0x7137449123EF65CD, 0xB5C0FBCFEC4D3B2F,
   0xE9B5DBA58189DBBC, 0x3956C25BF348B538, 0x59F111F1B605D019,
   0x923F82A4AF194F9B, 0xAB1C5ED5DA6D8118, 0xD807AA98A3030242,
   0x12835B0145706FBE, 0x243185BE4EE4B28C, 0x550C7DC3D5FFB4E2,
   0x72BE5D74F27B896F, 0x80DEB1FE3B1696B1, 0x9BDC06A725C71235,
   0xC19BF174CF692694, 0xE49B69C19EF14AD2, 0xEFBE4786384F25E3,
   0x0FC19DC68B8CD5B5, 0x240CA1CC77AC9C65, 0x2DE92C6F592B0275,
   0x4A7484AA6EA6E483, 0x5CB0A9DCBD41FBD4, 0x76F988DA831153B5,
   0x983E5152EE66DFAB, 0xA831C66D2DB43210, 0xB00327C898FB213F,
   0xBF597FC7BEEF0EE4, 0xC6E00BF33DA88FC2, 0xD5A79147930AA725,
   0x06CA6351E003826F, 0x142929670A0E6E70, 0x27B70A8546D22FFC,
   0x2E1B21385C26C926, 0x4D2C6DFC5AC42AED, 0x53380D139D95B3DF,
   0x650A73548BAF63DE, 0x766A0ABB3C77B2A8, 0x81C2C92E47EDAEE6,
   0x92722C851482353B, 0xA2BFE8A14CF10364, 0xA81A664BBC423001,
   0xC24B8B70D0F89791, 0xC76C51A30654BE30, 0xD192E819D6EF5218,
   0xD69906245565A910, 0xF40E35855771202A, 0x106AA07032BBD1B8,
   0x19A4C116B8D2D0C8, 0x1E376C085141AB53, 0x2748774CDF8EEB99,
   0x34B0BCB5E19B48A8, 0x391C0CB3C5C95A63, 0x4ED8AA4AE3418ACB,
   0x5B9CCA4F7763E373, 0x682E6FF3D6B2B8A3, 0x748F82EE5DEFB2FC,
   0x78A5636F43172F60, 0x84C87814A1F0AB72, 0x8CC702081A6439EC,
   0x90BEFFFA23631E28, 0xA4506CEBDE82BDE9, 0xBEF9A3F7B2C67915,
   0xC67178F2E372532B, 0xCA273ECEEA26619C, 0xD186B8C721C0C207,
   0xEADA7DD6CDE0EB1E, 0xF57D4F7FEE6ED178, 0x06F067AA72176FBA,
   0x0A637DC5A2C898A6, 0x113F9804BEF90DAE, 0x1B710B35131C471B,
   0x28DB77F523047D84, 0x32CAAB7B40C72493, 0x3C9EBE0A15C9BEBC,
   0x431D67C49C100D4C, 0x4CC5D4BECB3E42B6, 0x597F299CFC657E2A,
   0x5FCB6FAB3AD6FAEC, 0x6C44198C4A475817]"

definition sha512_context_init :: "sha512_context \<Rightarrow> sha512_context" where
  "sha512_context_init c = c\<lparr>sha512_H := [0x6A09E667F3BCC908, 0xBB67AE8584CAA73B, 0x3C6EF372FE94F82B, 0xA54FF53A5F1D36F1,
     0x510E527FADE682D1, 0x9B05688C2B3E6C1F, 0x1F83D9ABFB41BD6B, 0x5BE0CD19137E2179], blk_ptr := 0\<rparr>"

section \<open>The block function\<close>

definition sha512_load :: "bytes \<Rightarrow> u64 list" where
  "sha512_load b = map (\<lambda>t. pack_be [b ! (8 * t), b ! (8 * t + 1), b ! (8 * t + 2), b ! (8 * t + 3), b ! (8 * t + 4), b ! (8 * t + 5), b ! (8 * t + 6), b ! (8 * t + 7)]) [0..<16]"

definition sha512_next :: "nat \<Rightarrow> u64 list \<Rightarrow> u64" where
  "sha512_next t W = sha512_TH1 (W ! (t - 2)) + W ! (t - 7) + sha512_TH0 (W ! (t - 15)) + W ! (t - 16)"

definition sha512_schedule :: "bytes \<Rightarrow> u64 list" where
  "sha512_schedule b = fold (\<lambda>t W. W @ [sha512_next t W]) [16..<80] (sha512_load b)"

type_synonym sha512_regs = "u64 \<times> u64 \<times> u64 \<times> u64 \<times> u64 \<times> u64 \<times> u64 \<times> u64"

fun sha512_step :: "u64 list \<Rightarrow> nat \<Rightarrow> sha512_regs \<Rightarrow> sha512_regs" where
  "sha512_step W t (a, b, c, d, e, f, g, h) =
     (let T1 = h + sha512_SUM1 e + sha512_CH e f g + sha512_K ! t + W ! t;
          T2 = sha512_SUM0 a + sha512_MAJ a b c
      in (T1 + T2, a, b, c, d + T1, e, f, g))"

definition sha512_context_hash :: "sha512_context \<Rightarrow> bytes \<Rightarrow> sha512_context" where
  "sha512_context_hash cc m =
     (let W = sha512_schedule m; H = sha512_H cc
      in case fold (sha512_step W) [0..<80] (H ! 0, H ! 1, H ! 2, H ! 3, H ! 4, H ! 5, H ! 6, H ! 7) of
        (a, b, c, d, e, f, g, h) \<Rightarrow>
          cc\<lparr>sha512_H := [H ! 0 + a, H ! 1 + b, H ! 2 + c, H ! 3 + d, H ! 4 + e, H ! 5 + f, H ! 6 + g, H ! 7 + h]\<rparr>)"

section \<open>Streaming, padding, digest\<close>

definition sha512_context_hashstream :: "sha512_context \<Rightarrow> bytes \<Rightarrow> sha512_context" where
  "sha512_context_hashstream = context_hashstream SHA512_BLOCK_SIZE sha512_context_hash"

text \<open>
  The sixteen length bytes: the loop stores \<open>l * 8\<close> from \<open>buf[15]\<close> downwards and shifts, so the
  upper eight bytes are zero.
\<close>

definition sha512_length_bytes :: "u64 \<Rightarrow> bytes" where
  "sha512_length_bytes l = rev (unpack_le 16 (l * 8))"

definition sha512_context_endstream :: "sha512_context \<Rightarrow> u64 \<Rightarrow> sha512_context" where
  "sha512_context_endstream c l =
     sha512_context_hashstream (context_pad SHA512_BLOCK_SIZE 16 sha512_context_hash c) (sha512_length_bytes l)"

definition sha512_context_digest :: "sha512_context \<Rightarrow> bytes" where
  "sha512_context_digest c = concat (map (\<lambda>i. rev (unpack_le 8 (sha512_H c ! i))) [0..<8])"

definition sha512_context_restore :: "sha512_context \<Rightarrow> bytes \<Rightarrow> sha512_context" where
  "sha512_context_restore c d = c\<lparr>
     sha512_H := map (\<lambda>i. pack_be [d ! (8 * i), d ! (8 * i + 1), d ! (8 * i + 2), d ! (8 * i + 3), d ! (8 * i + 4), d ! (8 * i + 5), d ! (8 * i + 6), d ! (8 * i + 7)]) [0..<8],
     blk_ptr := 0\<rparr>"

definition sha512_digest :: "sha512_context \<Rightarrow> bytes \<Rightarrow> bytes" where
  "sha512_digest c msg = sha512_context_digest (sha512_context_endstream
     (sha512_context_hashstream (sha512_context_init c) msg) (of_nat (length msg)))"

definition sha512_stack :: sha512_context where
  "sha512_stack = \<lparr>blk = replicate SHA512_BLOCK_SIZE 0, blk_ptr = 0, sha512_H = replicate 8 0\<rparr>"

section \<open>The reference of FIPS 180\<close>

definition sha512_sigma0 :: "u64 \<Rightarrow> u64" where
  "sha512_sigma0 x = (word_rotr 1 x XOR word_rotr 8 x XOR drop_bit 7 x)"

definition sha512_sigma1 :: "u64 \<Rightarrow> u64" where
  "sha512_sigma1 x = (word_rotr 19 x XOR word_rotr 61 x XOR drop_bit 6 x)"

definition sha512_Sigma0 :: "u64 \<Rightarrow> u64" where
  "sha512_Sigma0 x = (word_rotr 28 x XOR word_rotr 34 x XOR word_rotr 39 x)"

definition sha512_Sigma1 :: "u64 \<Rightarrow> u64" where
  "sha512_Sigma1 x = (word_rotr 14 x XOR word_rotr 18 x XOR word_rotr 41 x)"

fun sha512_fips_W :: "bytes \<Rightarrow> nat \<Rightarrow> u64" where
  "sha512_fips_W b t = (if t < 16 then pack_be (take 8 (drop (8 * t) b))
     else sha512_sigma1 (sha512_fips_W b (t - 2)) + sha512_fips_W b (t - 7)
       + sha512_sigma0 (sha512_fips_W b (t - 15)) + sha512_fips_W b (t - 16))"

declare sha512_fips_W.simps [simp del]

definition sha512_Ch :: "u64 \<Rightarrow> u64 \<Rightarrow> u64 \<Rightarrow> u64" where
  "sha512_Ch x y z = ((x AND y) OR (NOT x AND z))"

definition sha512_Maj :: "u64 \<Rightarrow> u64 \<Rightarrow> u64 \<Rightarrow> u64" where
  "sha512_Maj x y z = ((x AND y) OR (x AND z) OR (y AND z))"

fun sha512_fips_step :: "bytes \<Rightarrow> nat \<Rightarrow> sha512_regs \<Rightarrow> sha512_regs" where
  "sha512_fips_step m t (a, b, c, d, e, f, g, h) =
     (let T1 = h + sha512_Sigma1 e + sha512_Ch e f g + sha512_K ! t + sha512_fips_W m t;
          T2 = sha512_Sigma0 a + sha512_Maj a b c
      in (T1 + T2, a, b, c, d + T1, e, f, g))"

definition sha512_fips_compress :: "u64 list \<Rightarrow> bytes \<Rightarrow> u64 list" where
  "sha512_fips_compress H m =
     (case fold (sha512_fips_step m) [0..<80] (H ! 0, H ! 1, H ! 2, H ! 3, H ! 4, H ! 5, H ! 6, H ! 7) of
        (a, b, c, d, e, f, g, h) \<Rightarrow>
          [H ! 0 + a, H ! 1 + b, H ! 2 + c, H ! 3 + d, H ! 4 + e, H ! 5 + f, H ! 6 + g, H ! 7 + h])"

definition sha512_iv :: "u64 list" where
  "sha512_iv = [0x6A09E667F3BCC908, 0xBB67AE8584CAA73B, 0x3C6EF372FE94F82B, 0xA54FF53A5F1D36F1,
     0x510E527FADE682D1, 0x9B05688C2B3E6C1F, 0x1F83D9ABFB41BD6B, 0x5BE0CD19137E2179]"

definition sha512_out :: "u64 list \<Rightarrow> bytes" where
  "sha512_out H = concat (map (\<lambda>i. rev (unpack_le 8 (H ! i))) [0..<8])"

definition sha512_fips :: "bytes \<Rightarrow> bytes" where
  "sha512_fips m = sha512_out (md_ref 128 16 sha512_fips_compress sha512_iv m
     (rev (unpack_le 16 (of_nat (8 * length m) :: 128 word))))"

section \<open>The block function refines FIPS 180\<close>

lemma sha512_ROTR_rotr: "0 < n \<Longrightarrow> n < 64 \<Longrightarrow> sha512_ROTR x n = word_rotr n x"
  using rotr_shift[of n x] by (simp add: sha512_ROTR_def)

lemma sha512_choices: "sha512_CH = sha512_Ch" "sha512_MAJ = sha512_Maj"
proof -
  show "sha512_CH = sha512_Ch" unfolding fun_eq_iff sha512_CH_def sha512_Ch_def
    by (intro allI bit_word_eqI) (auto simp: bit_simps)
  show "sha512_MAJ = sha512_Maj" unfolding fun_eq_iff sha512_MAJ_def sha512_Maj_def
    by (intro allI bit_word_eqI) (auto simp: bit_simps)
qed

lemma sha512_sigmas:
  "sha512_TH0 = sha512_sigma0" "sha512_TH1 = sha512_sigma1" "sha512_SUM0 = sha512_Sigma0" "sha512_SUM1 = sha512_Sigma1"
  by (simp_all add: fun_eq_iff sha512_TH0_def sha512_TH1_def sha512_SUM0_def sha512_SUM1_def sha512_ROTR_rotr
      sha512_sigma0_def sha512_sigma1_def sha512_Sigma0_def sha512_Sigma1_def)

lemma sha512_load_fips:
  assumes "length b = 128"
  shows "sha512_load b = map (sha512_fips_W b) [0..<16]"
  using assms by (auto simp: sha512_load_def sha512_fips_W.simps take_8_drop)

lemma sha512_schedule_fips:
  assumes "length b = 128"
  shows "sha512_schedule b = map (sha512_fips_W b) [0..<80]"
  unfolding sha512_schedule_def sha512_load_fips[OF assms]
proof (rule fold_append_rec)
  fix t assume "16 \<le> t" "t < (80::nat)"
  then show "sha512_next t (map (sha512_fips_W b) [0..<t]) = sha512_fips_W b t"
    by (simp add: sha512_next_def sha512_sigmas sha512_fips_W.simps[of b t])
qed simp

lemma sha512_steps_fips:
  assumes "length b = 128"
  shows "fold (sha512_step (sha512_schedule b)) [0..<80] r = fold (sha512_fips_step b) [0..<80] r"
proof (rule fold_cong)
  fix t assume "t \<in> set [0..<80]"
  then have t: "t < 80" by simp
  show "sha512_step (sha512_schedule b) t = sha512_fips_step b t"
  proof
    fix r show "sha512_step (sha512_schedule b) t r = sha512_fips_step b t r"
      using t by (cases "(b, t, r)" rule: sha512_fips_step.cases) (simp add: sha512_schedule_fips[OF assms] sha512_sigmas sha512_choices Let_def)
  qed
qed simp_all

definition sha512_compress :: "u64 list \<Rightarrow> bytes \<Rightarrow> u64 list" where
  "sha512_compress H m =
     (case fold (sha512_step (sha512_schedule m)) [0..<80] (H ! 0, H ! 1, H ! 2, H ! 3, H ! 4, H ! 5, H ! 6, H ! 7) of
        (a, b, c, d, e, f, g, h) \<Rightarrow>
          [H ! 0 + a, H ! 1 + b, H ! 2 + c, H ! 3 + d, H ! 4 + e, H ! 5 + f, H ! 6 + g, H ! 7 + h])"

lemma sha512_compress_fips: "length b = 128 \<Longrightarrow> sha512_compress H b = sha512_fips_compress H b"
  by (simp add: sha512_compress_def sha512_fips_compress_def sha512_steps_fips)

section \<open>The interpretation of the hash interface\<close>

interpretation sha512: md_hash SHA512_BLOCK_SIZE sha512_context_hash sha512_H sha512_compress 16 sha512_iv
  sha512_context_init sha512_context_endstream sha512_length_bytes sha512_context_digest sha512_out
  by unfold_locales
    (auto simp: sha512_sizes sha512_context_hash_def sha512_compress_def sha512_context_init_def sha512_iv_def
      sha512_context_endstream_def sha512_context_hashstream_def sha512_length_bytes_def Let_def
      sha512_context_digest_def sha512_out_def split: prod.split)

section \<open>The digest of a message\<close>

lemma sha512_length_bytes_fips:
  assumes "n < 2 ^ 61"
  shows "sha512_length_bytes (of_nat n) = rev (unpack_le 16 (of_nat (8 * n) :: 128 word))"
proof -
  define m where "m = 8 * n"
  have "m < 2 ^ 64" using assms by (simp add: m_def)
  then have low: "i < 64" if "bit m i" for i
    using that by (rule bit_less_exp)
  have "(ucast (drop_bit k (of_nat m :: 128 word)) :: u8) = ucast (drop_bit k (of_nat m :: u64))" for k
    by (intro bit_word_eqI) (auto simp: bit_simps dest: low)
  then have "unpack_le 16 (of_nat m :: 128 word) = unpack_le 16 (of_nat m :: u64)"
    by (simp add: unpack_le_map)
  then show ?thesis
    by (simp add: sha512_length_bytes_def m_def mult.commute)
qed

lemma sha512_finish_fips:
  assumes "length m < 2 ^ 61"
  shows "sha512_out (md_ref SHA512_BLOCK_SIZE 16 sha512_compress sha512_iv m (sha512_length_bytes (of_nat (length m))))
    = sha512_fips m"
proof -
  have "md_ref SHA512_BLOCK_SIZE 16 sha512_compress sha512_iv m le =
      md_ref SHA512_BLOCK_SIZE 16 sha512_fips_compress sha512_iv m le" for le
    by (rule md_ref_cong) (simp add: sha512_compress_fips sha512_sizes)
  then show ?thesis
    by (simp add: sha512_fips_def sha512_length_bytes_fips[OF assms(1)] sha512_sizes)
qed

lemma sha512_digest_fips:
  assumes "length m < 2 ^ 61" and "length (blk c) = SHA512_BLOCK_SIZE"
  shows "sha512_digest c m = sha512_fips m"
  unfolding sha512_digest_def sha512_context_hashstream_def
  by (simp add: sha512.one_shot[OF assms(2)] sha512_finish_fips[OF assms(1)])

text \<open>
  C17: SHA512 streaming. A message fed to sha512_context_hashstream in any pieces, then finished by
  sha512_context_endstream with its total length, gives the digest of FIPS 180 of the concatenation,
  whatever the uninitialised context held, as long as the message is shorter than \<open>2 ^ 61\<close> bytes.
\<close>

theorem sha512_stream_fips:
  assumes "length (concat ms) < 2 ^ 61" and "length (blk c) = SHA512_BLOCK_SIZE"
  shows "sha512_context_digest (sha512_context_endstream
      (foldl sha512_context_hashstream (sha512_context_init c) ms) (of_nat (length (concat ms)))) =
    sha512_fips (concat ms)"
  unfolding sha512_context_hashstream_def
  by (simp add: sha512.one_shot_chunks[OF assms(2)] sha512_finish_fips[OF assms(1)] del: length_concat)

theorem sha512_stream_fips_witness:
  "sha512_context_digest (sha512_context_endstream
      (foldl sha512_context_hashstream (sha512_context_init sha512_stack) [str ''a'', [], str ''bc''])
      (of_nat (length (concat [str ''a'', [], str ''bc''])))) = sha512_fips (concat [str ''a'', [], str ''bc''])"
  by (rule sha512_stream_fips) (simp_all add: sha512_stack_def str_def)

end
