(* ===== verification/Password_Hash.thy ===== *)
theory Password_Hash
  imports Base64 Md5 Sha1 Sha256 Sha512
begin

text \<open>
  The password hashes of md5/md5_hash.c, sha1/sha1_hash.c, sha1/sha256_hash.c and
  sha1/sha512_hash.c: the digest of the password in base64 or hexadecimal.  A C string is the list
  of its bytes before the terminating zero.
\<close>

section \<open>The code\<close>

definition md5_hash_courier :: "md5_context \<Rightarrow> bytes \<Rightarrow> bytes" where
  "md5_hash_courier c passw = (let md5buf = md5_digest c passw in base64_loop md5buf 0)"

text \<open>The two characters of \<open>sprintf("%02x")\<close>.\<close>

definition sprintf_02x :: "u8 \<Rightarrow> bytes" where
  "sprintf_02x b = [str ''0123456789abcdef'' ! (unat b div 16), str ''0123456789abcdef'' ! (unat b mod 16)]"

definition md5_hash_raw :: "md5_context \<Rightarrow> bytes \<Rightarrow> bytes" where
  "md5_hash_raw c passw = fold (\<lambda>b hash_buffer. hash_buffer @ sprintf_02x b) (md5_digest c passw) []"

definition sha1_hash :: "sha1_context \<Rightarrow> bytes \<Rightarrow> bytes" where
  "sha1_hash c passw = (let sha1buf = sha1_digest c passw in base64_loop sha1buf 0)"

text \<open>\<open>SSHA_RAND\<close> is four bytes.  The salt is hashed after the password and stored after the digest.\<close>

definition ssha_hash :: "sha1_context \<Rightarrow> bytes \<Rightarrow> bytes \<Rightarrow> bytes" where
  "ssha_hash ctx passw seed =
     (let ctx = sha1_context_init ctx;
          ctx = sha1_context_hashstream ctx passw;
          ctx = sha1_context_hashstream ctx (take 4 seed);
          ctx = sha1_context_endstream ctx (of_nat (length passw + 4));
          sha1buf = sha1_context_digest ctx @ take 4 seed
      in base64_loop sha1buf 0)"

definition sha256_hash :: "sha256_context \<Rightarrow> bytes \<Rightarrow> bytes" where
  "sha256_hash c passw = (let sha256buf = sha256_digest c passw in base64_loop sha256buf 0)"

definition sha512_hash :: "sha512_context \<Rightarrow> bytes \<Rightarrow> bytes" where
  "sha512_hash c passw = (let sha512buf = sha512_digest c passw in base64_loop sha512buf 0)"

section \<open>What the stored text contains\<close>

lemma fold_append_concat: "fold (\<lambda>b acc. acc @ f b) xs acc = acc @ concat (map f xs)"
  by (induction xs arbitrary: acc) auto

text \<open>
  C24: The salted SHA-1 hash decodes to the FIPS 180 digest of the password followed by the salt,
  then the salt itself, which is what a verifier needs; the text has 32 characters.
\<close>

theorem ssha_hash_ok:
  assumes "length passw + 4 < 2 ^ 29" and "length (blk c) = SHA1_BLOCK_SIZE" and "length seed = 4"
  shows "dec_quads (codes (ssha_hash c passw seed)) = sha1_fips (passw @ seed) @ seed \<and>
    length (ssha_hash c passw seed) = 32"
proof -
  have l: "length (concat [passw, seed]) = length passw + 4" using assms(3) by simp
  have "sha1_context_digest (sha1_context_endstream (foldl sha1_context_hashstream
      (sha1_context_init c) [passw, seed]) (of_nat (length passw + 4))) = sha1_fips (concat [passw, seed])"
    using sha1_finish_fips[of "concat [passw, seed]"] assms(1)
    unfolding sha1_context_hashstream_def
    by (simp only: sha1.one_shot_chunks[OF assms(2)] l)
  then have s: "ssha_hash c passw seed = rfc4648 (sha1_fips (passw @ seed) @ seed)"
    using assms(3) by (simp add: ssha_hash_def Let_def base64_loop_rfc4648)
  have "length (sha1_fips m) = 20" for m by (simp add: sha1_fips_def sha1_out_def upt_rec)
  with s assms(3) show ?thesis by (simp add: codes_rfc4648 length_rfc4648)
qed

theorem ssha_hash_ok_witness:
  "dec_quads (codes (ssha_hash sha1_stack (str ''secret'') [1, 2, 3, 4])) =
     sha1_fips (str ''secret'' @ [1, 2, 3, 4]) @ [1, 2, 3, 4] \<and>
   length (ssha_hash sha1_stack (str ''secret'') [1, 2, 3, 4]) = 32"
  by (rule ssha_hash_ok) (simp_all add: str_def sha1_stack_def)

text \<open>
  The unsalted hashes over SHA-1, SHA-256 and SHA-512 decode to the digests of the password.
\<close>

theorem sha_hashes_ok:
  assumes "length passw < 2 ^ 29" and "length (blk c1) = SHA1_BLOCK_SIZE"
    and "length (blk c2) = SHA256_BLOCK_SIZE" and "length (blk c5) = SHA512_BLOCK_SIZE"
  shows "dec_quads (codes (sha1_hash c1 passw)) = sha1_fips passw \<and>
    dec_quads (codes (sha256_hash c2 passw)) = sha256_fips passw \<and>
    dec_quads (codes (sha512_hash c5 passw)) = sha512_fips passw"
  using assms
  by (simp add: sha1_hash_def sha256_hash_def sha512_hash_def base64_loop_rfc4648 codes_rfc4648
      sha1_digest_fips sha256_digest_fips sha512_digest_fips)

theorem sha_hashes_ok_witness:
  "dec_quads (codes (sha1_hash sha1_stack (str ''pw''))) = sha1_fips (str ''pw'') \<and>
    dec_quads (codes (sha256_hash sha256_stack (str ''pw''))) = sha256_fips (str ''pw'') \<and>
    dec_quads (codes (sha512_hash sha512_stack (str ''pw''))) = sha512_fips (str ''pw'')"
  by (rule sha_hashes_ok) (simp_all add: str_def sha1_stack_def sha256_stack_def sha512_stack_def)

section \<open>The hexadecimal form\<close>

definition unhex :: "u8 \<Rightarrow> nat" where
  "unhex c = (if c < ch CHR ''a'' then unat c - 48 else unat c - 87)"

lemma unhex_digit: "n < 16 \<Longrightarrow> unhex (str ''0123456789abcdef'' ! n) = n"
proof -
  have "list_all (\<lambda>n. unhex (str ''0123456789abcdef'' ! n) = n) [0..<16]" by code_simp
  then show "n < 16 \<Longrightarrow> unhex (str ''0123456789abcdef'' ! n) = n" by (simp add: list_all_iff)
qed

fun unhex_pairs :: "bytes \<Rightarrow> bytes" where
  "unhex_pairs (a # b # xs) = of_nat (unhex a * 16 + unhex b) # unhex_pairs xs"
| "unhex_pairs xs = []"

lemma unhex_pairs_02x: "unhex_pairs (concat (map sprintf_02x bs)) = bs"
proof (induction bs)
  case (Cons b bs)
  have "unat b < 256" using unsigned_less[of b] by simp
  then have "unat b div 16 < 16" by simp
  with Cons show ?case by (simp add: sprintf_02x_def unhex_digit)
qed simp

text \<open>
  The two MD5 hashes: the 24 characters of the base64 form decode to the RFC 1321 digest of the
  password, and the 32 characters of the raw form read back, in pairs of hexadecimal digits, as it.
\<close>

theorem md5_hashes_ok:
  assumes "length passw < 2 ^ 32" and "length (blk c) = MD5_BLOCK_SIZE"
  shows "dec_quads (codes (md5_hash_courier c passw)) = md5_rfc passw \<and>
    length (md5_hash_courier c passw) = 24 \<and>
    unhex_pairs (md5_hash_raw c passw) = md5_rfc passw \<and> length (md5_hash_raw c passw) = 32"
proof -
  have "length (concat (map sprintf_02x bs)) = 2 * length bs" for bs
    by (induction bs) (simp_all add: sprintf_02x_def)
  with assms show ?thesis
    by (simp add: md5_hash_courier_def md5_hash_raw_def fold_append_concat unhex_pairs_02x
        base64_loop_rfc4648 codes_rfc4648 length_rfc4648 md5_digest_rfc del: length_concat)
qed

theorem md5_hashes_ok_witness:
  "dec_quads (codes (md5_hash_courier md5_stack (str ''pw''))) = md5_rfc (str ''pw'') \<and>
    length (md5_hash_courier md5_stack (str ''pw'')) = 24 \<and>
    unhex_pairs (md5_hash_raw md5_stack (str ''pw'')) = md5_rfc (str ''pw'') \<and>
    length (md5_hash_raw md5_stack (str ''pw'')) = 32"
  by (rule md5_hashes_ok) (simp_all add: str_def md5_stack_def)

end
