(* ===== verification/Md5_Crypt.thy ===== *)
theory Md5_Crypt
  imports Md5
begin

text \<open>
  The MD5 password hash of md5/redhat-crypt-md5.c (\<open>md5_crypt_redhat\<close>): the salt, the two contexts,
  the loops that feed the digest and the bits of the password length, the thousand rounds and the
  output in its own base 64.  The counts are of the C type unsigned, 32 bits.  The reference
  \<open>md5_crypt_rfc\<close> states the same scheme over whole messages and RFC 1321.
\<close>

section \<open>The code\<close>

definition crypt_base64 :: bytes where
  "crypt_base64 = str ''./0123456789ABCDEFGHIJKLMNOPQRSTUVWXYZabcdefghijklmnopqrstuvwxyz''"

text \<open>A C string is the list of its bytes before the terminating zero, which is read at its end.\<close>

definition cstr_at :: "bytes \<Rightarrow> nat \<Rightarrow> u8" where
  "cstr_at s i = (if i < length s then s ! i else 0)"

definition crypt_skip_magic :: "bytes \<Rightarrow> bytes" where
  "crypt_skip_magic salt =
     (if cstr_at salt 0 = ch CHR ''$'' \<and> cstr_at salt 1 = ch CHR ''1'' \<and> cstr_at salt 2 = ch CHR ''$''
      then drop 3 salt else salt)"

function crypt_salt_len :: "bytes \<Rightarrow> nat \<Rightarrow> nat" where
  "crypt_salt_len salt l =
     (if l < 8 \<and> cstr_at salt l \<noteq> 0 \<and> cstr_at salt l \<noteq> ch CHR ''$'' then crypt_salt_len salt (l + 1) else l)"
  by pat_completeness auto
termination by (relation "measure (\<lambda>(salt, l). 8 - l)") auto

declare crypt_salt_len.simps [simp del]

text \<open>The digest, sixteen bytes at a time, for as many bytes as the password has.\<close>

function crypt_fill :: "bytes \<Rightarrow> u32 \<Rightarrow> md5_context \<Rightarrow> md5_context" where
  "crypt_fill digest i c =
     (if i = 0 then c
      else let j = (if 16 < i then 16 else i)
           in crypt_fill digest (i - j) (md5_context_hashstream c (take (unat j) digest)))"
  by pat_completeness auto
termination
  by (relation "measure (\<lambda>(digest, i, c). unat i)")
    (auto simp: unat_gt_0 word_less_nat_alt unat_sub_if')

declare crypt_fill.simps [simp del]

text \<open>A byte for every bit of the length, with \<open>j\<close> counting: zero for a one, else the first byte.\<close>

function crypt_bits :: "bytes \<Rightarrow> u32 \<Rightarrow> md5_context \<times> u32 \<Rightarrow> md5_context \<times> u32" where
  "crypt_bits pw i = (\<lambda>(c, j).
     (if i = 0 then (c, j)
      else crypt_bits pw (drop_bit 1 i)
             (md5_context_hashstream c (if i AND 1 \<noteq> 0 then [0] else [cstr_at pw 0]), j + 1)))"
  by pat_completeness auto
termination
  by (relation "measure (\<lambda>(pw, i). unat i)") (auto simp: unat_drop_div unat_gt_0)

declare crypt_bits.simps [simp del]

text \<open>One of the thousand rounds.\<close>

definition crypt_round :: "bytes \<Rightarrow> bytes \<Rightarrow> nat \<Rightarrow> md5_context \<times> bytes \<Rightarrow> md5_context \<times> bytes" where
  "crypt_round pw salt i = (\<lambda>(c, digest).
     let pwl = of_nat (length pw) :: u32;
         c = md5_context_init c;
         (c, j) = (if odd i then (md5_context_hashstream c pw, 0 + pwl)
                   else (md5_context_hashstream c digest, 0 + 16));
         (c, j) = (if i mod 3 \<noteq> 0 then (md5_context_hashstream c salt, j + of_nat (length salt)) else (c, j));
         (c, j) = (if i mod 7 \<noteq> 0 then (md5_context_hashstream c pw, j + pwl) else (c, j));
         (c, j) = (if odd i then (md5_context_hashstream c digest, j + 16)
                   else (md5_context_hashstream c pw, j + pwl));
         c = md5_context_endstream c (ucast j)
     in (c, md5_context_digest c))"

text \<open>\<open>n\<close> characters of \<open>j\<close>, the low six bits first.\<close>

fun crypt_to64 :: "nat \<Rightarrow> u32 \<Rightarrow> bytes" where
  "crypt_to64 0 j = []"
| "crypt_to64 (Suc n) j = crypt_base64 ! unat (j AND 63) # crypt_to64 n (drop_bit 6 j)"

definition crypt_output :: "bytes \<Rightarrow> bytes" where
  "crypt_output d =
     concat (map (\<lambda>i. crypt_to64 4 (push_bit 16 (ucast (d ! i)) OR push_bit 8 (ucast (d ! (i + 6)))
       OR ucast (d ! (if i = 4 then 5 else 12 + i)))) [0..<5]) @
     crypt_to64 2 (ucast (d ! 11))"

text \<open>The two contexts are uninitialised on the stack; the result is the text left in \<open>buffer\<close>.\<close>

definition md5_crypt_redhat :: "md5_context \<Rightarrow> md5_context \<Rightarrow> bytes \<Rightarrow> bytes \<Rightarrow> bytes" where
  "md5_crypt_redhat outer inner pw salt =
     (let pwl = of_nat (length pw) :: u32;
          salt = crypt_skip_magic salt;
          l = crypt_salt_len salt 0;
          s = take l salt;
          inner = md5_context_init inner;
          inner = md5_context_hashstream inner pw;
          inner = md5_context_hashstream inner s;
          inner = md5_context_hashstream inner pw;
          inner = md5_context_endstream inner (ucast (pwl * 2 + of_nat l));
          digest = md5_context_digest inner;
          outer = md5_context_init outer;
          outer = md5_context_hashstream outer pw;
          outer = md5_context_hashstream outer (str ''$1$'');
          outer = md5_context_hashstream outer s;
          outer = crypt_fill digest pwl outer;
          (outer, j) = crypt_bits pw pwl (outer, pwl * 2 + of_nat l + 3);
          outer = md5_context_endstream outer (ucast j);
          digest = md5_context_digest outer;
          (outer, digest) = fold (crypt_round pw s) [0..<1000] (outer, digest)
      in str ''$1$'' @ s @ str ''$'' @ crypt_output digest)"

section \<open>The reference\<close>

definition crypt_salt_rfc :: "bytes \<Rightarrow> bytes" where
  "crypt_salt_rfc salt = take 8 (takeWhile (\<lambda>x. x \<noteq> ch CHR ''$'')
     (if take 3 salt = str ''$1$'' then drop 3 salt else salt))"

fun bits_rfc :: "u8 \<Rightarrow> nat \<Rightarrow> bytes" where
  "bits_rfc x n = (if n = 0 then [] else (if odd n then 0 else x) # bits_rfc x (n div 2))"

declare bits_rfc.simps [simp del]

definition crypt_start_rfc :: "bytes \<Rightarrow> bytes \<Rightarrow> bytes" where
  "crypt_start_rfc pw s = md5_rfc (pw @ str ''$1$'' @ s @
     map (\<lambda>k. md5_rfc (pw @ s @ pw) ! (k mod 16)) [0..<length pw] @ bits_rfc (cstr_at pw 0) (length pw))"

definition crypt_round_rfc :: "bytes \<Rightarrow> bytes \<Rightarrow> nat \<Rightarrow> bytes \<Rightarrow> bytes" where
  "crypt_round_rfc pw s i d = md5_rfc ((if odd i then pw else d) @ (if i mod 3 \<noteq> 0 then s else []) @
     (if i mod 7 \<noteq> 0 then pw else []) @ (if odd i then d else pw))"

text \<open>The digest bytes in groups of 24 bits, as digits of base 64 from the lowest.\<close>

definition to64_rfc :: "nat \<Rightarrow> nat \<Rightarrow> bytes" where
  "to64_rfc n v = map (\<lambda>k. crypt_base64 ! (v div 64 ^ k mod 64)) [0..<n]"

definition crypt_output_rfc :: "bytes \<Rightarrow> bytes" where
  "crypt_output_rfc d = (let g = (\<lambda>a b c. to64_rfc 4 (unat (d ! a) * 65536 + unat (d ! b) * 256 + unat (d ! c)))
     in g 0 6 12 @ g 1 7 13 @ g 2 8 14 @ g 3 9 15 @ g 4 10 5 @ to64_rfc 2 (unat (d ! 11)))"

definition md5_crypt_rfc :: "bytes \<Rightarrow> bytes \<Rightarrow> bytes" where
  "md5_crypt_rfc pw salt = (let s = crypt_salt_rfc salt
     in str ''$1$'' @ s @ str ''$'' @
        crypt_output_rfc (fold (crypt_round_rfc pw s) [0..<1000] (crypt_start_rfc pw s)))"

section \<open>The salt\<close>

lemma crypt_salt_len_takeWhile:
  "0 \<notin> set s \<Longrightarrow> l \<le> 8 \<Longrightarrow> crypt_salt_len s l = l + length (take (8 - l) (takeWhile (\<lambda>x. x \<noteq> ch CHR ''$'') (drop l s)))"
proof (induction s l rule: crypt_salt_len.induct)
  case (1 s l)
  show ?case
  proof (cases "l < 8 \<and> l < length s")
    case False
    with "1.prems" show ?thesis by (auto simp: crypt_salt_len.simps[of s l] cstr_at_def)
  next
    case True
    then have d: "drop l s = s ! l # drop (l + 1) s" by (simp add: Cons_nth_drop_Suc)
    have "s ! l \<noteq> 0" using True nth_mem[of l s] "1.prems"(1) by metis
    moreover have "8 - l = Suc (8 - (l + 1))" using True by arith
    ultimately show ?thesis
      using True "1.IH" "1.prems" by (simp add: crypt_salt_len.simps[of s l] cstr_at_def d del: drop_Suc)
  qed
qed

lemma crypt_salt_len_le: "l \<le> length s \<Longrightarrow> crypt_salt_len s l \<le> length s"
proof (induction s l rule: crypt_salt_len.induct)
  case (1 s l)
  then show ?case by (auto simp: crypt_salt_len.simps[of s l] cstr_at_def)
qed

lemma crypt_salt_ok:
  assumes "0 \<notin> set salt"
  shows "take (crypt_salt_len (crypt_skip_magic salt) 0) (crypt_skip_magic salt) = crypt_salt_rfc salt"
proof -
  have t: "take (length (take n (takeWhile P xs))) xs = take n (takeWhile P xs)" for n P and xs :: bytes
    by (metis length_take min.commute take_take takeWhile_eq_take)
  have m: "crypt_skip_magic salt = (if take 3 salt = str ''$1$'' then drop 3 salt else salt)"
  proof -
    have nz: "ch CHR ''$'' \<noteq> 0" "ch CHR ''1'' \<noteq> 0" by code_simp+
    consider "salt = []" | a where "salt = [a]" | a b where "salt = [a, b]"
      | a b c s where "salt = a # b # c # s"
      by (metis neq_Nil_conv)
    then show ?thesis
      using nz nz[symmetric] by cases (simp_all add: crypt_skip_magic_def cstr_at_def str_def)
  qed
  have "0 \<notin> set (crypt_skip_magic salt)"
    using assms by (auto simp: crypt_skip_magic_def dest: in_set_dropD)
  from crypt_salt_len_takeWhile[OF this, of 0]
  have "crypt_salt_len (crypt_skip_magic salt) 0 =
      length (take 8 (takeWhile (\<lambda>x. x \<noteq> ch CHR ''$'') (crypt_skip_magic salt)))" by simp
  then show ?thesis by (simp only: t crypt_salt_rfc_def m)
qed

section \<open>The pieces fed to the context\<close>

abbreviation feed :: "md5_context \<Rightarrow> bytes list \<Rightarrow> md5_context" where
  "feed c ms \<equiv> foldl md5_context_hashstream c ms"

lemma md5_pieces_u32:
  assumes "length (concat ms) < 2 ^ 32" and "length (blk c) = MD5_BLOCK_SIZE"
    and "j = (of_nat (length (concat ms)) :: u32)"
  shows "md5_context_digest (md5_context_endstream (feed (md5_context_init c) ms) (ucast j)) =
    md5_rfc (concat ms)"
proof -
  have "ucast (of_nat n :: u32) = (of_nat n :: u64)" if "n < 2 ^ 32" for n
    using that by (simp add: word_unat_eq_iff unat_ucast_ge unat_of_nat del: length_concat)
  then show ?thesis using md5_pieces_rfc[OF assms(1,2) refl] assms(1,3) by (simp del: length_concat)
qed

lemma crypt_fill_pieces:
  "length d = 16 \<Longrightarrow> \<exists>ms. crypt_fill d i c = feed c ms \<and>
     concat ms = map (\<lambda>k. d ! (k mod 16)) [0..<unat i]"
proof (induction d i c rule: crypt_fill.induct)
  case (1 d i c)
  show ?case
  proof (cases "i = 0")
    case True
    then show ?thesis by (intro exI[of _ "[]"]) (simp add: crypt_fill.simps[of d 0])
  next
    case False
    define j where "j = (if 16 < i then 16 else i)"
    have j: "unat j = min 16 (unat i)" "unat (i - j) = unat i - unat j"
      by (auto simp: j_def word_less_nat_alt unat_sub_if')
    obtain ms where ms: "crypt_fill d (i - j) (md5_context_hashstream c (take (unat j) d)) =
        feed (md5_context_hashstream c (take (unat j) d)) ms"
      "concat ms = map (\<lambda>k. d ! (k mod 16)) [0..<unat (i - j)]"
      using "1.IH"[OF False j_def] "1.prems" by blast
    have "take (unat j) d @ map (\<lambda>k. d ! (k mod 16)) [0..<unat (i - j)] =
        map (\<lambda>k. d ! (k mod 16)) [0..<unat i]"
    proof (cases "16 < unat i")
      case True
      have "[0..<unat i] = [0..<16] @ map (\<lambda>k. k + 16) [0..<unat i - 16]"
        using True upt_add_eq_append[of 0 16 "unat i - 16"] by (simp add: map_add_upt)
      moreover have "d = map (\<lambda>k. d ! (k mod 16)) [0..<16]"
        using "1.prems" by (intro nth_equalityI) auto
      ultimately show ?thesis using True j "1.prems" by simp
    next
      case False
      with j "1.prems" show ?thesis by (intro nth_equalityI) auto
    qed
    with ms False show ?thesis
      by (intro exI[of _ "take (unat j) d # ms"]) (simp add: crypt_fill.simps[of d i] j_def Let_def)
  qed
qed

lemma crypt_bits_pieces:
  "\<exists>ms. crypt_bits pw i (c, j) = (feed c ms, j + of_nat (length (concat ms))) \<and>
     concat ms = bits_rfc (cstr_at pw 0) (unat i)"
proof (induction pw i arbitrary: c j rule: crypt_bits.induct)
  case (1 pw i)
  show ?case
  proof (cases "i = 0")
    case True
    then show ?thesis
      by (intro exI[of _ "[]"]) (simp add: crypt_bits.simps[of pw 0] bits_rfc.simps)
  next
    case False
    let ?b = "if i AND 1 \<noteq> 0 then [0] else [cstr_at pw 0]"
    obtain ms where ms: "crypt_bits pw (drop_bit 1 i) (md5_context_hashstream c ?b, j + 1) =
        (feed (md5_context_hashstream c ?b) ms, j + 1 + of_nat (length (concat ms)))"
      "concat ms = bits_rfc (cstr_at pw 0) (unat (drop_bit 1 i))"
      using "1.IH"[OF False] by blast
    have "(i AND 1 \<noteq> 0) = odd (unat i)"
      using unat_and_low[of 1 1 i] by (simp add: mask_eq_exp_minus_1 odd_iff_mod_2_eq_one flip: unat_eq_0)
    with ms False show ?thesis
      by (intro exI[of _ "?b # ms"])
        (auto simp: crypt_bits.simps[of pw i] unat_drop_div bits_rfc.simps[of _ "unat i"] unat_eq_0)
  qed
qed

lemma length_bits_rfc: "length (bits_rfc x n) \<le> n"
proof (induction x n rule: bits_rfc.induct)
  case (1 x n)
  show ?case
  proof (cases "n = 0")
    case False
    with 1 have "length (bits_rfc x (n div 2)) \<le> n div 2" by blast
    moreover have "Suc (n div 2) \<le> n" using False by arith
    ultimately show ?thesis using False by (simp add: bits_rfc.simps[of x n])
  qed (simp add: bits_rfc.simps)
qed

section \<open>The output\<close>

lemma crypt_to64_rfc: "crypt_to64 n j = to64_rfc n (unat j)"
proof (induction n arbitrary: j)
  case 0
  then show ?case by (simp add: to64_rfc_def)
next
  case (Suc n)
  have "unat (j AND 63) = unat j mod 64"
    by (simp add: unat_and_low[of 6] mask_eq_exp_minus_1)
  with Suc show ?case
    by (simp add: to64_rfc_def unat_drop_div map_upt_Suc div_mult2_eq mult.commute del: upt_Suc)
qed

lemma crypt_group: "unat (push_bit 16 (ucast a) OR push_bit 8 (ucast b) OR (ucast c :: u32)) =
    unat (a :: u8) * 65536 + unat (b :: u8) * 256 + unat (c :: u8)"
proof -
  have lt: "unat (x :: u8) < 256" for x using unsigned_less[of x] by simp
  have "unat (push_bit 8 (ucast b) OR (ucast c :: u32)) = unat b * 256 + unat c"
    using lt[of b] lt[of c] by (subst unat_push_or) (simp_all add: unat_ucast_ge)
  moreover from this have "unat (push_bit 16 (ucast a) OR (push_bit 8 (ucast b) OR (ucast c :: u32))) =
      unat a * 65536 + (unat b * 256 + unat c)"
    using lt[of a] lt[of b] lt[of c] by (subst unat_push_or) (simp_all add: unat_ucast_ge)
  ultimately show ?thesis by (simp add: or.assoc)
qed

lemma crypt_output_ok: "crypt_output d = crypt_output_rfc d"
proof -
  have "[0..<5] = [0, 1, 2, 3, 4::nat]" by (simp add: upt_rec)
  then show ?thesis
    by (simp add: crypt_output_def crypt_output_rfc_def crypt_to64_rfc crypt_group Let_def unat_ucast_ge)
qed

section \<open>The rounds\<close>

lemma md5_hashstream_Nil [simp]: "md5_context_hashstream c [] = c"
  by (simp add: md5_context_hashstream_def context_hashstream.simps)

lemma crypt_round_ok:
  assumes "length (blk c) = MD5_BLOCK_SIZE" and "length d = 16" and "length pw < 2 ^ 30" and "length s \<le> 8"
  shows "case crypt_round pw s i (c, d) of (c', d') \<Rightarrow>
    d' = crypt_round_rfc pw s i d \<and> length (blk c') = MD5_BLOCK_SIZE \<and> length d' = 16"
proof -
  let ?ms = "[if odd i then pw else d, if i mod 3 \<noteq> 0 then s else [],
    if i mod 7 \<noteq> 0 then pw else [], if odd i then d else pw]"
  define j where "j = (of_nat (length (concat ?ms)) :: u32)"
  have "crypt_round pw s i (c, d) = (let c = md5_context_endstream (feed (md5_context_init c) ?ms) (ucast j)
     in (c, md5_context_digest c))"
    using assms(2) by (auto simp: crypt_round_def j_def Let_def algebra_simps)
  moreover have "length (concat ?ms) < 2 ^ 32" using assms(2,3,4) by simp
  note md5_pieces_u32[OF this assms(1) j_def]
  ultimately show ?thesis
    using md5_pieces_blk[OF assms(1), of ?ms "ucast j"] by (simp add: crypt_round_rfc_def Let_def)
qed

lemma crypt_rounds_ok:
  assumes "length pw < 2 ^ 30" and "length s \<le> 8"
  shows "length (blk c) = MD5_BLOCK_SIZE \<Longrightarrow> length d = 16 \<Longrightarrow>
    snd (fold (crypt_round pw s) is (c, d)) = fold (crypt_round_rfc pw s) is d"
proof (induction "is" arbitrary: c d)
  case (Cons i "is")
  obtain c' d' where r: "crypt_round pw s i (c, d) = (c', d')" by fastforce
  with crypt_round_ok[OF Cons.prems assms, of i] Cons.IH[of c' d'] show ?case by auto
qed simp

lemma crypt_start_ok:
  assumes "length (blk c) = MD5_BLOCK_SIZE" and "length pw < 2 ^ 30" and "length s \<le> 8"
    and "d = md5_rfc (pw @ s @ pw)"
    and "crypt_bits pw (of_nat (length pw)) (crypt_fill d (of_nat (length pw))
       (feed (md5_context_init c) [pw, str ''$1$'', s]), of_nat (length pw) * 2 + of_nat (length s) + 3) = (c', j)"
  shows "md5_context_digest (md5_context_endstream c' (ucast j)) = crypt_start_rfc pw s"
    and "length (blk (md5_context_endstream c' (ucast j))) = MD5_BLOCK_SIZE"
proof -
  let ?c = "feed (md5_context_init c) [pw, str ''$1$'', s]" and ?n = "of_nat (length pw) :: u32"
  have n: "unat ?n = length pw" using assms(2) by (simp add: unat_of_nat)
  have d: "length d = 16" using assms(4) by simp
  obtain ms where ms: "crypt_fill d ?n ?c = feed ?c ms"
      "concat ms = map (\<lambda>k. d ! (k mod 16)) [0..<length pw]"
    using crypt_fill_pieces[OF d, of ?n ?c] n by auto
  obtain ns where ns: "crypt_bits pw ?n (feed ?c ms, ?n * 2 + of_nat (length s) + 3) =
      (feed (feed ?c ms) ns, ?n * 2 + of_nat (length s) + 3 + of_nat (length (concat ns)))"
      "concat ns = bits_rfc (cstr_at pw 0) (length pw)"
    using crypt_bits_pieces[of pw ?n "feed ?c ms" "?n * 2 + of_nat (length s) + 3"] n by auto
  let ?ms = "[pw, str ''$1$'', s] @ ms @ ns"
  have c': "c' = feed (md5_context_init c) ?ms"
    and j: "j = ?n * 2 + of_nat (length s) + 3 + of_nat (length (concat ns))"
    using assms(5) ms(1) ns(1) by auto
  have len: "length (concat ?ms) = length pw * 2 + length s + 3 + length (concat ns)"
    using ms(2) by (simp add: str_def del: length_concat)
  have jn: "j = of_nat (length (concat ?ms))" by (simp only: len j) simp
  have "length (concat ?ms) < 2 ^ 32"
    unfolding len ns(2) using length_bits_rfc[of "cstr_at pw 0" "length pw"] assms(2,3) by simp
  from md5_pieces_u32[OF this assms(1) jn]
  show "md5_context_digest (md5_context_endstream c' (ucast j)) = crypt_start_rfc pw s"
    by (simp add: c' crypt_start_rfc_def ms(2) ns(2) assms(4) del: foldl_append)
  show "length (blk (md5_context_endstream c' (ucast j))) = MD5_BLOCK_SIZE"
    unfolding c' by (rule md5_pieces_blk[OF assms(1)])
qed

section \<open>The hash\<close>

text \<open>
  C19: The MD5 password hash computes the scheme over RFC 1321: for every password shorter than
  \<open>2 ^ 30\<close> bytes and every salt string, whatever the uninitialised contexts held, feeding the
  contexts piece by piece, sixteen digest bytes at a time and one byte per bit of the length, with
  the lengths counted in 32 bits, gives \<open>md5_crypt_rfc\<close>.
\<close>

theorem md5_crypt_redhat_ok:
  assumes "length pw < 2 ^ 30" and "0 \<notin> set salt"
    and "length (blk outer) = MD5_BLOCK_SIZE" and "length (blk inner) = MD5_BLOCK_SIZE"
  shows "md5_crypt_redhat outer inner pw salt = md5_crypt_rfc pw salt"
proof -
  let ?t = "crypt_skip_magic salt"
  define s where "s = take (crypt_salt_len ?t 0) ?t"
  have s: "s = crypt_salt_rfc salt" unfolding s_def by (rule crypt_salt_ok[OF assms(2)])
  then have l8: "length s \<le> 8" by (simp add: crypt_salt_rfc_def)
  have l: "crypt_salt_len ?t 0 = length s"
    using crypt_salt_len_le[of 0 ?t] by (simp add: s_def)
  have s': "take (length s) ?t = s" using l by (simp only: s_def)
  let ?n = "of_nat (length pw) :: u32"
  define d where "d = md5_rfc (pw @ s @ pw)"
  have "md5_context_digest (md5_context_endstream (feed (md5_context_init inner) [pw, s, pw])
      (ucast (?n * 2 + of_nat (length s)))) = md5_rfc (concat [pw, s, pw])"
    by (rule md5_pieces_u32[OF _ assms(4)]) (use assms(1) l8 in simp_all)
  then have inner: "md5_context_digest (md5_context_endstream (md5_context_hashstream
      (md5_context_hashstream (md5_context_hashstream (md5_context_init inner) pw) s) pw)
      (ucast (?n * 2 + of_nat (length s)))) = d" by (simp add: d_def)
  obtain c j where c: "crypt_bits pw ?n (crypt_fill d ?n
       (feed (md5_context_init outer) [pw, str ''$1$'', s]), ?n * 2 + of_nat (length s) + 3) = (c, j)"
    by fastforce
  note start = crypt_start_ok[OF assms(3,1) l8 d_def c]
  have "snd (fold (crypt_round pw s) [0..<1000] (md5_context_endstream c (ucast j), crypt_start_rfc pw s)) =
      fold (crypt_round_rfc pw s) [0..<1000] (crypt_start_rfc pw s)"
    by (rule crypt_rounds_ok[OF assms(1) l8 start(2)]) (simp add: crypt_start_rfc_def)
  then show ?thesis
    using c by (simp add: md5_crypt_redhat_def md5_crypt_rfc_def Let_def l s' inner start(1)
        crypt_output_ok case_prod_unfold flip: s)
qed

theorem md5_crypt_redhat_ok_witness:
  "md5_crypt_redhat md5_stack md5_stack (str ''secret'') (str ''$1$saltysalt$x'') =
   md5_crypt_rfc (str ''secret'') (str ''$1$saltysalt$x'')"
  by (rule md5_crypt_redhat_ok) (simp_all add: str_def ch_def md5_stack_def)

end
