(* ===== verification/Encode.thy ===== *)
theory Encode
  imports Base64
begin

text \<open>
  The content transfer encoder of rfc822/encode.c: \<open>libmail_encode_start\<close>, \<open>libmail_encode\<close>,
  \<open>libmail_encode_end\<close> and the three encoding functions \<open>eflush\<close> (no encoding), \<open>base64\<close> and
  \<open>quoted_printable\<close>.  The encoder buffers its output, and hands it to a callback when the buffer is
  full; the base64 encoder buffers its input in lines of 57 bytes; the quoted-printable encoder
  keeps in \<open>input_buffer[0]\<close> whether a space is pending and in \<open>input_buf_cnt\<close> the column.  The
  references are \<open>b64_lines\<close> and \<open>qp_text\<close>, functions of the whole text.
\<close>

section \<open>The state\<close>

text \<open>The function pointer \<open>encoding_func\<close> has three values.\<close>

datatype encoding = Enc_eflush | Enc_base64 | Enc_quoted_printable

record 's libmail_encode_info =
  output_buffer :: bytes
  output_buf_cnt :: nat
  input_buffer :: bytes
  input_buf_cnt :: nat
  encoding_func :: encoding
  callback_arg :: 's

text \<open>\<open>BUFSIZ\<close> of stdio.h; the code relies on its being positive only.\<close>

definition BUFSIZ :: nat where "BUFSIZ = 8192"

definition INPUT_SIZE :: nat where "INPUT_SIZE = 57"

lemmas enc_sizes = BUFSIZ_def INPUT_SIZE_def

section \<open>The operations\<close>

text \<open>The switch looks at the first character of the name (the string's zero when it is empty).\<close>

definition libmail_encode_start ::
  "'s libmail_encode_info \<Rightarrow> bytes \<Rightarrow> 's \<Rightarrow> 's libmail_encode_info" where
  "libmail_encode_start info transfer_encoding arg =
     (let info = info\<lparr>output_buf_cnt := 0, input_buf_cnt := 0\<rparr>;
          c = (case transfer_encoding of [] \<Rightarrow> 0 | x # _ \<Rightarrow> x);
          info = (if c = ch CHR ''q'' \<or> c = ch CHR ''Q''
                    then info\<lparr>encoding_func := Enc_quoted_printable,
                              input_buffer := (input_buffer info)[0 := 0]\<rparr>
                  else if c = ch CHR ''b'' \<or> c = ch CHR ''B'' then info\<lparr>encoding_func := Enc_base64\<rparr>
                  else info\<lparr>encoding_func := Enc_eflush\<rparr>)
      in info\<lparr>callback_arg := arg\<rparr>)"

text \<open>
  The loop copies as much as fits and calls the callback on a full buffer.  The test for a full
  buffer is \<open>==\<close> in the source; the count never exceeds the size, and \<open>\<le>\<close> makes the function total.
\<close>

definition flush_output :: "'s callback \<Rightarrow> 's libmail_encode_info \<Rightarrow> int \<times> 's libmail_encode_info" where
  "flush_output f info =
     (case f (take (output_buf_cnt info) (output_buffer info)) (callback_arg info) of
        (rc, a) \<Rightarrow> (rc, info\<lparr>callback_arg := a, output_buf_cnt := 0\<rparr>))"

function eflush :: "'s callback \<Rightarrow> 's libmail_encode_info \<Rightarrow> bytes \<Rightarrow> int \<times> 's libmail_encode_info" where
  "eflush f info ptr =
     (if ptr = [] then (0, info)
      else case (if BUFSIZ \<le> output_buf_cnt info then flush_output f info else (0, info)) of (rc, info) \<Rightarrow>
        if rc \<noteq> 0 then (rc, info)
        else let i = min (length ptr) (BUFSIZ - output_buf_cnt info)
             in eflush f (info\<lparr>output_buffer := memcpy_at (output_buffer info) (output_buf_cnt info) (take i ptr),
                              output_buf_cnt := output_buf_cnt info + i\<rparr>) (drop i ptr))"
  by pat_completeness auto
termination
  by (relation "measure (\<lambda>(f, info, ptr). length ptr)")
    (auto simp: BUFSIZ_def flush_output_def split: prod.splits if_splits)

declare eflush.simps [simp del]

definition base64_flush :: "'s callback \<Rightarrow> 's libmail_encode_info \<Rightarrow> int \<times> 's libmail_encode_info" where
  "base64_flush f info =
     (let output_buf = base64_loop (take (input_buf_cnt info) (input_buffer info)) 0;
          info = info\<lparr>input_buf_cnt := 0\<rparr>
      in eflush f info (output_buf @ [ch CHR ''\<newline>'']))"

text \<open>The output loop leaves the input side alone.\<close>

definition input_side :: "'s libmail_encode_info \<Rightarrow> bytes \<times> nat \<times> encoding" where
  "input_side info = (input_buffer info, input_buf_cnt info, encoding_func info)"

lemma input_side_flush [simp]: "input_side (snd (flush_output f info)) = input_side info"
  by (simp add: input_side_def flush_output_def split: prod.split)

lemma eflush_input_side [simp]: "input_side (snd (eflush f info ptr)) = input_side info"
proof (induction f info ptr rule: eflush.induct)
  case (1 f info ptr)
  obtain rc info' where r: "(if BUFSIZ \<le> output_buf_cnt info then flush_output f info else (0, info)) = (rc, info')"
    by fastforce
  moreover have "input_side (snd (if BUFSIZ \<le> output_buf_cnt info then flush_output f info else (0, info))) =
      input_side info" by simp
  ultimately have i: "input_side info' = input_side info" by simp
  show ?case
  proof (cases "ptr = [] \<or> rc \<noteq> 0")
    case True
    with r i show ?thesis by (auto simp: eflush.simps[of f info ptr])
  next
    case False
    with "1.IH"[OF _ r[symmetric] _ refl] r i show ?thesis
      by (simp add: eflush.simps[of f info ptr] Let_def input_side_def)
  qed
qed

lemma base64_flush_cnt: "base64_flush f info = r \<Longrightarrow> input_buf_cnt (snd r) = 0"
  using eflush_input_side[of f "info\<lparr>input_buf_cnt := 0\<rparr>"]
  by (auto simp: base64_flush_def input_side_def)

text \<open>The loop of \<open>base64\<close>, and the case of the null pointer, which ends the text.\<close>

function base64 :: "'s callback \<Rightarrow> 's libmail_encode_info \<Rightarrow> bytes \<Rightarrow> int \<times> 's libmail_encode_info" where
  "base64 f info buf =
     (if buf = [] then (0, info)
      else case (if INPUT_SIZE \<le> input_buf_cnt info then base64_flush f info else (0, info)) of (rc, info) \<Rightarrow>
        if rc \<noteq> 0 then (rc, info)
        else let i = min (length buf) (INPUT_SIZE - input_buf_cnt info)
             in base64 f (info\<lparr>input_buffer := memcpy_at (input_buffer info) (input_buf_cnt info) (take i buf),
                              input_buf_cnt := input_buf_cnt info + i\<rparr>) (drop i buf))"
  by pat_completeness auto
termination
  by (relation "measure (\<lambda>(f, info, buf). length buf)")
    (auto simp: INPUT_SIZE_def split: prod.splits if_splits dest!: base64_flush_cnt[OF sym])

declare base64.simps [simp del]

definition base64_end :: "'s callback \<Rightarrow> 's libmail_encode_info \<Rightarrow> int \<times> 's libmail_encode_info" where
  "base64_end f info = (if 0 < input_buf_cnt info then base64_flush f info else (0, info))"

text \<open>
  \<open>QPUT\<close> collects in the local buffer of 256 bytes; the pair holds the encoder and that buffer.  A
  \<open>char\<close> is signed.
\<close>

definition QPUT :: "'s callback \<Rightarrow> u8 \<Rightarrow> 's libmail_encode_info \<times> bytes \<Rightarrow>
    int \<times> 's libmail_encode_info \<times> bytes" where
  "QPUT f c = (\<lambda>(info, local_buf).
     rc_bind (if length local_buf = 256
              then (case eflush f info local_buf of (rc, info) \<Rightarrow> (rc, info, []))
              else (0, info, local_buf))
       (\<lambda>(info, local_buf). (0, info, local_buf @ [c])) (\<lambda>s. s))"

fun QPUTs :: "'s callback \<Rightarrow> bytes \<Rightarrow> 's libmail_encode_info \<times> bytes \<Rightarrow>
    int \<times> 's libmail_encode_info \<times> bytes" where
  "QPUTs f [] s = (0, s)"
| "QPUTs f (c # cs) s = rc_then (QPUT f c s) (QPUTs f cs)"

definition xdigit :: bytes where "xdigit = str ''0123456789ABCDEF''"

definition qp_escape :: "u8 \<Rightarrow> bytes" where
  "qp_escape p = [ch CHR ''='', xdigit ! unat (drop_bit 4 p AND 15), xdigit ! unat (p AND 15)]"

text \<open>One turn of the loop of \<open>quoted_printable\<close>, over the character \<open>p\<close>.\<close>

definition qp_pending :: "'s callback \<Rightarrow> u8 \<Rightarrow> 's libmail_encode_info \<times> bytes \<Rightarrow>
    int \<times> 's libmail_encode_info \<times> bytes" where
  "qp_pending f p s =
     rc_then (if input_buffer (fst s) ! 0 \<noteq> 0
              then rc_then (QPUTs f (if p = ch CHR ''\<newline>'' then str ''=20'' else str '' '') s)
                     (\<lambda>(info, lb). (0, info\<lparr>input_buf_cnt := input_buf_cnt info + 1\<rparr>, lb))
              else (0, s))
       (\<lambda>(info, lb). (0, info\<lparr>input_buffer := (input_buffer info)[0 := 0]\<rparr>, lb))"

definition qp_softbreak :: "'s callback \<Rightarrow> u8 \<Rightarrow> 's libmail_encode_info \<times> bytes \<Rightarrow>
    int \<times> 's libmail_encode_info \<times> bytes" where
  "qp_softbreak f p s =
     (if 72 < input_buf_cnt (fst s) \<and> p \<noteq> ch CHR ''\<newline>''
      then rc_then (QPUTs f (str ''=\<newline>'') s) (\<lambda>(info, lb). (0, info\<lparr>input_buf_cnt := 0\<rparr>, lb))
      else (0, s))"

definition qp_char :: "'s callback \<Rightarrow> u8 \<Rightarrow> 's libmail_encode_info \<times> bytes \<Rightarrow>
    int \<times> 's libmail_encode_info \<times> bytes" where
  "qp_char f p s =
     rc_then (qp_pending f p s) (\<lambda>(info, lb).
       if p = ch CHR '' '' then (0, info\<lparr>input_buffer := (input_buffer info)[0 := 1]\<rparr>, lb)
       else rc_then (qp_softbreak f p (info, lb)) (\<lambda>(info, lb).
         if p = ch CHR ''\<newline>'' then QPUT f p (info\<lparr>input_buf_cnt := 0\<rparr>, lb)
         else if sint p < 32 \<or> p = ch CHR ''='' \<or> 127 \<le> sint p
         then rc_then (QPUTs f (qp_escape p) (info, lb))
                (\<lambda>(info, lb). (0, info\<lparr>input_buf_cnt := input_buf_cnt info + 3\<rparr>, lb))
         else QPUT f p (info\<lparr>input_buf_cnt := input_buf_cnt info + 1\<rparr>, lb)))"

fun qp_loop :: "'s callback \<Rightarrow> bytes \<Rightarrow> 's libmail_encode_info \<times> bytes \<Rightarrow>
    int \<times> 's libmail_encode_info \<times> bytes" where
  "qp_loop f [] s = (0, s)"
| "qp_loop f (p # ps) s = rc_then (qp_char f p s) (qp_loop f ps)"

definition quoted_printable ::
  "'s callback \<Rightarrow> 's libmail_encode_info \<Rightarrow> bytes \<Rightarrow> int \<times> 's libmail_encode_info" where
  "quoted_printable f info p =
     rc_bind (qp_loop f p (info, []))
       (\<lambda>(info, local_buf). if local_buf \<noteq> [] then eflush f info local_buf else (0, info)) fst"

text \<open>The calls through the function pointer; with a null pointer \<open>eflush\<close> and the other do nothing.\<close>

definition libmail_encode ::
  "'s callback \<Rightarrow> 's libmail_encode_info \<Rightarrow> bytes \<Rightarrow> int \<times> 's libmail_encode_info" where
  "libmail_encode f info ptr = (case encoding_func info of
     Enc_eflush \<Rightarrow> eflush f info ptr
   | Enc_base64 \<Rightarrow> base64 f info ptr
   | Enc_quoted_printable \<Rightarrow> quoted_printable f info ptr)"

definition libmail_encode_end ::
  "'s callback \<Rightarrow> 's libmail_encode_info \<Rightarrow> int \<times> 's libmail_encode_info" where
  "libmail_encode_end f info =
     (case (case encoding_func info of
         Enc_eflush \<Rightarrow> eflush f info []
       | Enc_base64 \<Rightarrow> base64_end f info
       | Enc_quoted_printable \<Rightarrow> (0, info)) of
        (rc, info) \<Rightarrow> if rc = 0 \<and> 0 < output_buf_cnt info then flush_output f info else (rc, info))"

section \<open>The references\<close>

function b64_lines :: "bytes \<Rightarrow> bytes" where
  "b64_lines xs = (if xs = [] then [] else rfc4648 (take 57 xs) @ [ch CHR ''\<newline>''] @ b64_lines (drop 57 xs))"
  by pat_completeness auto
termination by (relation "measure length") auto

declare b64_lines.simps [simp del]

text \<open>
  The quoted-printable text of a character, from the pending space and the column, with the new
  column; and of a whole text.
\<close>

definition qp_plain :: "u8 \<Rightarrow> bool" where
  "qp_plain p \<longleftrightarrow> 32 \<le> p \<and> p < 127 \<and> p \<noteq> ch CHR ''=''"

fun qp_step :: "bool \<times> nat \<Rightarrow> u8 \<Rightarrow> (bool \<times> nat) \<times> bytes" where
  "qp_step (sp, col) p =
     (let pre = (if sp then if p = ch CHR ''\<newline>'' then str ''=20'' else str '' '' else []);
          col = (if sp then col + 1 else col);
          brk = 72 < col
      in if p = ch CHR '' '' then ((True, col), pre)
         else if p = ch CHR ''\<newline>'' then ((False, 0), pre @ [p])
         else let t = (if qp_plain p then [p] else qp_escape p)
              in ((False, (if brk then 0 else col) + length t), pre @ (if brk then str ''=\<newline>'' else []) @ t))"

fun qp_text :: "bool \<times> nat \<Rightarrow> bytes \<Rightarrow> (bool \<times> nat) \<times> bytes" where
  "qp_text s [] = (s, [])"
| "qp_text s (p # ps) =
     (case qp_step s p of (s', out) \<Rightarrow> case qp_text s' ps of (s'', out') \<Rightarrow> (s'', out @ out'))"

definition encoded :: "encoding \<Rightarrow> bytes \<Rightarrow> bytes" where
  "encoded e xs = (case e of Enc_eflush \<Rightarrow> xs | Enc_base64 \<Rightarrow> b64_lines xs
     | Enc_quoted_printable \<Rightarrow> snd (qp_text (False, 0) xs))"

section \<open>The buffers are transparent\<close>

definition held :: "'s libmail_encode_info \<Rightarrow> bytes" where
  "held info = take (input_buf_cnt info) (input_buffer info)"

definition qp_state :: "'s libmail_encode_info \<Rightarrow> bool \<times> nat" where
  "qp_state info = (input_buffer info ! 0 \<noteq> 0, input_buf_cnt info)"

definition wf_enc :: "'s libmail_encode_info \<Rightarrow> bool" where
  "wf_enc info \<longleftrightarrow> length (output_buffer info) = BUFSIZ \<and> output_buf_cnt info \<le> BUFSIZ \<and>
     length (input_buffer info) = INPUT_SIZE"

lemma b64_lines_full: "length xs = 57 \<Longrightarrow>
    b64_lines (xs @ zs) = rfc4648 xs @ [ch CHR ''\<newline>''] @ b64_lines zs"
  by (subst b64_lines.simps) auto

lemma b64_lines_last: "xs \<noteq> [] \<Longrightarrow> length xs \<le> 57 \<Longrightarrow> b64_lines xs = rfc4648 xs @ [ch CHR ''\<newline>'']"
  by (subst b64_lines.simps) (simp add: b64_lines.simps[of "[]"])

lemma take_memcpy_end: "n + length xs \<le> length buf \<Longrightarrow>
    take (n + length xs) (memcpy_at buf n xs) = take n buf @ xs"
  by (cases xs) (auto simp: memcpy_at_def min_def)

lemma qp_plain_char: "(sint p < 32 \<or> p = ch CHR ''='' \<or> 127 \<le> sint p) = (\<not> qp_plain p)"
by (rule byte_cases) code_simp

context sink
begin

definition emitted :: "'s libmail_encode_info \<Rightarrow> bytes" where
  "emitted info = text_of (callback_arg info) @ take (output_buf_cnt info) (output_buffer info)"

lemma flush_output_spec:
  assumes "wf_enc info"
  obtains info' where "flush_output f info = (0, info')" "wf_enc info'" "emitted info' = emitted info"
    "text_of (callback_arg info') = emitted info" "output_buf_cnt info' = 0" "input_side info' = input_side info"
proof -
  obtain s' where "f (take (output_buf_cnt info) (output_buffer info)) (callback_arg info) = (0, s')"
    "text_of s' = text_of (callback_arg info) @ take (output_buf_cnt info) (output_buffer info)"
    by (rule callback_cases)
  with assms show ?thesis
    by (intro that[of "info\<lparr>callback_arg := s', output_buf_cnt := 0\<rparr>"])
      (simp_all add: flush_output_def emitted_def wf_enc_def input_side_def)
qed

lemma eflush_spec:
  "wf_enc info \<Longrightarrow> \<exists>info'. eflush f info ptr = (0, info') \<and> wf_enc info' \<and> emitted info' = emitted info @ ptr"
proof (induction "length ptr" arbitrary: info ptr rule: less_induct)
  case less
  show ?case
  proof (cases "ptr = []")
    case True
    with less.prems show ?thesis by (simp add: eflush.simps)
  next
    case False
    obtain info1 where i1: "(if BUFSIZ \<le> output_buf_cnt info then flush_output f info else (0, info)) = (0, info1)"
      "wf_enc info1" "emitted info1 = emitted info" "output_buf_cnt info1 < BUFSIZ"
    proof (cases "BUFSIZ \<le> output_buf_cnt info")
      case True
      with flush_output_spec[OF less.prems] that show ?thesis
        by (metis BUFSIZ_def zero_less_numeral)
    qed (use less.prems that in auto)
    let ?i = "min (length ptr) (BUFSIZ - output_buf_cnt info1)"
    let ?info = "info1\<lparr>output_buffer := memcpy_at (output_buffer info1) (output_buf_cnt info1) (take ?i ptr),
      output_buf_cnt := output_buf_cnt info1 + ?i\<rparr>"
    have e: "eflush f info ptr = eflush f ?info (drop ?i ptr)"
      using False i1(1) by (simp add: eflush.simps[of f info ptr] Let_def)
    have wf: "wf_enc ?info" using i1(2,4) by (simp add: wf_enc_def memcpy_at_def)
    have "length (take ?i ptr) = ?i" by simp
    then have em: "emitted ?info = emitted info1 @ take ?i ptr"
      using take_memcpy_end[of "output_buf_cnt info1" "take ?i ptr" "output_buffer info1"] i1(2,4)
      by (simp add: emitted_def wf_enc_def)
    have "length (drop ?i ptr) < length ptr" using False i1(4) by simp
    from less.hyps[OF this wf] em show ?thesis by (auto simp: e i1(3))
  qed
qed

lemma base64_flush_spec:
  assumes "wf_enc info" "input_buf_cnt info \<le> INPUT_SIZE"
  obtains info' where "base64_flush f info = (0, info')" "wf_enc info'" "input_buf_cnt info' = 0"
    "emitted info' = emitted info @ rfc4648 (held info) @ [ch CHR ''\<newline>'']"
    "encoding_func info' = encoding_func info"
proof -
  let ?o = "rfc4648 (held info) @ [ch CHR ''\<newline>'']" and ?info = "info\<lparr>input_buf_cnt := 0\<rparr>"
  have "wf_enc ?info" using assms by (simp add: wf_enc_def)
  from eflush_spec[OF this, of ?o] obtain info' where
    i: "eflush f ?info ?o = (0, info')" "wf_enc info'" "emitted info' = emitted ?info @ ?o" by auto
  moreover have "emitted ?info = emitted info" by (simp add: emitted_def)
  moreover have "base64_flush f info = eflush f ?info ?o"
    by (simp add: base64_flush_def base64_loop_rfc4648 held_def)
  moreover have "input_side info' = input_side ?info"
    using eflush_input_side[of f ?info ?o] i(1) by simp
  ultimately show ?thesis by (intro that[of info']) (simp_all add: input_side_def)
qed

lemma base64_spec:
  "wf_enc info \<Longrightarrow> input_buf_cnt info \<le> INPUT_SIZE \<Longrightarrow>
   \<exists>info'. base64 f info buf = (0, info') \<and> wf_enc info' \<and> input_buf_cnt info' \<le> INPUT_SIZE \<and>
     encoding_func info' = encoding_func info \<and>
     (\<forall>zs. emitted info' @ b64_lines (held info' @ zs) = emitted info @ b64_lines (held info @ buf @ zs))"
proof (induction "length buf" arbitrary: info buf rule: less_induct)
  case less
  show ?case
  proof (cases "buf = []")
    case True
    with less.prems show ?thesis by (simp add: base64.simps)
  next
    case False
    obtain info1 where i1: "(if INPUT_SIZE \<le> input_buf_cnt info then base64_flush f info else (0, info)) = (0, info1)"
      "wf_enc info1" "input_buf_cnt info1 < INPUT_SIZE" "encoding_func info1 = encoding_func info"
      "\<And>zs. emitted info1 @ b64_lines (held info1 @ zs) = emitted info @ b64_lines (held info @ zs)"
    proof (cases "INPUT_SIZE \<le> input_buf_cnt info")
      case True
      obtain info1 where f: "base64_flush f info = (0, info1)" "wf_enc info1" "input_buf_cnt info1 = 0"
        "emitted info1 = emitted info @ rfc4648 (held info) @ [ch CHR ''\<newline>'']"
        "encoding_func info1 = encoding_func info"
        by (rule base64_flush_spec[OF less.prems])
      have "length (held info) = 57" using True less.prems by (simp add: held_def wf_enc_def INPUT_SIZE_def)
      with f True show ?thesis
        by (intro that[of info1]) (simp_all add: b64_lines_full held_def INPUT_SIZE_def)
    qed (use less.prems that in auto)
    let ?i = "min (length buf) (INPUT_SIZE - input_buf_cnt info1)"
    let ?info = "info1\<lparr>input_buffer := memcpy_at (input_buffer info1) (input_buf_cnt info1) (take ?i buf),
      input_buf_cnt := input_buf_cnt info1 + ?i\<rparr>"
    have e: "base64 f info buf = base64 f ?info (drop ?i buf)"
      using False i1(1) by (simp add: base64.simps[of f info buf] Let_def)
    have wf: "wf_enc ?info" "input_buf_cnt ?info \<le> INPUT_SIZE"
      using i1(2,3) by (simp_all add: wf_enc_def memcpy_at_def)
    have "length (take ?i buf) = ?i" by simp
    then have h: "held ?info = held info1 @ take ?i buf"
      using take_memcpy_end[of "input_buf_cnt info1" "take ?i buf" "input_buffer info1"] i1(2,3)
      by (simp add: held_def wf_enc_def)
    have td: "take ?i buf @ drop ?i buf @ zs = buf @ zs" for zs
      by (simp only: append_take_drop_id flip: append_assoc)
    have em: "emitted ?info = emitted info1" by (simp add: emitted_def)
    have "length (drop ?i buf) < length buf" using False i1(3) by simp
    from less.hyps[OF this wf] show ?thesis
      unfolding e h em using i1(4,5) td by auto
  qed
qed

text \<open>The quoted-printable encoder: what is in the two buffers is the text so far.\<close>

definition put :: "'s libmail_encode_info \<times> bytes \<Rightarrow> bytes" where
  "put s = emitted (fst s) @ snd s"

definition ok_qp :: "'s libmail_encode_info \<times> bytes \<Rightarrow> bool" where
  "ok_qp s \<longleftrightarrow> wf_enc (fst s) \<and> length (snd s) \<le> 256"

lemma QPUT_spec:
  assumes "ok_qp s"
  obtains s' where "QPUT f c s = (0, s')" "ok_qp s'" "put s' = put s @ [c]"
    "input_side (fst s') = input_side (fst s)"
proof -
  obtain info lb where s: "s = (info, lb)" by fastforce
  show ?thesis
  proof (cases "length lb = 256")
    case True
    from assms have "wf_enc info" by (simp add: ok_qp_def s)
    from eflush_spec[OF this, of lb] obtain info' where
      i: "eflush f info lb = (0, info')" "wf_enc info'" "emitted info' = emitted info @ lb" by auto
    moreover from this have "input_side info' = input_side info" using eflush_input_side[of f info lb] by simp
    ultimately show ?thesis
      using True by (intro that[of "(info', [c])"]) (simp_all add: QPUT_def s ok_qp_def put_def)
  next
    case False
    with assms show ?thesis
      by (intro that[of "(info, lb @ [c])"]) (simp_all add: QPUT_def s ok_qp_def put_def)
  qed
qed

lemma QPUTs_spec:
  "ok_qp s \<Longrightarrow> \<exists>s'. QPUTs f cs s = (0, s') \<and> ok_qp s' \<and> put s' = put s @ cs \<and>
     input_side (fst s') = input_side (fst s)"
proof (induction cs arbitrary: s)
  case Nil
  then show ?case by simp
next
  case (Cons c cs)
  obtain s' where "QPUT f c s = (0, s')" "ok_qp s'" "put s' = put s @ [c]"
    "input_side (fst s') = input_side (fst s)" by (rule QPUT_spec[OF Cons.prems])
  with Cons.IH[of s'] show ?case by simp
qed

lemma emitted_input [simp]:
  "emitted (info\<lparr>input_buffer := b\<rparr>) = emitted info" "emitted (info\<lparr>input_buf_cnt := n\<rparr>) = emitted info"
  by (simp_all add: emitted_def)

lemma wf_enc_input [simp]:
  "length b = length (input_buffer info) \<Longrightarrow> wf_enc (info\<lparr>input_buffer := b\<rparr>) = wf_enc info"
  "wf_enc (info\<lparr>input_buf_cnt := n\<rparr>) = wf_enc info"
  by (simp_all add: wf_enc_def)

lemma qp_pending_spec:
  assumes "ok_qp s"
  obtains s' where "qp_pending f p s = (0, s')" "ok_qp s'"
    "put s' = put s @ (if fst (qp_state (fst s)) then if p = ch CHR ''\<newline>'' then str ''=20'' else str '' '' else [])"
    "qp_state (fst s') = (False, snd (qp_state (fst s)) + (if fst (qp_state (fst s)) then 1 else 0))"
    "encoding_func (fst s') = encoding_func (fst s)"
proof -
  let ?t = "if p = ch CHR ''\<newline>'' then str ''=20'' else str '' ''"
  obtain info lb where s: "s = (info, lb)" by fastforce
  have len: "0 < length (input_buffer info)" using assms by (simp add: ok_qp_def s wf_enc_def INPUT_SIZE_def)
  show ?thesis
  proof (cases "input_buffer info ! 0 = 0")
    case True
    with assms len show ?thesis
      by (intro that[of "(info\<lparr>input_buffer := (input_buffer info)[0 := 0]\<rparr>, lb)"])
        (simp_all add: qp_pending_def s ok_qp_def put_def qp_state_def)
  next
    case False
    obtain info' lb' where q: "QPUTs f ?t s = (0, info', lb')" "ok_qp (info', lb')" "put (info', lb') = put s @ ?t"
      "input_side info' = input_side info" using QPUTs_spec[OF assms, of ?t] by (auto simp: s)
    then have "0 < length (input_buffer info')" "input_buf_cnt info' = input_buf_cnt info"
      "encoding_func info' = encoding_func info"
      using len by (simp_all add: input_side_def)
    with q False show ?thesis
      by (intro that[of "(info'\<lparr>input_buf_cnt := input_buf_cnt info' + 1,
             input_buffer := (input_buffer info')[0 := 0]\<rparr>, lb')"])
        (simp_all add: qp_pending_def s ok_qp_def put_def qp_state_def)
  qed
qed

lemma qp_softbreak_spec:
  assumes "ok_qp s"
  obtains s' where "qp_softbreak f p s = (0, s')" "ok_qp s'"
    "put s' = put s @ (if 72 < snd (qp_state (fst s)) \<and> p \<noteq> ch CHR ''\<newline>'' then str ''=\<newline>'' else [])"
    "qp_state (fst s') = (fst (qp_state (fst s)),
       if 72 < snd (qp_state (fst s)) \<and> p \<noteq> ch CHR ''\<newline>'' then 0 else snd (qp_state (fst s)))"
    "encoding_func (fst s') = encoding_func (fst s)"
proof (cases "72 < snd (qp_state (fst s)) \<and> p \<noteq> ch CHR ''\<newline>''")
  case False
  with assms that[of s] show ?thesis by (auto simp: qp_softbreak_def qp_state_def)
next
  case True
  obtain info' lb' where q: "QPUTs f (str ''=\<newline>'') s = (0, info', lb')" "ok_qp (info', lb')"
    "put (info', lb') = put s @ str ''=\<newline>''" "input_side info' = input_side (fst s)"
    using QPUTs_spec[OF assms, of "str ''=\<newline>''"] by auto
  with True show ?thesis
    by (intro that[of "(info'\<lparr>input_buf_cnt := 0\<rparr>, lb')"])
      (simp_all add: qp_softbreak_def ok_qp_def put_def qp_state_def input_side_def)
qed

lemma qp_char_spec:
  assumes "ok_qp s"
  obtains s' where "qp_char f p s = (0, s')" "ok_qp s'"
    "qp_state (fst s') = fst (qp_step (qp_state (fst s)) p)"
    "put s' = put s @ snd (qp_step (qp_state (fst s)) p)"
    "encoding_func (fst s') = encoding_func (fst s)"
proof -
  obtain info1 lb1 where p1: "qp_pending f p s = (0, info1, lb1)" "ok_qp (info1, lb1)"
    "put (info1, lb1) = put s @
       (if fst (qp_state (fst s)) then if p = ch CHR ''\<newline>'' then str ''=20'' else str '' '' else [])"
    "qp_state info1 = (False, snd (qp_state (fst s)) + (if fst (qp_state (fst s)) then 1 else 0))"
    "encoding_func info1 = encoding_func (fst s)"
    by (rule qp_pending_spec[OF assms, of p]) (metis fst_conv prod.exhaust)
  obtain sp col where st: "qp_state (fst s) = (sp, col)" by fastforce
  have len1: "0 < length (input_buffer info1)" using p1(2) by (simp add: ok_qp_def wf_enc_def INPUT_SIZE_def)
  show ?thesis
  proof (cases "p = ch CHR '' ''")
    case True
    with p1 len1 st show ?thesis
      by (intro that[of "(info1\<lparr>input_buffer := (input_buffer info1)[0 := 1]\<rparr>, lb1)"])
        (auto simp: qp_char_def ok_qp_def put_def qp_state_def)
  next
    case False
    obtain info2 lb2 where p2: "qp_softbreak f p (info1, lb1) = (0, info2, lb2)" "ok_qp (info2, lb2)"
      "put (info2, lb2) = put (info1, lb1) @
         (if 72 < snd (qp_state info1) \<and> p \<noteq> ch CHR ''\<newline>'' then str ''=\<newline>'' else [])"
      "qp_state info2 = (fst (qp_state info1),
         if 72 < snd (qp_state info1) \<and> p \<noteq> ch CHR ''\<newline>'' then 0 else snd (qp_state info1))"
      "encoding_func info2 = encoding_func info1"
      by (rule qp_softbreak_spec[OF p1(2), of p]) (metis fst_conv prod.exhaust)
    consider (nl) "p = ch CHR ''\<newline>''" | (esc) "p \<noteq> ch CHR ''\<newline>''" "\<not> qp_plain p"
      | (plain) "p \<noteq> ch CHR ''\<newline>''" "qp_plain p" by blast
    then show ?thesis
    proof cases
      case nl
      have "ok_qp (info2\<lparr>input_buf_cnt := 0\<rparr>, lb2)" using p2(2) by (simp add: ok_qp_def)
      then obtain s' where "QPUT f p (info2\<lparr>input_buf_cnt := 0\<rparr>, lb2) = (0, s')" "ok_qp s'"
        "put s' = put (info2\<lparr>input_buf_cnt := 0\<rparr>, lb2) @ [p]"
        "input_side (fst s') = input_side (fst (info2\<lparr>input_buf_cnt := 0\<rparr>, lb2))" by (rule QPUT_spec)
      with p1 p2 nl False st show ?thesis
        by (intro that[of s']) (auto simp: qp_char_def put_def qp_state_def input_side_def Let_def)
    next
      case esc
      obtain info3 lb3 where "QPUTs f (qp_escape p) (info2, lb2) = (0, info3, lb3)" "ok_qp (info3, lb3)"
        "put (info3, lb3) = put (info2, lb2) @ qp_escape p" "input_side info3 = input_side info2"
        using QPUTs_spec[OF p2(2), of "qp_escape p"] by auto
      moreover have "length (qp_escape p) = 3" by (simp add: qp_escape_def)
      ultimately show ?thesis
        using p1 p2 esc False st
        by (intro that[of "(info3\<lparr>input_buf_cnt := input_buf_cnt info3 + 3\<rparr>, lb3)"])
          (auto simp: qp_char_def put_def ok_qp_def qp_state_def input_side_def Let_def qp_plain_char)
    next
      case plain
      let ?i = "info2\<lparr>input_buf_cnt := input_buf_cnt info2 + 1\<rparr>"
      have "ok_qp (?i, lb2)" using p2(2) by (simp add: ok_qp_def)
      then obtain s' where "QPUT f p (?i, lb2) = (0, s')" "ok_qp s'" "put s' = put (?i, lb2) @ [p]"
        "input_side (fst s') = input_side (fst (?i, lb2))" by (rule QPUT_spec)
      with p1 p2 plain False st show ?thesis
        by (intro that[of s']) (auto simp: qp_char_def put_def qp_state_def input_side_def Let_def qp_plain_char)
    qed
  qed
qed

lemma qp_loop_spec:
  "ok_qp s \<Longrightarrow> \<exists>s'. qp_loop f ps s = (0, s') \<and> ok_qp s' \<and>
     qp_state (fst s') = fst (qp_text (qp_state (fst s)) ps) \<and>
     put s' = put s @ snd (qp_text (qp_state (fst s)) ps) \<and> encoding_func (fst s') = encoding_func (fst s)"
proof (induction ps arbitrary: s)
  case Nil
  then show ?case by simp
next
  case (Cons p ps)
  obtain s1 where s1: "qp_char f p s = (0, s1)" "ok_qp s1"
    "qp_state (fst s1) = fst (qp_step (qp_state (fst s)) p)"
    "put s1 = put s @ snd (qp_step (qp_state (fst s)) p)"
    "encoding_func (fst s1) = encoding_func (fst s)" by (rule qp_char_spec[OF Cons.prems])
  from Cons.IH[OF s1(2)] obtain s2 where s2: "qp_loop f ps s1 = (0, s2)" "ok_qp s2"
    "qp_state (fst s2) = fst (qp_text (qp_state (fst s1)) ps)"
    "put s2 = put s1 @ snd (qp_text (qp_state (fst s1)) ps)" "encoding_func (fst s2) = encoding_func (fst s1)"
    by blast
  show ?case
    using s1 s2 by (simp add: case_prod_unfold)
qed

lemma quoted_printable_spec:
  assumes "wf_enc info"
  obtains info' where "quoted_printable f info ps = (0, info')" "wf_enc info'"
    "qp_state info' = fst (qp_text (qp_state info) ps)"
    "emitted info' = emitted info @ snd (qp_text (qp_state info) ps)"
    "encoding_func info' = encoding_func info"
proof -
  have "ok_qp (info, [])" using assms by (simp add: ok_qp_def)
  from qp_loop_spec[OF this, of ps] obtain info1 lb where q: "qp_loop f ps (info, []) = (0, info1, lb)" "wf_enc info1"
    "qp_state info1 = fst (qp_text (qp_state info) ps)"
    "emitted info1 @ lb = emitted info @ snd (qp_text (qp_state info) ps)" "encoding_func info1 = encoding_func info"
    by (auto simp: ok_qp_def put_def)
  show ?thesis
  proof (cases "lb = []")
    case True
    with q show ?thesis by (intro that[of info1]) (simp_all add: quoted_printable_def)
  next
    case False
    from eflush_spec[OF q(2), of lb] obtain info2 where "eflush f info1 lb = (0, info2)" "wf_enc info2"
      "emitted info2 = emitted info1 @ lb" by auto
    moreover from this have "input_side info2 = input_side info1" using eflush_input_side[of f info1 lb] by simp
    ultimately show ?thesis
      using q False by (intro that[of info2]) (simp_all add: quoted_printable_def qp_state_def input_side_def)
  qed
qed

text \<open>A text encoded in pieces.\<close>

definition encode_all :: "'s libmail_encode_info \<Rightarrow> bytes list \<Rightarrow> 's libmail_encode_info" where
  "encode_all info ms = fold (\<lambda>m i. snd (libmail_encode f i m)) ms info"

lemma encode_all_eflush:
  "wf_enc info \<Longrightarrow> encoding_func info = Enc_eflush \<Longrightarrow> wf_enc (encode_all info ms) \<and>
     encoding_func (encode_all info ms) = Enc_eflush \<and> emitted (encode_all info ms) = emitted info @ concat ms"
proof (induction ms arbitrary: info)
  case (Cons m ms)
  from eflush_spec[OF Cons.prems(1), of m] obtain info' where
    i: "eflush f info m = (0, info')" "wf_enc info'" "emitted info' = emitted info @ m" by blast
  moreover have "input_side info' = input_side info" using eflush_input_side[of f info m] i(1) by simp
  ultimately show ?case
    using Cons.IH[of info'] Cons.prems(2) by (simp add: encode_all_def libmail_encode_def input_side_def)
qed (simp add: encode_all_def)

lemma encode_all_base64:
  "wf_enc info \<Longrightarrow> encoding_func info = Enc_base64 \<Longrightarrow> input_buf_cnt info \<le> INPUT_SIZE \<Longrightarrow>
     wf_enc (encode_all info ms) \<and> encoding_func (encode_all info ms) = Enc_base64 \<and>
     input_buf_cnt (encode_all info ms) \<le> INPUT_SIZE \<and>
     (\<forall>zs. emitted (encode_all info ms) @ b64_lines (held (encode_all info ms) @ zs) =
        emitted info @ b64_lines (held info @ concat ms @ zs))"
proof (induction ms arbitrary: info)
  case (Cons m ms)
  from base64_spec[OF Cons.prems(1,3), of m] obtain info' where
    "base64 f info m = (0, info')" "wf_enc info'" "input_buf_cnt info' \<le> INPUT_SIZE"
    "encoding_func info' = encoding_func info"
    "\<And>zs. emitted info' @ b64_lines (held info' @ zs) = emitted info @ b64_lines (held info @ m @ zs)" by blast
  then show ?case
    using Cons.IH[of info'] Cons.prems(2) by (simp add: encode_all_def libmail_encode_def)
qed (simp add: encode_all_def)

lemma qp_text_append:
  "qp_text s (xs @ ys) = (case qp_text s xs of (s', o1) \<Rightarrow> case qp_text s' ys of (s'', o2) \<Rightarrow> (s'', o1 @ o2))"
  by (induction xs arbitrary: s) (auto split: prod.splits)

lemma encode_all_qp:
  "wf_enc info \<Longrightarrow> encoding_func info = Enc_quoted_printable \<Longrightarrow> wf_enc (encode_all info ms) \<and>
     encoding_func (encode_all info ms) = Enc_quoted_printable \<and>
     emitted (encode_all info ms) = emitted info @ snd (qp_text (qp_state info) (concat ms))"
proof (induction ms arbitrary: info)
  case (Cons m ms)
  obtain info' where "quoted_printable f info m = (0, info')" "wf_enc info'"
    "qp_state info' = fst (qp_text (qp_state info) m)"
    "emitted info' = emitted info @ snd (qp_text (qp_state info) m)" "encoding_func info' = encoding_func info"
    by (rule quoted_printable_spec[OF Cons.prems(1)])
  then show ?case
    using Cons.IH[of info'] Cons.prems(2)
    by (simp add: encode_all_def libmail_encode_def qp_text_append case_prod_unfold)
qed (simp add: encode_all_def)

lemma final_flush:
  assumes "wf_enc info"
  shows "case (if (0::int) = 0 \<and> 0 < output_buf_cnt info then flush_output f info else (0, info)) of
    (rc, info') \<Rightarrow> rc = 0 \<and> text_of (callback_arg info') = emitted info"
proof (cases "0 < output_buf_cnt info")
  case True
  obtain info' where "flush_output f info = (0, info')" "text_of (callback_arg info') = emitted info"
    by (rule flush_output_spec[OF assms])
  with True show ?thesis by simp
qed (simp add: emitted_def)

lemma encode_end_spec:
  assumes "length (output_buffer info) = BUFSIZ" and "length (input_buffer info) = INPUT_SIZE"
    and "info0 = libmail_encode_start info enc a"
  shows "case libmail_encode_end f (encode_all info0 ms) of (rc, info') \<Rightarrow>
    rc = 0 \<and> text_of (callback_arg info') = text_of a @ encoded (encoding_func info0) (concat ms)"
proof -
  have wf: "wf_enc info0" and c0: "input_buf_cnt info0 = 0" and em: "emitted info0 = text_of a"
    using assms by (auto simp: wf_enc_def libmail_encode_start_def Let_def emitted_def)
  let ?i = "encode_all info0 ms"
  show ?thesis
  proof (cases "encoding_func info0")
    case Enc_eflush
    from encode_all_eflush[OF wf this, of ms] final_flush[of ?i] show ?thesis
      by (simp add: libmail_encode_end_def eflush.simps[of f ?i "[]"] encoded_def Enc_eflush em)
  next
    case Enc_base64
    from c0 have "input_buf_cnt info0 \<le> INPUT_SIZE" by simp
    from encode_all_base64[OF wf Enc_base64 this, of ms] have
      i: "wf_enc ?i" "encoding_func ?i = Enc_base64" "input_buf_cnt ?i \<le> INPUT_SIZE"
      "emitted ?i @ b64_lines (held ?i) = text_of a @ b64_lines (concat ms)"
      by (auto simp: em held_def c0 dest: spec[of _ "[]"])
    obtain info1 where e: "base64_end f ?i = (0, info1)" "wf_enc info1"
      "emitted info1 = text_of a @ b64_lines (concat ms)"
    proof (cases "0 < input_buf_cnt ?i")
      case True
      obtain info1 where "base64_flush f ?i = (0, info1)" "wf_enc info1"
        "emitted info1 = emitted ?i @ rfc4648 (held ?i) @ [ch CHR ''\<newline>'']"
        by (rule base64_flush_spec[OF i(1,3)])
      moreover have "b64_lines (held ?i) = rfc4648 (held ?i) @ [ch CHR ''\<newline>'']"
        using True i(1,3) by (intro b64_lines_last) (auto simp: held_def wf_enc_def INPUT_SIZE_def)
      ultimately show ?thesis using True i(4) by (intro that[of info1]) (simp_all add: base64_end_def)
    next
      case False
      with i show ?thesis
        by (intro that[of ?i]) (simp_all add: base64_end_def held_def b64_lines.simps[of "[]"])
    qed
    from final_flush[OF e(2)] e show ?thesis
      by (simp add: libmail_encode_end_def i(2) encoded_def Enc_base64)
  next
    case Enc_quoted_printable
    have "qp_state info0 = (False, 0)"
      using Enc_quoted_printable assms c0
      by (auto simp: libmail_encode_start_def Let_def qp_state_def INPUT_SIZE_def split: if_splits)
    with encode_all_qp[OF wf Enc_quoted_printable, of ms] final_flush[of ?i] show ?thesis
      by (simp add: libmail_encode_end_def encoded_def Enc_quoted_printable em)
  qed
qed

end

section \<open>The text an encoder writes\<close>


definition enc_stack :: "bytes libmail_encode_info" where
  "enc_stack = \<lparr>output_buffer = replicate BUFSIZ 0, output_buf_cnt = 0, input_buffer = replicate INPUT_SIZE 0,
     input_buf_cnt = 0, encoding_func = Enc_eflush, callback_arg = []\<rparr>"


lemma codes_b64_lines: "dec_quads (codes (b64_lines xs)) = xs"
proof (induction xs rule: b64_lines.induct)
  case (1 xs)
  show ?case
  proof (cases "xs = []")
    case False
    with 1 show ?thesis
      by (simp add: b64_lines.simps[of xs] dec_quads_rfc4648)
  qed (simp add: b64_lines.simps)
qed

lemma newline_not_rfc4648: "ch CHR ''\<newline>'' \<notin> set (rfc4648 xs)"
proof -
  have "ch CHR ''\<newline>'' \<noteq> digit64 n" for n
  proof
    assume "ch CHR ''\<newline>'' = digit64 n"
    then have "base64_code (digit64 n) = None" using base64_code_newline by simp
    then show False by simp
  qed
  with base64tab_facts(7) show ?thesis
    by (induction xs rule: rfc4648.induct) (auto simp: Let_def)
qed

text \<open>
  The base64 text is in lines of at most 76 characters, each ended by a newline, and
  \<open>base64_decode_str\<close> reads it back.
\<close>

theorem base64_text_lines:
  "(\<exists>ls. encoded Enc_base64 xs = concat (map (\<lambda>l. l @ [ch CHR ''\<newline>'']) ls) \<and>
      list_all (\<lambda>l. 0 < length l \<and> length l \<le> 76 \<and> ch CHR ''\<newline>'' \<notin> set l) ls) \<and>
   base64_decode_str (base64_stack []) (encoded Enc_base64 xs) = xs"
proof
  show "\<exists>ls. encoded Enc_base64 xs = concat (map (\<lambda>l. l @ [ch CHR ''\<newline>'']) ls) \<and>
      list_all (\<lambda>l. 0 < length l \<and> length l \<le> 76 \<and> ch CHR ''\<newline>'' \<notin> set l) ls"
    unfolding encoded_def encoding.case
  proof (induction xs rule: b64_lines.induct)
    case (1 xs)
    show ?case
    proof (cases "xs = []")
      case False
      with 1 obtain ls where ls: "b64_lines (drop 57 xs) = concat (map (\<lambda>l. l @ [ch CHR ''\<newline>'']) ls)"
        "list_all (\<lambda>l. 0 < length l \<and> length l \<le> 76 \<and> ch CHR ''\<newline>'' \<notin> set l) ls" by blast
      let ?l = "rfc4648 (take 57 xs)"
      have "0 < length (take 57 xs)" "length (take 57 xs) \<le> 57" using False by simp_all
      then have "0 < length ?l" "length ?l \<le> 76" unfolding length_rfc4648 by presburger+
      with ls False show ?thesis
        by (intro exI[of _ "?l # ls"]) (simp add: b64_lines.simps[of xs] newline_not_rfc4648)
    qed (simp add: b64_lines.simps)
  qed
  have "length (workbuf (base64_stack [])) = WORKBUF_SIZE" by (simp add: base64_stack_def)
  from save_str.decode_end_spec[OF this, of "[]" "[b64_lines xs]"]
  show "base64_decode_str (base64_stack []) (encoded Enc_base64 xs) = xs"
    by (simp add: base64_decode_str_def decode_all_fold codes_b64_lines encoded_def split: prod.splits)
qed

section \<open>The lines of the quoted-printable text\<close>

fun lines_within :: "nat \<Rightarrow> nat \<Rightarrow> bytes \<Rightarrow> bool" where
  "lines_within n col [] = (col \<le> n)"
| "lines_within n col (c # cs) =
     (col \<le> n \<and> lines_within n (if c = ch CHR ''\<newline>'' then 0 else col + 1) cs)"

fun no_double_space :: "bool \<Rightarrow> bytes \<Rightarrow> bool" where
  "no_double_space sp [] = True"
| "no_double_space sp (c # cs) =
     (if c = ch CHR '' '' then \<not> sp \<and> no_double_space True cs else no_double_space False cs)"

lemma lines_within_append:
  "ch CHR ''\<newline>'' \<notin> set xs \<Longrightarrow> col + length xs \<le> n \<Longrightarrow> lines_within n (col + length xs) ys \<Longrightarrow>
   lines_within n col (xs @ ys)"
  by (induction xs arbitrary: col) auto

lemma newline_facts:
  "ch CHR ''\<newline>'' \<notin> set (str '' '')" "ch CHR ''\<newline>'' \<notin> set (str ''=20'')" "ch CHR ''\<newline>'' \<noteq> ch CHR '' ''"
  "str ''=\<newline>'' = [ch CHR ''='', ch CHR ''\<newline>'']" "ch CHR ''='' \<noteq> ch CHR ''\<newline>''"
  "length (str '' '') = 1" "length (str ''=20'') = 3" "\<not> qp_plain (ch CHR ''\<newline>'')"
  by code_simp+

lemma newline_not_escape: "ch CHR ''\<newline>'' \<notin> set (qp_escape p)"
  by (rule byte_cases) code_simp

lemma qp_text_lines:
  "no_double_space sp xs \<Longrightarrow> col \<le> 75 \<Longrightarrow> lines_within 78 col (snd (qp_text (sp, col) xs))"
proof (induction xs arbitrary: sp col)
  case Nil
  then show ?case by simp
next
  case (Cons p ps)
  let ?pre = "if sp then if p = ch CHR ''\<newline>'' then str ''=20'' else str '' '' else []"
  let ?col = "if sp then col + 1 else col"
  consider (sp) "p = ch CHR '' ''" | (nl) "p = ch CHR ''\<newline>''"
    | (other) "p \<noteq> ch CHR '' ''" "p \<noteq> ch CHR ''\<newline>''" by blast
  then show ?case
  proof cases
    case sp
    with Cons.prems Cons.IH[of True col] show ?thesis by (simp add: case_prod_unfold)
  next
    case nl
    with Cons.prems newline_facts(3) have "lines_within 78 0 (snd (qp_text (False, 0) ps))"
      by (intro Cons.IH) auto
    with nl Cons.prems newline_facts show ?thesis
      by (auto simp: case_prod_unfold intro!: lines_within_append)
  next
    case other
    define t where "t = (if qp_plain p then [p] else qp_escape p)"
    have t: "ch CHR ''\<newline>'' \<notin> set t" "length t \<le> 3"
      using other(2) newline_not_escape by (auto simp: t_def qp_escape_def)
    have ps: "no_double_space False ps" using Cons.prems(1) other by simp
    let ?out = "\<lambda>c. t @ snd (qp_text (False, c + length t) ps)"
    have o: "lines_within 78 c (?out c)" if "c \<le> 72" for c
      using that t ps by (intro lines_within_append Cons.IH) auto
    have e: "snd (qp_text (sp, col) (p # ps)) =
        (if sp then str '' '' else []) @ (if 72 < ?col then str ''=\<newline>'' @ ?out 0 else ?out ?col)"
      using other by (simp add: case_prod_unfold t_def Let_def)
    have "lines_within 78 (col + length (if sp then str '' '' else [])) (if 72 < ?col then str ''=\<newline>'' @ ?out 0 else ?out ?col)"
      using o[of 0] o[of ?col] Cons.prems(2) newline_facts(4,5,6) by auto
    then have "lines_within 78 col ((if sp then str '' '' else []) @
        (if 72 < ?col then str ''=\<newline>'' @ ?out 0 else ?out ?col))"
      by (rule lines_within_append[rotated 2])
        (use Cons.prems(2) newline_facts(1,6) in \<open>auto split: if_splits\<close>)
    then show ?thesis unfolding e .
  qed
qed



lemma qp_long_line:
  "\<not> lines_within 76 0 (encoded Enc_quoted_printable (replicate 72 (ch CHR ''a'') @ str ''= b''))"
  by code_simp


end
