(* ===== verification/Cdecode.thy ===== *)
theory Cdecode
  imports Encode
begin

text \<open>
  The content decoder of rfc2045/rfc2045cdecode.c with the growing work buffer of rfc2045/rfc2045.c:
  \<open>rfc2045_cdecode_start\<close>, \<open>rfc2045_cdecode\<close> and \<open>rfc2045_cdecode_end\<close> over the three decoding
  functions.  The quoted-printable decoder works line by line, or in runs of about a kilobyte which
  it does not end inside an escape; the base64 decoder keeps up to three characters for the next
  call.  Both decode in place.  The references are \<open>qp_ref\<close>, which is partial and defines the
  well-formed texts, and \<open>dec_chars\<close>.
\<close>

section \<open>The state\<close>

datatype decoding = Dec_raw | Dec_qp | Dec_base64

text \<open>The members of \<open>struct rfc2045\<close> that decoding uses; the size of the buffer is its length.\<close>

record 's rfc2045 =
  mime_workbuf :: bytes
  mime_workbuflen :: nat
  decode_func :: decoding
  misc_decode_ptr :: 's
  content_transfer_encoding :: "bytes option"

text \<open>
  The generic append: the buffer is enlarged when it is full (the allocation is assumed to succeed,
  the new bytes, which the code never reads before it writes them, are zero here).
\<close>

definition rfc2045_add_buf :: "bytes \<Rightarrow> nat \<Rightarrow> bytes \<Rightarrow> bytes \<times> nat" where
  "rfc2045_add_buf buf buflen p =
     (let buf = (if length buf < length p + buflen
                 then buf @ replicate (length p + buflen + 256 - length buf) 0 else buf)
      in (memcpy_at buf buflen p, buflen + length p))"

definition rfc2045_add_workbuf :: "'s rfc2045 \<Rightarrow> bytes \<Rightarrow> 's rfc2045" where
  "rfc2045_add_workbuf h p =
     (case rfc2045_add_buf (mime_workbuf h) (mime_workbuflen h) p of
        (buf, n) \<Rightarrow> h\<lparr>mime_workbuf := buf, mime_workbuflen := n\<rparr>)"

definition rfc2045_add_workbufch :: "'s rfc2045 \<Rightarrow> u8 \<Rightarrow> 's rfc2045" where
  "rfc2045_add_workbufch h c = rfc2045_add_workbuf h [c]"

section \<open>Quoted-printable\<close>

definition tou :: "u8 \<Rightarrow> u8" where
  "tou c = (if ch CHR ''a'' \<le> c \<and> c \<le> ch CHR ''f'' then c + (ch CHR ''A'' - ch CHR ''a'') else c)"

text \<open>\<open>isspace\<close> in the C locale.\<close>

definition isspace :: "u8 \<Rightarrow> bool" where
  "isspace c \<longleftrightarrow> c = 32 \<or> 9 \<le> c \<and> c \<le> 13"

text \<open>
  The loop of \<open>do_decode_qp\<close>: \<open>a\<close> reads and \<open>b\<close> writes the same buffer up to \<open>n\<close>.  The source reads
  the byte at \<open>a\<close> before it compares \<open>a\<close> with the end; past the end both outcomes of the first test
  leave the loop.
\<close>

function qp_loop_dec :: "nat \<Rightarrow> nat \<Rightarrow> nat \<Rightarrow> bytes \<Rightarrow> nat \<times> bytes" where
  "qp_loop_dec n a b buf =
     (if n \<le> a then (b, buf)
      else if buf ! a \<noteq> ch CHR ''='' then qp_loop_dec n (a + 1) (b + 1) (buf[b := buf ! a])
      else let a = a + 1 in
        if n \<le> a \<or> buf ! a = 0 \<or> isspace (buf ! a) then (b, buf)
        else case strchr xdigit (tou (buf ! a)) of
          None \<Rightarrow> qp_loop_dec n a b buf
        | Some d \<Rightarrow>
            let a = a + 1 in
            if n \<le> a \<or> buf ! a = 0 then (b, buf)
            else case strchr xdigit (tou (buf ! a)) of
              None \<Rightarrow> qp_loop_dec n a b buf
            | Some e \<Rightarrow> qp_loop_dec n (a + 1) (b + 1) (buf[b := of_nat (d * 16 + e)]))"
  by pat_completeness auto
termination by (relation "measure (\<lambda>(n, a, b, buf). n - a)") auto

declare qp_loop_dec.simps [simp del]

definition do_decode_qp :: "'s callback \<Rightarrow> 's rfc2045 \<Rightarrow> int \<times> 's rfc2045" where
  "do_decode_qp f p =
     (case qp_loop_dec (mime_workbuflen p) 0 0 (mime_workbuf p) of (b, buf) \<Rightarrow>
      case f (take b buf) (misc_decode_ptr p) of (rc, s) \<Rightarrow>
        (rc, p\<lparr>mime_workbuf := buf, mime_workbuflen := 0, misc_decode_ptr := s\<rparr>))"

text \<open>
  A long run is decoded early: what follows the first equals sign of the last five characters is set
  aside in \<open>buf\<close>, and appended again up to its first zero byte (\<open>strlen\<close>).
\<close>

definition decode_qp_long :: "'s callback \<Rightarrow> 's rfc2045 \<Rightarrow> int \<times> 's rfc2045" where
  "decode_qp_long f p =
     (if 1024 < mime_workbuflen p then
        let n = mime_workbuflen p;
            buf = dropWhile (\<lambda>c. c \<noteq> ch CHR ''='') (drop (n - 5) (take n (mime_workbuf p)));
            p = p\<lparr>mime_workbuflen := n - length buf\<rparr>
        in rc_then (do_decode_qp f p) (\<lambda>p. (0, rfc2045_add_workbuf p (takeWhile (\<lambda>c. c \<noteq> 0) buf)))
      else (0, p))"

lemma tl_dropWhile_less:
  assumes "s \<noteq> []"
  shows "length (dropWhile P s) - Suc 0 < length s"
proof -
  have "0 < length s" using assms by simp
  with length_dropWhile_le[of P s] show ?thesis by linarith
qed

text \<open>The loop of \<open>decode_qp\<close>; \<open>s\<close> is what is left from \<open>start\<close> on.\<close>

function decode_qp :: "'s callback \<Rightarrow> 's rfc2045 \<Rightarrow> bytes \<Rightarrow> int \<times> 's rfc2045" where
  "decode_qp f p s =
     (if s = [] then (0, p)
      else let line = takeWhile (\<lambda>c. c \<noteq> ch CHR ''\<newline>'') s;
               rest = dropWhile (\<lambda>c. c \<noteq> ch CHR ''\<newline>'') s;
               p = rfc2045_add_workbuf p line
           in if rest \<noteq> [] then
                rc_then (do_decode_qp f (rfc2045_add_workbufch p (ch CHR ''\<newline>'')))
                  (\<lambda>p. rc_then (decode_qp_long f (rfc2045_add_workbuf p []))
                    (\<lambda>p. decode_qp f p (tl rest)))
              else rc_then (decode_qp_long f p) (\<lambda>p. decode_qp f p []))"
  by pat_completeness auto
termination
  by (relation "measure (\<lambda>(f, p, s). length s)") (simp_all add: tl_dropWhile_less)

declare decode_qp.simps [simp del]

section \<open>Base64\<close>

text \<open>The table: 0 to 63 for the alphabet, 99 for the padding, 100 for everything else.\<close>

definition decode64tab :: "nat list" where
  "decode64tab =
     replicate 43 100 @ [62, 100, 100, 100, 63] @ [52..<62] @ [100, 100, 100, 99, 100, 100] @
     [100] @ [0..<26] @ [100, 100, 100, 100, 100] @ [100] @ [26..<52] @ replicate 133 100"

definition code64 :: "u8 \<Rightarrow> nat" where
  "code64 c = decode64tab ! unat c"

text \<open>Removing everything else, in place.\<close>

function keep64 :: "nat \<Rightarrow> nat \<Rightarrow> nat \<Rightarrow> bytes \<Rightarrow> nat \<times> bytes" where
  "keep64 n i j buf =
     (if i < n then
        if code64 (buf ! i) < 100 then keep64 n (i + 1) (j + 1) (buf[j := buf ! i])
        else keep64 n (i + 1) j buf
      else (j, buf))"
  by pat_completeness auto
termination by (relation "measure (\<lambda>(n, i, j, buf). n - i)") auto

declare keep64.simps [simp del]

definition quad64 :: "nat \<Rightarrow> nat \<times> bytes \<Rightarrow> nat \<times> bytes" where
  "quad64 j = (\<lambda>(k, buf).
     let w = of_nat (code64 (buf ! j)) :: u32;
         x = of_nat (code64 (buf ! (j + 1)));
         y = of_nat (code64 (buf ! (j + 2)));
         z = of_nat (code64 (buf ! (j + 3)));
         a = ucast (push_bit 2 w OR drop_bit 4 x);
         b = ucast (push_bit 4 x OR drop_bit 2 y);
         c = ucast (push_bit 6 y OR z);
         (k, buf) = (k + 1, buf[k := a]);
         (k, buf) = (if buf ! (j + 2) \<noteq> ch CHR ''='' then (k + 1, buf[k := b]) else (k, buf))
     in if buf ! (j + 3) \<noteq> ch CHR ''='' then (k + 1, buf[k := c]) else (k, buf))"

function loop64 :: "nat \<Rightarrow> nat \<Rightarrow> nat \<times> bytes \<Rightarrow> nat \<times> bytes" where
  "loop64 i j s = (if j < i then loop64 i (j + 4) (quad64 j s) else s)"
  by pat_completeness auto
termination by (relation "measure (\<lambda>(i, j, s). i - j)") auto

declare loop64.simps [simp del]

text \<open>The code of the callback is computed, but 0 is returned.\<close>

definition do_decode_base64 :: "'s callback \<Rightarrow> 's rfc2045 \<Rightarrow> int \<times> 's rfc2045" where
  "do_decode_base64 f p =
     (let (n, buf) = keep64 (mime_workbuflen p) 0 0 (mime_workbuf p);
          i = n div 4 * 4;
          (k, buf) = loop64 i 0 (0, buf);
          (rc, s) = f (take k buf) (misc_decode_ptr p);
          (k, buf) = move_loop n i 0 buf
      in (0, p\<lparr>mime_workbuf := buf, mime_workbuflen := k, misc_decode_ptr := s\<rparr>))"

definition decode_base64 :: "'s callback \<Rightarrow> 's rfc2045 \<Rightarrow> bytes \<Rightarrow> int \<times> 's rfc2045" where
  "decode_base64 f p s =
     (let p = rfc2045_add_workbuf p s
      in if 256 < mime_workbuflen p then do_decode_base64 f p else (0, p))"

section \<open>The interface\<close>

definition decode_raw :: "'s callback \<Rightarrow> 's rfc2045 \<Rightarrow> bytes \<Rightarrow> int \<times> 's rfc2045" where
  "decode_raw f p s =
     (if s \<noteq> [] then (case f s (misc_decode_ptr p) of (rc, a) \<Rightarrow> (rc, p\<lparr>misc_decode_ptr := a\<rparr>)) else (0, p))"

definition rfc2045_cdecode_start :: "'s rfc2045 \<Rightarrow> 's \<Rightarrow> 's rfc2045" where
  "rfc2045_cdecode_start p miscptr =
     (let p = p\<lparr>misc_decode_ptr := miscptr, decode_func := Dec_raw, mime_workbuflen := 0\<rparr>
      in if content_transfer_encoding p = Some (str ''quoted-printable'') then p\<lparr>decode_func := Dec_qp\<rparr>
         else if content_transfer_encoding p = Some (str ''base64'') then p\<lparr>decode_func := Dec_base64\<rparr>
         else p)"

text \<open>The call with a null pointer ends the text.\<close>

definition rfc2045_cdecode_end :: "'s callback \<Rightarrow> 's rfc2045 \<Rightarrow> int \<times> 's rfc2045" where
  "rfc2045_cdecode_end f p = (case decode_func p of
     Dec_raw \<Rightarrow> (0, p) | Dec_qp \<Rightarrow> do_decode_qp f p | Dec_base64 \<Rightarrow> do_decode_base64 f p)"

definition rfc2045_cdecode :: "'s callback \<Rightarrow> 's rfc2045 \<Rightarrow> bytes \<Rightarrow> int \<times> 's rfc2045" where
  "rfc2045_cdecode f p s =
     (if s \<noteq> [] then (case decode_func p of
        Dec_raw \<Rightarrow> decode_raw f p s | Dec_qp \<Rightarrow> decode_qp f p s | Dec_base64 \<Rightarrow> decode_base64 f p s)
      else (0, p))"

section \<open>The references\<close>

definition hexval :: "u8 \<Rightarrow> nat option" where
  "hexval c = (if c = 0 then None else strchr xdigit (tou c))"

text \<open>
  A well-formed quoted-printable text: no zero byte, and every equals sign followed by a newline or
  by two hexadecimal digits.  \<open>qp_ref\<close> gives its meaning.
\<close>

fun qp_ref :: "bytes \<Rightarrow> bytes option" where
  "qp_ref [] = Some []"
| "qp_ref (c # cs) =
     (if c = 0 then None
      else if c \<noteq> ch CHR ''='' then map_option ((#) c) (qp_ref cs)
      else case cs of
        [] \<Rightarrow> None
      | x # ds \<Rightarrow>
          if x = ch CHR ''\<newline>'' then qp_ref ds
          else case ds of
            [] \<Rightarrow> None
          | y # es \<Rightarrow> (case (hexval x, hexval y) of
              (Some d, Some e) \<Rightarrow> map_option ((#) (of_nat (d * 16 + e))) (qp_ref es)
            | _ \<Rightarrow> None))"

fun dec_chars :: "bytes \<Rightarrow> bytes" where
  "dec_chars (w # x # y # z # cs) =
     (let w' = of_nat (code64 w) :: u32; x' = of_nat (code64 x); y' = of_nat (code64 y); z' = of_nat (code64 z) in
     [ucast (push_bit 2 w' OR drop_bit 4 x')] @
     (if y \<noteq> ch CHR ''='' then [ucast (push_bit 4 x' OR drop_bit 2 y')] else []) @
     (if z \<noteq> ch CHR ''='' then [ucast (push_bit 6 y' OR z')] else []) @ dec_chars cs)"
| "dec_chars cs = []"

section \<open>The in-place loops\<close>

text \<open>The loop of \<open>do_decode_qp\<close> over a list.\<close>

fun qp_dec :: "bytes \<Rightarrow> bytes" where
  "qp_dec [] = []"
| "qp_dec (c # cs) =
     (if c \<noteq> ch CHR ''='' then c # qp_dec cs
      else case cs of
        [] \<Rightarrow> []
      | x # ds \<Rightarrow>
          if x = 0 \<or> isspace x then []
          else case strchr xdigit (tou x) of
            None \<Rightarrow> qp_dec cs
          | Some d \<Rightarrow> (case ds of
              [] \<Rightarrow> []
            | y # es \<Rightarrow> if y = 0 then [] else
                (case strchr xdigit (tou y) of
                   None \<Rightarrow> qp_dec ds
                 | Some e \<Rightarrow> of_nat (d * 16 + e) # qp_dec es)))"

lemma drop_take_update: "b < a \<Longrightarrow> drop a (take n (xs[b := x])) = drop a (take n xs)"
  by (simp add: take_update_swap)

lemma qp_loop_dec_list:
  "b \<le> a \<Longrightarrow> n \<le> length buf \<Longrightarrow>
   (case qp_loop_dec n a b buf of (b', buf') \<Rightarrow> length buf' = length buf \<and>
      take b' buf' = take b buf @ qp_dec (drop a (take n buf)))"
proof (induction n a b buf rule: qp_loop_dec.induct)
  case (1 n a b buf)
  have nth: "drop i (take n buf) = buf ! i # drop (Suc i) (take n buf)" if "i < n" for i
    using that "1.prems" by (simp add: Cons_nth_drop_Suc[symmetric])
  have nil: "drop i (take n buf) = []" if "n \<le> i" for i
    using that by simp
  note unf = qp_loop_dec.simps[of n a b buf]
  consider (stop) "n \<le> a" | (plain) "a < n" "buf ! a \<noteq> ch CHR ''=''"
    | (brk) "a < n" "buf ! a = ch CHR ''=''" "n \<le> a + 1 \<or> buf ! (a + 1) = 0 \<or> isspace (buf ! (a + 1))"
    | (esc) "a + 1 < n" "buf ! a = ch CHR ''=''" "buf ! (a + 1) \<noteq> 0" "\<not> isspace (buf ! (a + 1))"
    by linarith
  then show ?case
  proof cases
    case stop
    then show ?thesis by (simp add: unf)
  next
    case plain
    with "1.prems" "1.IH"(1) show ?thesis
      by (simp add: unf nth[of a] drop_take_update take_update split: prod.splits)
  next
    case brk
    then show ?thesis
      by (cases "n \<le> Suc a") (auto simp: unf Let_def nth[of a] nth[of "Suc a"])
  next
    case esc
    show ?thesis
    proof (cases "strchr xdigit (tou (buf ! (a + 1)))")
      case None
      with esc "1.prems" "1.IH"(2)[OF _ _ refl] show ?thesis
        by (simp add: unf Let_def nth[of a] nth[of "Suc a"] split: prod.splits)
    next
      case (Some d)
      consider (stop) "n \<le> a + 2 \<or> buf ! (a + 2) = 0" | (none) "a + 2 < n" "buf ! (a + 2) \<noteq> 0" "strchr xdigit (tou (buf ! (a + 2))) = None"
        | (some) e where "a + 2 < n" "buf ! (a + 2) \<noteq> 0" "strchr xdigit (tou (buf ! (a + 2))) = Some e"
        by fastforce
      then show ?thesis
      proof cases
        case stop
        with Some esc show ?thesis
          by (cases "n \<le> a + 2") (auto simp: unf Let_def nth[of a] nth[of "Suc a"] nth[of "Suc (Suc a)"])
      next
        case none
        with Some esc "1.prems" "1.IH"(3)[OF _ _ refl _ Some refl] show ?thesis
          by (simp add: unf Let_def nth[of a] nth[of "Suc a"] nth[of "Suc (Suc a)"] split: prod.splits)
      next
        case some
        with Some esc "1.prems" "1.IH"(4)[OF _ _ refl _ Some refl] show ?thesis
          by (simp add: unf Let_def nth[of a] nth[of "Suc a"] nth[of "Suc (Suc a)"] drop_take_update
              take_update split: prod.splits)
      qed
    qed
  qed
qed

section \<open>Well-formed quoted-printable texts\<close>

lemma hexval_facts: "hexval x = Some d \<Longrightarrow>
    x \<noteq> 0 \<and> \<not> isspace x \<and> x \<noteq> ch CHR ''\<newline>'' \<and> x \<noteq> ch CHR ''='' \<and> strchr xdigit (tou x) = Some d"
proof -
  let ?bad = "[0, 9, 10, 11, 12, 13, 32, ch CHR ''\<newline>'', ch CHR ''='']"
  have sp: "\<not> isspace x \<or> x \<in> set ?bad" by (rule byte_cases) code_simp
  have bad: "list_all (\<lambda>x. hexval x = None) ?bad" by code_simp
  assume h: "hexval x = Some d"
  with bad have "x \<notin> set ?bad" by (auto simp: list_all_iff)
  with sp h show ?thesis by (auto simp: hexval_def split: if_splits)
qed

lemma newline_byte: "isspace (ch CHR ''\<newline>'')" "ch CHR ''='' \<noteq> ch CHR ''\<newline>''" "ch CHR ''\<newline>'' \<noteq> 0" "ch CHR ''='' \<noteq> 0"
  by code_simp+

text \<open>On a line whose only newline is its last character the two agree.\<close>

lemma qp_dec_ref: "qp_ref xs = Some ys \<Longrightarrow> ch CHR ''\<newline>'' \<notin> set (butlast xs) \<Longrightarrow> qp_dec xs = ys"
proof (induction xs arbitrary: ys rule: qp_ref.induct)
  case 1
  then show ?case by simp
next
  case (2 c cs)
  have bl: "ch CHR ''\<newline>'' \<notin> set (butlast cs)"
    using 2(5) by (cases cs) auto
  show ?case
  proof (cases "c = ch CHR ''=''")
    case False
    with 2 bl show ?thesis by (auto split: if_splits)
  next
    case True
    with 2(4) newline_byte obtain x ds where cs: "cs = x # ds" by (auto split: list.splits)
    show ?thesis
    proof (cases "x = ch CHR ''\<newline>''")
      case nl: True
      with 2(5) cs have "ds = []" by (auto split: if_splits)
      with 2(4) True cs nl newline_byte show ?thesis by simp
    next
      case False
      with 2(4) True cs newline_byte obtain y es d e ys' where y: "ds = y # es" "hexval x = Some d" "hexval y = Some e"
        "qp_ref es = Some ys'" "ys = of_nat (d * 16 + e) # ys'"
        by (auto split: list.splits option.splits)
      have "ch CHR ''\<newline>'' \<notin> set (butlast es)" using bl cs y(1) by (cases es) (auto split: if_splits)
      with 2(3)[of x ds y es "Some d" "Some e" d e] True cs y False have "qp_dec es = ys'" by (simp add: newline_byte)
      with hexval_facts[OF y(2)] hexval_facts[OF y(3)] True cs y show ?thesis by simp
    qed
  qed
qed

lemma append_Cons_fun: "(@) (a # z) = (\<lambda>x. a # z @ x)"
  by (simp add: fun_eq_iff)

lemma qp_ref_append: "qp_ref xs = Some us \<Longrightarrow> qp_ref (xs @ ys) = map_option ((@) us) (qp_ref ys)"
proof (induction xs arbitrary: us rule: qp_ref.induct)
  case 1
  then show ?case by (simp add: option.map_ident)
next
  case (2 c cs)
  show ?case
  proof (cases "c = ch CHR ''=''")
    case False
    with 2 show ?thesis by (auto simp: option.map_comp o_def append_Cons_fun split: if_splits)
  next
    case True
    with 2(4) newline_byte obtain x ds where cs: "cs = x # ds" by (auto split: list.splits)
    show ?thesis
    proof (cases "x = ch CHR ''\<newline>''")
      case nl: True
      with 2 True cs newline_byte show ?thesis by simp
    next
      case False
      with 2(4) True cs newline_byte obtain y es d e us' where y: "ds = y # es" "hexval x = Some d" "hexval y = Some e"
        "qp_ref es = Some us'" "us = of_nat (d * 16 + e) # us'"
        by (auto split: list.splits option.splits)
      with 2(3)[of x ds y es "Some d" "Some e" d e] True cs False have "qp_ref (es @ ys) = map_option ((@) us') (qp_ref ys)"
        by (simp add: newline_byte)
      with y True cs False newline_byte show ?thesis by (simp add: option.map_comp o_def append_Cons_fun)
    qed
  qed
qed

text \<open>Where a well-formed text may be cut: before an equals sign, after a newline, and after two
  characters without an equals sign.\<close>

definition cut_ok :: "bytes \<Rightarrow> bytes \<Rightarrow> bool" where
  "cut_ok w ys \<longleftrightarrow> ch CHR ''='' \<notin> set (drop (length w - 2) w) \<or>
     (\<exists>zs. ys = ch CHR ''='' # zs) \<or> (\<exists>v. w = v @ [ch CHR ''\<newline>''])"

lemma cut_ok_tl: "cut_ok (x # w) ys \<Longrightarrow> w \<noteq> [] \<Longrightarrow> cut_ok w ys"
  by (cases w; cases "tl w") (auto simp: cut_ok_def Cons_eq_append_conv)

lemma cut_ok_Nil: "cut_ok [] ys"
  by (simp add: cut_ok_def)

lemma qp_ref_cut:
  "qp_ref (w @ ys) = Some zs \<Longrightarrow> cut_ok w ys \<Longrightarrow>
    \<exists>us vs. qp_ref w = Some us \<and> qp_ref ys = Some vs \<and> zs = us @ vs"
proof -
  assume a: "qp_ref (w @ ys) = Some zs" and c: "cut_ok w ys"
  from a c have "qp_ref w \<noteq> None"
  proof (induction w arbitrary: zs rule: qp_ref.induct)
    case 1
    then show ?case by simp
  next
    case (2 c cs)
    have t: "cs = [] \<or> cut_ok cs ys" using cut_ok_tl[OF 2(5)] by blast
    show ?case
    proof (cases "c = ch CHR ''=''")
      case False
      with 2 t show ?thesis by (auto split: if_splits)
    next
      case True
      then have "cs \<noteq> []" using 2(4,5) newline_byte hexval_facts[of "ch CHR ''=''"]
        by (auto simp: cut_ok_def split: if_splits list.splits option.splits)
      then obtain x ds where cs: "cs = x # ds" by (cases cs) auto
      show ?thesis
      proof (cases "x = ch CHR ''\<newline>''")
        case nl: True
        have "cut_ok ds ys" using t cs cut_ok_tl[of x ds ys] cut_ok_Nil[of ys] by (cases ds) auto
        with 2 True cs nl newline_byte show ?thesis by simp
      next
        case False
        have "ds \<noteq> []" using 2(4,5) True cs False newline_byte hexval_facts[of "ch CHR ''=''"]
          by (auto simp: cut_ok_def split: if_splits list.splits option.splits)
        then obtain y es where ds: "ds = y # es" by (cases ds) auto
        with 2(4) True cs False newline_byte obtain d e zs' where y: "hexval x = Some d" "hexval y = Some e"
          "qp_ref (es @ ys) = Some zs'" by (auto split: list.splits option.splits)
        have "cut_ok es ys" using t cs ds cut_ok_tl[of x ds ys] cut_ok_tl[of y es ys] cut_ok_Nil[of ys]
          by (cases es) auto
        with 2(3)[of x ds y es "Some d" "Some e" d e] y True cs ds False newline_byte show ?thesis by simp
      qed
    qed
  qed
  then obtain us where us: "qp_ref w = Some us" by blast
  with qp_ref_append[OF us, of ys] a show ?thesis by (cases "qp_ref ys") auto
qed

lemma qp_ref_no_zero: "qp_ref xs = Some ys \<Longrightarrow> 0 \<notin> set xs"
proof (induction xs arbitrary: ys rule: qp_ref.induct)
  case (2 c cs)
  then show ?case
    using newline_byte by (fastforce split: if_splits list.splits option.splits dest: hexval_facts)
qed simp

section \<open>The work buffer\<close>

definition pend :: "'s rfc2045 \<Rightarrow> bytes" where
  "pend p = take (mime_workbuflen p) (mime_workbuf p)"

definition wf_mime :: "'s rfc2045 \<Rightarrow> bool" where
  "wf_mime p \<longleftrightarrow> mime_workbuflen p \<le> length (mime_workbuf p)"

lemma length_pend: "wf_mime p \<Longrightarrow> length (pend p) = mime_workbuflen p"
  by (simp add: pend_def wf_mime_def)

text \<open>What appending does; the buffer grows as needed.\<close>

lemma add_workbuf_spec:
  assumes "wf_mime p"
  shows "wf_mime (rfc2045_add_workbuf p s)" and "pend (rfc2045_add_workbuf p s) = pend p @ s"
    and "decode_func (rfc2045_add_workbuf p s) = decode_func p"
    and "misc_decode_ptr (rfc2045_add_workbuf p s) = misc_decode_ptr p"
proof -
  define buf where "buf = (if length (mime_workbuf p) < length s + mime_workbuflen p
     then mime_workbuf p @ replicate (length s + mime_workbuflen p + 256 - length (mime_workbuf p)) 0
     else mime_workbuf p)"
  have b: "mime_workbuflen p + length s \<le> length buf" "take (mime_workbuflen p) buf = pend p"
    using assms by (auto simp: buf_def pend_def wf_mime_def)
  have a: "rfc2045_add_workbuf p s = p\<lparr>mime_workbuf := memcpy_at buf (mime_workbuflen p) s,
      mime_workbuflen := mime_workbuflen p + length s\<rparr>"
    by (simp add: rfc2045_add_workbuf_def rfc2045_add_buf_def Let_def buf_def)
  show "wf_mime (rfc2045_add_workbuf p s)"
    using b(1) by (simp add: a wf_mime_def memcpy_at_def)
  show "pend (rfc2045_add_workbuf p s) = pend p @ s"
    using b by (simp add: a pend_def)
  show "decode_func (rfc2045_add_workbuf p s) = decode_func p"
    "misc_decode_ptr (rfc2045_add_workbuf p s) = misc_decode_ptr p" by (simp_all add: a)
qed

lemmas add_workbufch_spec = add_workbuf_spec[where s = "[c]" for c, folded rfc2045_add_workbufch_def]

lemma last_five:
  assumes "t = dropWhile (\<lambda>c. c \<noteq> ch CHR ''='') (drop (length w - 5) w)" and "2 \<le> length w"
  shows "\<exists>v. w = v @ t \<and> length v = length w - length t \<and> cut_ok v (t @ ys)"
proof -
  let ?P = "\<lambda>c. c \<noteq> ch CHR ''=''" and ?d = "drop (length w - 5) w"
  let ?v = "take (length w - 5) w @ takeWhile ?P ?d"
  have w: "w = ?v @ t" using assms(1) by simp
  have "cut_ok ?v (t @ ys)"
  proof (cases t)
    case (Cons x xs)
    then have "\<not> ?P x" using assms(1) hd_dropWhile[of ?P ?d] by simp
    with Cons show ?thesis by (simp add: cut_ok_def)
  next
    case Nil
    then have t: "takeWhile ?P ?d = ?d" using assms(1) by (simp add: takeWhile_eq_all_conv)
    then have "?v = w" using w Nil by simp
    moreover have "\<forall>x\<in>set ?d. ?P x" using t by (simp add: takeWhile_eq_all_conv)
    moreover have "set (drop (length w - 2) w) \<subseteq> set ?d" by (rule set_drop_subset_set_drop) simp
    ultimately show ?thesis by (auto simp: cut_ok_def)
  qed
  with w show ?thesis by (metis add_diff_cancel_right' length_append)
qed

context sink
begin

lemma do_decode_qp_spec:
  assumes "wf_mime p"
  obtains p' where "do_decode_qp f p = (0, p')" "wf_mime p'" "pend p' = []"
    "text_of (misc_decode_ptr p') = text_of (misc_decode_ptr p) @ qp_dec (pend p)"
    "decode_func p' = decode_func p"
proof -
  obtain b buf where l: "qp_loop_dec (mime_workbuflen p) 0 0 (mime_workbuf p) = (b, buf)" by fastforce
  have t: "take b buf = qp_dec (pend p)" and len: "length buf = length (mime_workbuf p)"
    using qp_loop_dec_list[of 0 0 "mime_workbuflen p" "mime_workbuf p"] assms l
    by (simp_all add: wf_mime_def pend_def)
  obtain s where "f (take b buf) (misc_decode_ptr p) = (0, s)"
    "text_of s = text_of (misc_decode_ptr p) @ take b buf" by (rule callback_cases)
  with t l show ?thesis
    by (intro that[of "p\<lparr>mime_workbuf := buf, mime_workbuflen := 0, misc_decode_ptr := s\<rparr>"])
      (simp_all add: do_decode_qp_def wf_mime_def pend_def)
qed

text \<open>The early decoding of a long run takes a prefix of the meaning.\<close>

lemma decode_qp_long_spec:
  assumes "wf_mime p" and "ch CHR ''\<newline>'' \<notin> set (pend p)" and "qp_ref (pend p @ rest) = Some zs"
  shows "\<exists>p' us vs. decode_qp_long f p = (0, p') \<and> wf_mime p' \<and> ch CHR ''\<newline>'' \<notin> set (pend p') \<and>
    qp_ref (pend p' @ rest) = Some vs \<and> zs = us @ vs \<and> decode_func p' = decode_func p \<and>
    text_of (misc_decode_ptr p') = text_of (misc_decode_ptr p) @ us"
proof (cases "1024 < mime_workbuflen p")
  case False
  with assms show ?thesis
    by (intro exI[of _ p] exI[of _ "[]"] exI[of _ zs]) (simp add: decode_qp_long_def)
next
  case True
  let ?n = "mime_workbuflen p"
  define t where "t = dropWhile (\<lambda>c. c \<noteq> ch CHR ''='') (drop (?n - 5) (pend p))"
  have n: "length (pend p) = ?n" using assms(1) by (rule length_pend)
  have "2 \<le> length (pend p)" using n True by simp
  from last_five[OF _ this, of t rest] obtain v where
    v: "pend p = v @ t" "length v = ?n - length t" "cut_ok v (t @ rest)" by (auto simp: t_def n)
  obtain us vs where u: "qp_ref v = Some us" "qp_ref (t @ rest) = Some vs" "zs = us @ vs"
    using qp_ref_cut[OF _ v(3), of zs] assms(3) v(1) by auto
  let ?p = "p\<lparr>mime_workbuflen := ?n - length t\<rparr>"
  have "pend ?p = take (?n - length t) (pend p)" by (simp add: pend_def min_def)
  then have pv: "pend ?p = v" by (simp add: v flip: v(2))
  have wf: "wf_mime ?p" using assms(1) by (simp add: wf_mime_def)
  obtain p1 where p1: "do_decode_qp f ?p = (0, p1)" "wf_mime p1" "pend p1 = []"
    "text_of (misc_decode_ptr p1) = text_of (misc_decode_ptr ?p) @ qp_dec (pend ?p)"
    "decode_func p1 = decode_func ?p" by (rule do_decode_qp_spec[OF wf])
  have "ch CHR ''\<newline>'' \<notin> set (butlast v)" using assms(2) v(1) by (auto dest: in_set_butlastD)
  with u(1) have dec: "qp_dec v = us" by (rule qp_dec_ref)
  have "0 \<notin> set (pend p @ rest)" using assms(3) by (rule qp_ref_no_zero)
  then have tw: "takeWhile (\<lambda>c. c \<noteq> 0) t = t" using v(1) by (auto simp: takeWhile_eq_all_conv)
  have d: "dropWhile (\<lambda>c. c \<noteq> ch CHR ''='') (drop (?n - 5) (take ?n (mime_workbuf p))) = t"
    by (simp add: t_def pend_def)
  have e: "decode_qp_long f p = (0, rfc2045_add_workbuf p1 t)"
    using True p1(1) by (simp only: decode_qp_long_def Let_def d tw if_True rc_bind_simps)
  show ?thesis
    unfolding e using add_workbuf_spec[OF p1(2), of t] p1 u(2,3) assms(2) v(1) dec
    by (intro exI[of _ "rfc2045_add_workbuf p1 t"] exI[of _ us] exI[of _ vs]) (simp add: pv)
qed

lemma decode_qp_spec:
  "wf_mime p \<Longrightarrow> ch CHR ''\<newline>'' \<notin> set (pend p) \<Longrightarrow> qp_ref (pend p @ s @ rest) = Some zs \<Longrightarrow>
   \<exists>p' us vs. decode_qp f p s = (0, p') \<and> wf_mime p' \<and> ch CHR ''\<newline>'' \<notin> set (pend p') \<and>
    qp_ref (pend p' @ rest) = Some vs \<and> zs = us @ vs \<and> decode_func p' = decode_func p \<and>
    text_of (misc_decode_ptr p') = text_of (misc_decode_ptr p) @ us"
proof (induction "length s" arbitrary: p s zs rule: less_induct)
  case less
  let ?P = "\<lambda>c. c \<noteq> ch CHR ''\<newline>''"
  let ?l = "takeWhile ?P s" and ?r = "dropWhile ?P s"
  show ?case
  proof (cases "s = []")
    case True
    with less.prems show ?thesis
      by (intro exI[of _ p] exI[of _ "[]"] exI[of _ zs]) (simp add: decode_qp.simps)
  next
    case s: False
    let ?p1 = "rfc2045_add_workbuf p ?l"
    note a1 = add_workbuf_spec[OF less.prems(1), of ?l]
    have nl1: "ch CHR ''\<newline>'' \<notin> set (pend ?p1)"
      using less.prems(2) a1(2) by (auto dest: set_takeWhileD)
    show ?thesis
    proof (cases "?r = []")
      case True
      then have sl: "?l = s" by (metis append_Nil2 takeWhile_dropWhile_id)
      have "pend ?p1 = pend p @ s" using a1(2) by (simp only: sl)
      with less.prems(3) have "qp_ref (pend ?p1 @ rest) = Some zs" by (simp only: append_assoc)
      from decode_qp_long_spec[OF a1(1) nl1 this] obtain p' us vs where
        "decode_qp_long f ?p1 = (0, p')" "wf_mime p'" "ch CHR ''\<newline>'' \<notin> set (pend p')"
        "qp_ref (pend p' @ rest) = Some vs" "zs = us @ vs" "decode_func p' = decode_func ?p1"
        "text_of (misc_decode_ptr p') = text_of (misc_decode_ptr ?p1) @ us" by blast
      with True s a1(3,4) show ?thesis
        by (intro exI[of _ p'] exI[of _ us] exI[of _ vs])
          (simp add: decode_qp.simps[of f p s] decode_qp.simps[of f p' "[]"] Let_def)
    next
      case False
      then obtain r where r: "?r = ch CHR ''\<newline>'' # r" using hd_dropWhile[of ?P s] by (cases ?r) auto
      then have s': "s = ?l @ ch CHR ''\<newline>'' # r" by (metis takeWhile_dropWhile_id)
      let ?p2 = "rfc2045_add_workbufch ?p1 (ch CHR ''\<newline>'')"
      note a2 = add_workbufch_spec[OF a1(1), of "ch CHR ''\<newline>''"]
      have "pend p @ s @ rest = pend ?p2 @ r @ rest" unfolding a2(2) a1(2) by (subst s') simp
      with less.prems(3) have "qp_ref (pend ?p2 @ r @ rest) = Some zs" by (simp only:)
      moreover have "cut_ok (pend ?p2) (r @ rest)" by (simp add: cut_ok_def a2(2))
      ultimately obtain us1 vs1 where u1: "qp_ref (pend ?p2) = Some us1" "qp_ref (r @ rest) = Some vs1" "zs = us1 @ vs1"
        using qp_ref_cut[of "pend ?p2" "r @ rest" zs] by blast
      obtain p3 where p3: "do_decode_qp f ?p2 = (0, p3)" "wf_mime p3" "pend p3 = []"
        "text_of (misc_decode_ptr p3) = text_of (misc_decode_ptr ?p2) @ qp_dec (pend ?p2)"
        "decode_func p3 = decode_func ?p2" by (rule do_decode_qp_spec[OF a2(1)])
      have dec: "qp_dec (pend ?p2) = us1"
        using qp_dec_ref[OF u1(1)] nl1 by (simp add: a2(2))
      let ?p4 = "rfc2045_add_workbuf p3 []"
      note a4 = add_workbuf_spec[OF p3(2), of "[]"]
      have "mime_workbuflen ?p4 = 0" using length_pend[OF a4(1)] a4(2) p3(3) by simp
      then have long: "decode_qp_long f ?p4 = (0, ?p4)" by (simp add: decode_qp_long_def)
      have lr: "length r < length s" by (subst s') simp
      have "ch CHR ''\<newline>'' \<notin> set (pend ?p4)" "qp_ref (pend ?p4 @ r @ rest) = Some vs1"
        using a4(2) p3(3) u1(2) by simp_all
      from less.hyps[OF lr a4(1) this] obtain p' us2 vs where
        "decode_qp f ?p4 r = (0, p')" "wf_mime p'" "ch CHR ''\<newline>'' \<notin> set (pend p')"
        "qp_ref (pend p' @ rest) = Some vs" "vs1 = us2 @ vs" "decode_func p' = decode_func ?p4"
        "text_of (misc_decode_ptr p') = text_of (misc_decode_ptr ?p4) @ us2" by blast
      with s r False p3 long a1 a2 a4 dec u1(3) show ?thesis
        by (intro exI[of _ p'] exI[of _ "us1 @ us2"] exI[of _ vs])
          (simp add: decode_qp.simps[of f p s] Let_def)
    qed
  qed
qed

end

section \<open>The base64 loops\<close>

abbreviation good64 :: "u8 \<Rightarrow> bool" where
  "good64 c \<equiv> code64 c < 100"

lemma keep64_filter:
  "j \<le> i \<Longrightarrow> i \<le> n \<Longrightarrow> n \<le> length buf \<Longrightarrow>
   (case keep64 n i j buf of (j', buf') \<Rightarrow> j' \<le> n \<and> length buf' = length buf \<and>
      take j' buf' = take j buf @ filter good64 (drop i (take n buf)))"
proof (induction n i j buf rule: keep64.induct)
  case (1 n i j buf)
  show ?case
  proof (cases "i < n")
    case False
    with "1.prems" show ?thesis by (simp add: keep64.simps[of n n])
  next
    case True
    then have d: "drop i (take n buf) = buf ! i # drop (Suc i) (take n buf)"
      using "1.prems" by (simp add: Cons_nth_drop_Suc[symmetric])
    from True "1.prems" "1.IH" show ?thesis
      by (simp add: keep64.simps[of n i] d drop_take_update take_update split: prod.splits)
  qed
qed

lemma quad64_chars:
  assumes "k \<le> j" "j + 4 \<le> length buf"
  shows "case quad64 j (k, buf) of (k', buf') \<Rightarrow>
     k' \<le> j + 4 \<and> length buf' = length buf \<and>
     take k' buf' = take k buf @ dec_chars (take 4 (drop j buf)) \<and>
     drop (j + 4) buf' = drop (j + 4) buf"
proof -
  have q: "take 4 (drop j buf) = [buf ! j, buf ! (j + 1), buf ! (j + 2), buf ! (j + 3)]"
    using assms(2) by (intro nth_equalityI) (auto simp: nth_Cons numeral_eq_Suc less_Suc_eq split: nat.splits)
  show ?thesis
    using assms by (simp add: quad64_def Let_def q take_update del: take_Suc)
qed

lemma dec_chars_append: "4 dvd length cs \<Longrightarrow> dec_chars (cs @ ds) = dec_chars cs @ dec_chars ds"
proof (induction cs rule: dec_chars.induct)
  case (1 w x y z cs)
  then have "4 dvd length cs" by simp presburger
  with 1 show ?case by (simp add: Let_def)
qed (auto dest!: dvd_imp_le)

lemma loop64_chars:
  "k \<le> j \<Longrightarrow> j \<le> i \<Longrightarrow> i \<le> length buf \<Longrightarrow> 4 dvd i - j \<Longrightarrow>
   (case loop64 i j (k, buf) of (k', buf') \<Rightarrow>
     k' \<le> i \<and> length buf' = length buf \<and>
     take k' buf' = take k buf @ dec_chars (take (i - j) (drop j buf)) \<and> drop i buf' = drop i buf)"
proof (induction i j "(k, buf)" arbitrary: k buf rule: loop64.induct)
  case (1 i j k buf)
  show ?case
  proof (cases "j < i")
    case False
    with "1.prems" have "loop64 i j (k, buf) = (k, buf)" "i = j"
      by (simp_all add: loop64.simps)
    with "1.prems" show ?thesis by simp
  next
    case True
    with "1.prems"(4) have j4: "j + 4 \<le> i" "4 dvd i - (j + 4)" by presburger+
    obtain k' buf' where g: "quad64 j (k, buf) = (k', buf')" by fastforce
    have g': "k' \<le> j + 4" "length buf' = length buf"
      "take k' buf' = take k buf @ dec_chars (take 4 (drop j buf))" "drop (j + 4) buf' = drop (j + 4) buf"
      using quad64_chars[of k j buf] "1.prems" j4 g by auto
    have "take (i - j) (drop j buf) = take 4 (drop j buf) @ take (i - (j + 4)) (drop (j + 4) buf)"
      using j4 take_add[of 4 "i - (j + 4)" "drop j buf"] by (simp add: add.commute)
    moreover have "4 dvd length (take 4 (drop j buf))" using j4 "1.prems" by simp
    moreover have "drop i buf = drop (i - (j + 4)) (drop (j + 4) buf)"
      "drop i buf' = drop (i - (j + 4)) (drop (j + 4) buf')" using j4 by simp_all
    ultimately show ?thesis
      using "1.hyps"[OF True g] "1.prems" g' j4 True g
      by (simp add: loop64.simps[of i j] dec_chars_append split: prod.splits)
  qed
qed

lemma dec_chars_short: "length cs < 4 \<Longrightarrow> dec_chars cs = []"
  by (induction cs rule: dec_chars.induct) auto

lemma dec_chars_cut:
  fixes cs :: bytes
  defines "n \<equiv> length cs div 4 * 4"
  shows "dec_chars (cs @ ds) = dec_chars (take n cs) @ dec_chars (drop n cs @ ds)"
proof -
  have "dec_chars (take n cs @ (drop n cs @ ds)) = dec_chars (take n cs) @ dec_chars (drop n cs @ ds)"
    by (rule dec_chars_append) (simp add: n_def)
  moreover have "take n cs @ (drop n cs @ ds) = cs @ ds"
    by (simp only: append_take_drop_id flip: append_assoc)
  ultimately show ?thesis by simp
qed

context sink
begin

lemma do_decode_base64_spec:
  assumes "wf_mime p"
  obtains p' where "do_decode_base64 f p = (0, p')" "wf_mime p'" "decode_func p' = decode_func p"
    "\<forall>zs. text_of (misc_decode_ptr p') @ dec_chars (filter good64 (pend p' @ zs)) =
         text_of (misc_decode_ptr p) @ dec_chars (filter good64 (pend p @ zs))"
    "length (pend p') < 4"
proof -
  let ?cs = "filter good64 (pend p)"
  obtain n buf where k: "keep64 (mime_workbuflen p) 0 0 (mime_workbuf p) = (n, buf)" by fastforce
  have n: "n \<le> length buf" "length buf = length (mime_workbuf p)" "take n buf = ?cs"
    using keep64_filter[of 0 0 "mime_workbuflen p" "mime_workbuf p"] k assms
    by (simp_all add: wf_mime_def pend_def)
  have ln: "length ?cs = n" using n by (simp flip: n(3))
  let ?i = "n div 4 * 4"
  have i: "?i \<le> n" using div_mult_mod_eq[of n 4] by linarith
  obtain m buf1 where l: "loop64 ?i 0 (0, buf) = (m, buf1)" by fastforce
  have m: "take m buf1 = dec_chars (take ?i ?cs)" "length buf1 = length buf" "drop ?i buf1 = drop ?i buf"
    using loop64_chars[of 0 0 ?i buf] l i n(1) by (simp_all add: n(3)[symmetric] min_def)
  obtain s where s: "f (take m buf1) (misc_decode_ptr p) = (0, s)"
    "text_of s = text_of (misc_decode_ptr p) @ take m buf1" by (rule callback_cases)
  obtain m' buf2 where v: "move_loop n ?i 0 buf1 = (m', buf2)" by fastforce
  have m': "m' = n - ?i" "length buf2 = length buf" "take m' buf2 = drop ?i ?cs"
    using move_loop_take[of 0 ?i n buf1] v i n m(2,3) by (auto simp: drop_take simp flip: n(3))
  let ?p = "p\<lparr>mime_workbuf := buf2, mime_workbuflen := m', misc_decode_ptr := s\<rparr>"
  have "do_decode_base64 f p = (0, ?p)"
    using k l s(1) v by (simp add: do_decode_base64_def Let_def)
  moreover have "wf_mime ?p" using m'(1,2) n(1) by (simp add: wf_mime_def)
  moreover have pp: "pend ?p = drop ?i ?cs" by (simp add: pend_def m'(3))
  moreover have "filter good64 (drop ?i ?cs) = drop ?i ?cs"
    by (auto simp: filter_id_conv dest: in_set_dropD)
  moreover have "length (drop ?i ?cs) < 4" by (simp add: ln minus_div_mult_eq_mod)
  ultimately show ?thesis
    using dec_chars_cut[of ?cs] s(2) m(1) by (intro that[of ?p]) (simp_all add: ln)
qed

lemma decode_base64_spec:
  assumes "wf_mime p"
  obtains p' where "decode_base64 f p s = (0, p')" "wf_mime p'" "decode_func p' = decode_func p"
    "\<forall>zs. text_of (misc_decode_ptr p') @ dec_chars (filter good64 (pend p' @ zs)) =
         text_of (misc_decode_ptr p) @ dec_chars (filter good64 (pend p @ s @ zs))"
proof -
  note a = add_workbuf_spec[OF assms, of s]
  show ?thesis
  proof (cases "256 < mime_workbuflen (rfc2045_add_workbuf p s)")
    case True
    obtain p' where "do_decode_base64 f (rfc2045_add_workbuf p s) = (0, p')" "wf_mime p'"
      "decode_func p' = decode_func (rfc2045_add_workbuf p s)"
      "\<forall>zs. text_of (misc_decode_ptr p') @ dec_chars (filter good64 (pend p' @ zs)) =
         text_of (misc_decode_ptr (rfc2045_add_workbuf p s)) @
           dec_chars (filter good64 (pend (rfc2045_add_workbuf p s) @ zs))"
      "length (pend p') < 4" by (rule do_decode_base64_spec[OF a(1)])
    with True a show ?thesis by (intro that[of p']) (simp_all add: decode_base64_def)
  next
    case False
    with a show ?thesis
      by (intro that[of "rfc2045_add_workbuf p s"]) (simp_all add: decode_base64_def)
  qed
qed

end

section \<open>A text decoded in pieces\<close>

text \<open>What a decoder of each kind gives for a whole text.\<close>

definition decodes :: "decoding \<Rightarrow> bytes \<Rightarrow> bytes \<Rightarrow> bool" where
  "decodes d xs ys = (case d of Dec_raw \<Rightarrow> ys = xs | Dec_qp \<Rightarrow> qp_ref xs = Some ys
     | Dec_base64 \<Rightarrow> ys = dec_chars (filter good64 xs))"

context sink
begin

definition cdecode_all :: "'s rfc2045 \<Rightarrow> bytes list \<Rightarrow> 's rfc2045" where
  "cdecode_all p ms = fold (\<lambda>m p. snd (rfc2045_cdecode f p m)) ms p"

lemma cdecode_all_raw:
  "decode_func p = Dec_raw \<Longrightarrow> decode_func (cdecode_all p ms) = Dec_raw \<and>
     text_of (misc_decode_ptr (cdecode_all p ms)) = text_of (misc_decode_ptr p) @ concat ms"
proof (induction ms arbitrary: p)
  case (Cons m ms)
  obtain s where "f m (misc_decode_ptr p) = (0, s)" "text_of s = text_of (misc_decode_ptr p) @ m"
    by (rule callback_cases)
  with Cons.prems Cons.IH[of "p\<lparr>misc_decode_ptr := s\<rparr>"] Cons.IH[of p] show ?case
    by (simp add: cdecode_all_def rfc2045_cdecode_def decode_raw_def)
qed (simp add: cdecode_all_def)

lemma cdecode_all_base64:
  "wf_mime p \<Longrightarrow> decode_func p = Dec_base64 \<Longrightarrow> wf_mime (cdecode_all p ms) \<and>
     decode_func (cdecode_all p ms) = Dec_base64 \<and>
     (\<forall>zs. text_of (misc_decode_ptr (cdecode_all p ms)) @ dec_chars (filter good64 (pend (cdecode_all p ms) @ zs)) =
       text_of (misc_decode_ptr p) @ dec_chars (filter good64 (pend p @ concat ms @ zs)))"
proof (induction ms arbitrary: p)
  case (Cons m ms)
  obtain p' where p': "rfc2045_cdecode f p m = (0, p')" "wf_mime p'" "decode_func p' = Dec_base64"
    "\<forall>zs. text_of (misc_decode_ptr p') @ dec_chars (filter good64 (pend p' @ zs)) =
       text_of (misc_decode_ptr p) @ dec_chars (filter good64 (pend p @ m @ zs))"
  proof (cases "m = []")
    case True
    with Cons.prems show ?thesis by (intro that[of p]) (simp_all add: rfc2045_cdecode_def)
  next
    case False
    obtain p' where "decode_base64 f p m = (0, p')" "wf_mime p'" "decode_func p' = decode_func p"
      "\<forall>zs. text_of (misc_decode_ptr p') @ dec_chars (filter good64 (pend p' @ zs)) =
         text_of (misc_decode_ptr p) @ dec_chars (filter good64 (pend p @ m @ zs))"
      by (rule decode_base64_spec[OF Cons.prems(1)])
    with False Cons.prems(2) show ?thesis by (intro that[of p']) (simp_all add: rfc2045_cdecode_def)
  qed
  with Cons.IH[of p'] show ?case by (simp add: cdecode_all_def del: filter_append)
qed (simp add: cdecode_all_def)

lemma cdecode_all_qp:
  "wf_mime p \<Longrightarrow> ch CHR ''\<newline>'' \<notin> set (pend p) \<Longrightarrow> decode_func p = Dec_qp \<Longrightarrow>
   qp_ref (pend p @ concat ms) = Some zs \<Longrightarrow>
   \<exists>us vs. wf_mime (cdecode_all p ms) \<and> decode_func (cdecode_all p ms) = Dec_qp \<and>
     ch CHR ''\<newline>'' \<notin> set (pend (cdecode_all p ms)) \<and> qp_ref (pend (cdecode_all p ms)) = Some vs \<and> zs = us @ vs \<and>
     text_of (misc_decode_ptr (cdecode_all p ms)) = text_of (misc_decode_ptr p) @ us"
proof (induction ms arbitrary: p zs)
  case Nil
  then show ?case by (simp add: cdecode_all_def)
next
  case (Cons m ms)
  obtain p' us vs where p': "rfc2045_cdecode f p m = (0, p')" "wf_mime p'" "ch CHR ''\<newline>'' \<notin> set (pend p')"
    "qp_ref (pend p' @ concat ms) = Some vs" "zs = us @ vs" "decode_func p' = Dec_qp"
    "text_of (misc_decode_ptr p') = text_of (misc_decode_ptr p) @ us"
  proof (cases "m = []")
    case True
    with Cons.prems show ?thesis by (intro that[of p zs "[]"]) (simp_all add: rfc2045_cdecode_def)
  next
    case False
    from decode_qp_spec[OF Cons.prems(1,2), of m "concat ms" zs] Cons.prems(4) obtain p' us vs where
      "decode_qp f p m = (0, p')" "wf_mime p'" "ch CHR ''\<newline>'' \<notin> set (pend p')"
      "qp_ref (pend p' @ concat ms) = Some vs" "zs = us @ vs" "decode_func p' = decode_func p"
      "text_of (misc_decode_ptr p') = text_of (misc_decode_ptr p) @ us" by auto
    with False Cons.prems(3) show ?thesis by (intro that[of p' vs us]) (simp_all add: rfc2045_cdecode_def)
  qed
  from Cons.IH[OF p'(2,3,6,4)] obtain us' vs' where
    "wf_mime (cdecode_all p' ms)" "decode_func (cdecode_all p' ms) = Dec_qp"
    "ch CHR ''\<newline>'' \<notin> set (pend (cdecode_all p' ms))" "qp_ref (pend (cdecode_all p' ms)) = Some vs'" "vs = us' @ vs'"
    "text_of (misc_decode_ptr (cdecode_all p' ms)) = text_of (misc_decode_ptr p') @ us'" by blast
  moreover have "cdecode_all p (m # ms) = cdecode_all p' ms" using p'(1) by (simp add: cdecode_all_def)
  ultimately show ?case using p'(5,7) by (auto intro: exI[of _ "us @ us'"])
qed

lemma cdecode_end_spec:
  assumes "p0 = rfc2045_cdecode_start p a" and "decodes (decode_func p0) (concat ms) ys"
  shows "case rfc2045_cdecode_end f (cdecode_all p0 ms) of (rc, p') \<Rightarrow>
    rc = 0 \<and> text_of (misc_decode_ptr p') = text_of a @ ys"
proof -
  have wf: "wf_mime p0" and pe: "pend p0 = []" and a: "misc_decode_ptr p0 = a"
    using assms(1) by (auto simp: rfc2045_cdecode_start_def Let_def wf_mime_def pend_def)
  let ?p = "cdecode_all p0 ms"
  show ?thesis
  proof (cases "decode_func p0")
    case Dec_raw
    with cdecode_all_raw[OF this, of ms] assms(2) a show ?thesis
      by (simp add: rfc2045_cdecode_end_def decodes_def)
  next
    case Dec_qp
    with assms(2) pe have "ch CHR ''\<newline>'' \<notin> set (pend p0)" "qp_ref (pend p0 @ concat ms) = Some ys"
      by (simp_all add: decodes_def)
    from cdecode_all_qp[OF wf this(1) Dec_qp this(2)] obtain us vs where
      q: "wf_mime ?p" "decode_func ?p = Dec_qp" "ch CHR ''\<newline>'' \<notin> set (pend ?p)" "qp_ref (pend ?p) = Some vs"
      "ys = us @ vs" "text_of (misc_decode_ptr ?p) = text_of a @ us" by (auto simp: a)
    obtain p' where "do_decode_qp f ?p = (0, p')"
      "text_of (misc_decode_ptr p') = text_of (misc_decode_ptr ?p) @ qp_dec (pend ?p)"
      by (rule do_decode_qp_spec[OF q(1)])
    moreover have "qp_dec (pend ?p) = vs" using q(3,4) by (intro qp_dec_ref) (auto dest: in_set_butlastD)
    ultimately show ?thesis using q by (simp add: rfc2045_cdecode_end_def)
  next
    case Dec_base64
    from cdecode_all_base64[OF wf this, of ms] have
      b: "wf_mime ?p" "decode_func ?p = Dec_base64"
      "text_of (misc_decode_ptr ?p) @ dec_chars (filter good64 (pend ?p)) =
         text_of a @ dec_chars (filter good64 (concat ms))"
      by (auto simp: a pe dest: spec[of _ "[]"])
    obtain p' where "do_decode_base64 f ?p = (0, p')" "length (pend p') < 4"
      "\<forall>zs. text_of (misc_decode_ptr p') @ dec_chars (filter good64 (pend p' @ zs)) =
         text_of (misc_decode_ptr ?p) @ dec_chars (filter good64 (pend ?p @ zs))"
      by (rule do_decode_base64_spec[OF b(1)])
    moreover from this(2) have "dec_chars (filter good64 (pend p')) = []"
      by (intro dec_chars_short) (use length_filter_le[of good64 "pend p'"] in linarith)
    ultimately have "text_of (misc_decode_ptr p') = text_of (misc_decode_ptr ?p) @ dec_chars (filter good64 (pend ?p))"
      by (metis append_Nil2)
    with \<open>do_decode_base64 f ?p = (0, p')\<close> b assms(2) Dec_base64 show ?thesis
      by (simp add: rfc2045_cdecode_end_def decodes_def)
  qed
qed

end

section \<open>What the encoder wrote is what the decoder reads\<close>

lemma xdigit_hex: "n < 16 \<Longrightarrow> hexval (xdigit ! n) = Some n \<and> xdigit ! n \<noteq> ch CHR ''\<newline>''"
proof -
  have "list_all (\<lambda>n. hexval (xdigit ! n) = Some n \<and> xdigit ! n \<noteq> ch CHR ''\<newline>'') [0..<16]" by code_simp
  then show "n < 16 \<Longrightarrow> hexval (xdigit ! n) = Some n \<and> xdigit ! n \<noteq> ch CHR ''\<newline>''"
    by (simp add: list_all_iff)
qed

lemma qp_ref_escape: "qp_ref (qp_escape p @ rest) = map_option ((#) p) (qp_ref rest)"
proof -
  have m: "mask 4 = (15 :: u8)" by (simp add: mask_eq_exp_minus_1)
  have "unat p < 256" using unsigned_less[of p] by simp
  then have "unat p div 16 < 16" by simp
  then have h: "unat (drop_bit 4 p AND 15) = unat p div 16"
    by (simp add: unat_and_low[OF m] unat_drop_div)
  have l: "unat (p AND 15) = unat p mod 16" by (simp add: unat_and_low[OF m])
  have "(of_nat (unat p div 16 * 16 + unat p mod 16) :: u8) = p"
    by (simp only: div_mult_mod_eq) (simp only: of_nat_unat ucast_id)
  then have p: "(of_nat (unat p div 16) * 16 + of_nat (unat p mod 16) :: u8) = p"
    by (simp only: of_nat_add of_nat_mult of_nat_numeral)
  show ?thesis
    using xdigit_hex[of "unat p div 16"] xdigit_hex[of "unat p mod 16"] \<open>unat p div 16 < 16\<close>
    by (simp add: qp_escape_def h l newline_byte p)
qed

lemma qp_text_ref:
  "\<exists>ys. qp_ref (snd (qp_text (sp, col) xs)) = Some ys \<and>
     ys @ (if fst (fst (qp_text (sp, col) xs)) then [ch CHR '' ''] else []) =
     (if sp then [ch CHR '' ''] else []) @ xs"
proof (induction xs arbitrary: sp col)
  case Nil
  then show ?case by simp
next
  case (Cons p ps)
  have spc: "ch CHR '' '' \<noteq> 0" "ch CHR '' '' \<noteq> ch CHR ''=''" "str '' '' = [ch CHR '' '']"
    "str ''=20'' = qp_escape (ch CHR '' '')" "str ''=\<newline>'' = [ch CHR ''='', ch CHR ''\<newline>'']" by code_simp+
  let ?pre = "if sp then [ch CHR '' ''] else []"
  obtain st out where step: "qp_step (sp, col) p = (st, out)" by fastforce
  from Cons.IH[of "fst st" "snd st"] obtain ys where
    ys: "qp_ref (snd (qp_text st ps)) = Some ys"
    "ys @ (if fst (fst (qp_text st ps)) then [ch CHR '' ''] else []) = (if fst st then [ch CHR '' ''] else []) @ ps"
    by auto
  have e: "qp_text (sp, col) (p # ps) = (fst (qp_text st ps), out @ snd (qp_text st ps))"
    by (simp add: step case_prod_unfold del: qp_step.simps)
  consider (sp) "p = ch CHR '' ''" | (nl) "p = ch CHR ''\<newline>''"
    | (other) "p \<noteq> ch CHR '' ''" "p \<noteq> ch CHR ''\<newline>''" by blast
  then show ?case
  proof cases
    case sp
    then have "fst st" "out = ?pre" using step newline_facts(3) by (auto simp: spc(3) Let_def split: if_splits)
    with ys sp show ?thesis unfolding e by (auto simp: spc)
  next
    case nl
    then have "\<not> fst st" "out = (if sp then qp_escape (ch CHR '' '') else []) @ [p]"
      using step newline_facts(3) spc by (auto simp: Let_def split: if_splits)
    with ys nl newline_byte show ?thesis unfolding e by (auto simp: qp_ref_escape)
  next
    case other
    let ?t = "if qp_plain p then [p] else qp_escape p"
    have "qp_plain p \<Longrightarrow> p \<noteq> 0 \<and> p \<noteq> ch CHR ''=''" by (auto simp: qp_plain_def)
    then have t: "qp_ref (?t @ rest) = map_option ((#) p) (qp_ref rest)" for rest
      by (simp add: qp_ref_escape)
    from other obtain brk where "\<not> fst st" "out = ?pre @ (if brk then [ch CHR ''='', ch CHR ''\<newline>''] else []) @ ?t"
      using step spc by (auto simp: Let_def split: if_splits)
    with ys spc newline_byte t show ?thesis unfolding e by auto
  qed
qed

lemma code64_tab: "n < 64 \<Longrightarrow> code64 (base64tab ! n) = n"
proof -
  have "list_all (\<lambda>n. code64 (base64tab ! n) = n) [0..<64]" by code_simp
  then show "n < 64 \<Longrightarrow> code64 (base64tab ! n) = n" by (simp add: list_all_iff)
qed

lemma code64_digit [simp]: "code64 (digit64 n) = n mod 64"
  by (simp add: digit64_def code64_tab)

lemma code64_special [simp]: "code64 (ch CHR ''='') = 99" "code64 (ch CHR ''\<newline>'') = 100"
  by code_simp+

lemma ucast_digit: "(of_nat (m mod 64) :: u32) = ucast (of_nat (m mod 64) :: u8)"
  by (simp add: word_unat_eq_iff unat_ucast_ge unat_of_nat)

lemma good64_digit: "good64 (digit64 n)"
proof -
  have "n mod 64 < 64" by simp
  then have "n mod 64 < 100" by linarith
  then show ?thesis by (simp only: code64_digit)
qed

lemma filter_good64_rfc4648: "filter good64 (rfc4648 xs) = rfc4648 xs"
  by (induction xs rule: rfc4648.induct) (simp_all add: Let_def good64_digit del: code64_digit)

lemma dec_chars_rfc4648: "dec_chars (rfc4648 xs @ cs) = xs @ dec_chars cs"
proof (induction xs rule: rfc4648.induct)
  case (1 a b c xs)
  then show ?case
    using combine_digits[where a = a and b = b and c = c] by (simp add: Let_def ucast_digit)
next
  case (2 a b)
  then show ?case
    using combine_digits[where a = a and b = b and c = 0] by (simp add: Let_def ucast_digit)
next
  case (3 a)
  then show ?case
    using combine_digits[where a = a and b = 0 and c = 0] by (simp add: Let_def ucast_digit)
qed simp

lemma dec_chars_b64_lines: "dec_chars (filter good64 (b64_lines xs)) = xs"
proof (induction xs rule: b64_lines.induct)
  case (1 xs)
  show ?case
  proof (cases "xs = []")
    case False
    with 1 show ?thesis
      by (simp add: b64_lines.simps[of xs] filter_good64_rfc4648 dec_chars_rfc4648)
  qed (simp add: b64_lines.simps)
qed

section \<open>The properties\<close>

definition mime_stack :: "bytes option \<Rightarrow> bytes rfc2045" where
  "mime_stack cte = \<lparr>mime_workbuf = [], mime_workbuflen = 0, decode_func = Dec_raw, misc_decode_ptr = [],
     content_transfer_encoding = cte\<rparr>"

text \<open>
  C25: A well-formed quoted-printable text (no zero byte, every equals sign followed by a newline or by
  two hexadecimal digits) that reaches the decoder in any pieces is decoded to its meaning: neither
  the pieces nor the early decoding of long runs cut an escape.  Every call returns 0.
\<close>

theorem cdecode_qp_stream:
  assumes "qp_ref (concat ms) = Some ys" and "content_transfer_encoding p = Some (str ''quoted-printable'')"
  shows "case rfc2045_cdecode_end save_str
      (fold (\<lambda>m p. snd (rfc2045_cdecode save_str p m)) ms (rfc2045_cdecode_start p a))
    of (rc, p') \<Rightarrow> rc = 0 \<and> misc_decode_ptr p' = a @ ys"
proof -
  have "decode_func (rfc2045_cdecode_start p a) = Dec_qp"
    using assms(2) by (simp add: rfc2045_cdecode_start_def Let_def)
  with save_str.cdecode_end_spec[OF refl, of p a ms ys] assms(1) show ?thesis
    by (simp add: decodes_def save_str.cdecode_all_def)
qed

theorem cdecode_qp_stream_witness:
  "case rfc2045_cdecode_end save_str (fold (\<lambda>m p. snd (rfc2045_cdecode save_str p m))
      [str ''a=3'', str ''D=\<newline>b''] (rfc2045_cdecode_start (mime_stack (Some (str ''quoted-printable''))) []))
    of (rc, p') \<Rightarrow> rc = 0 \<and> misc_decode_ptr p' = [] @ str ''a=b''"
  by (rule cdecode_qp_stream) (code_simp, simp add: mime_stack_def)

text \<open>
  C26: The base64 decoder of the MIME parser, for any pieces: characters outside of the alphabet are
  skipped and the rest is decoded in groups of four, as the reference does with the whole text.
\<close>

theorem cdecode_base64_stream:
  assumes "content_transfer_encoding p = Some (str ''base64'')"
  shows "case rfc2045_cdecode_end save_str
      (fold (\<lambda>m p. snd (rfc2045_cdecode save_str p m)) ms (rfc2045_cdecode_start p a))
    of (rc, p') \<Rightarrow> rc = 0 \<and> misc_decode_ptr p' = a @ dec_chars (filter (\<lambda>c. code64 c < 100) (concat ms))"
proof -
  have "str ''base64'' \<noteq> str ''quoted-printable''" by code_simp
  then have "decode_func (rfc2045_cdecode_start p a) = Dec_base64"
    using assms by (simp add: rfc2045_cdecode_start_def Let_def)
  with save_str.cdecode_end_spec[OF refl, of p a ms "dec_chars (filter (\<lambda>c. code64 c < 100) (concat ms))"]
  show ?thesis by (simp add: decodes_def save_str.cdecode_all_def)
qed

theorem cdecode_base64_stream_witness:
  "case rfc2045_cdecode_end save_str (fold (\<lambda>m p. snd (rfc2045_cdecode save_str p m))
      [str ''a-G'', str ''k=''] (rfc2045_cdecode_start (mime_stack (Some (str ''base64''))) []))
    of (rc, p') \<Rightarrow> rc = 0 \<and>
      misc_decode_ptr p' = [] @ dec_chars (filter (\<lambda>c. code64 c < 100) (concat [str ''a-G'', str ''k='']))"
  by (rule cdecode_base64_stream) (simp add: mime_stack_def)



end
