(* ===== verification/Unicode_Tab.thy ===== *)
theory Unicode_Tab
  imports Prelude
begin

text \<open>
  Character classes: the table lookup of unicode/unicode_tablookup.c, a binary search in the sorted
  ranges of a block of 256 characters, and the grapheme cluster rules of
  unicode/unicode_graphemebreak.c over it.  The tables themselves are generated data and arguments
  here, as they are arguments of \<open>unicode_tab_lookup\<close>.
\<close>

section \<open>The table lookup\<close>

text \<open>
  The three tables: the start of every block in the range table, the ranges (first and last low
  byte), and the class of every range.
\<close>

record unicode_tables =
  unicode_indextab :: "nat list"
  unicode_rangetab :: "(u8 \<times> u8) list"
  unicode_classtab :: "u8 list"

definition BLOCK_SIZE :: nat where "BLOCK_SIZE = 256"

text \<open>The search between \<open>b\<close> and \<open>e\<close> in the ranges \<open>p\<close>; the position of the range that is hit.\<close>

function tab_search :: "('a::linorder \<times> 'a) list \<Rightarrow> 'a \<Rightarrow> nat \<Rightarrow> nat \<Rightarrow> nat option" where
  "tab_search p c b e =
     (if b < e then
        let n = b + (e - b) div 2
        in if fst (p ! n) \<le> c then
             if c \<le> snd (p ! n) then Some n else tab_search p c (n + 1) e
           else tab_search p c b n
      else None)"
  by pat_completeness auto
termination by (relation "measure (\<lambda>(p, c, b, e). e - b)") auto

declare tab_search.simps [simp del]

definition unicode_tab_lookup :: "u32 \<Rightarrow> unicode_tables \<Rightarrow> u8 \<Rightarrow> u8" where
  "unicode_tab_lookup c t uclass =
     (let cl = unat c div BLOCK_SIZE
      in if cl < length (unicode_indextab t) - 1 then
           let start_pos = unicode_indextab t ! cl;
               p = drop start_pos (unicode_rangetab t);
               e = unicode_indextab t ! (cl + 1) - start_pos;
               chmodcl = ucast (c AND 255)
           in (case tab_search p chmodcl 0 e of
                 Some n \<Rightarrow> unicode_classtab t ! (start_pos + n)
               | None \<Rightarrow> uclass)
         else uclass)"

section \<open>The search finds the range\<close>

text \<open>The ranges of a block are in order and do not overlap.\<close>

definition sorted_ranges :: "('a::linorder \<times> 'a) list \<Rightarrow> nat \<Rightarrow> bool" where
  "sorted_ranges p e \<longleftrightarrow> (\<forall>i<e. fst (p ! i) \<le> snd (p ! i)) \<and> (\<forall>i<e. \<forall>j<i. snd (p ! j) < fst (p ! i))"

lemma sorted_rangesD:
  "sorted_ranges p e \<Longrightarrow> i < e \<Longrightarrow> fst (p ! i) \<le> snd (p ! i)"
  "sorted_ranges p e \<Longrightarrow> j < i \<Longrightarrow> i < e \<Longrightarrow> snd (p ! j) < fst (p ! i)"
  by (auto simp: sorted_ranges_def)

lemma range_unique:
  assumes "sorted_ranges p e" "i < e" "j < e"
    and "fst (p ! i) \<le> c" "c \<le> snd (p ! i)" "fst (p ! j) \<le> c" "c \<le> snd (p ! j)"
  shows "i = j"
  using assms sorted_rangesD(2)[OF assms(1), of i j] sorted_rangesD(2)[OF assms(1), of j i]
  by (metis leD le_less_trans linorder_neqE_nat)

lemma tab_search_correct:
  "sorted_ranges p m \<Longrightarrow> e \<le> m \<Longrightarrow>
   (\<forall>i<m. fst (p ! i) \<le> c \<and> c \<le> snd (p ! i) \<longrightarrow> b \<le> i \<and> i < e) \<Longrightarrow>
   (case tab_search p c b e of
      Some n \<Rightarrow> n < m \<and> fst (p ! n) \<le> c \<and> c \<le> snd (p ! n)
    | None \<Rightarrow> \<forall>i<m. \<not> (fst (p ! i) \<le> c \<and> c \<le> snd (p ! i)))"
proof (induction p c b e rule: tab_search.induct)
  case (1 p c b e)
  show ?case
  proof (cases "b < e")
    case False
    with "1.prems" show ?thesis by (auto simp: tab_search.simps[of p c b e])
  next
    case True
    define n where "n = b + (e - b) div 2"
    have n: "b \<le> n" "n < e" "n < m" using True "1.prems"(2) by (auto simp: n_def)
    have unf: "tab_search p c b e = (if fst (p ! n) \<le> c then
        if c \<le> snd (p ! n) then Some n else tab_search p c (n + 1) e else tab_search p c b n)"
      using True by (subst tab_search.simps) (simp add: n_def Let_def)
    consider (hit) "fst (p ! n) \<le> c" "c \<le> snd (p ! n)" | (right) "fst (p ! n) \<le> c" "\<not> c \<le> snd (p ! n)"
      | (left) "\<not> fst (p ! n) \<le> c" by blast
    then show ?thesis
    proof cases
      case hit
      with n show ?thesis by (simp add: unf)
    next
      case right
      have "n + 1 \<le> i" if "i < m" "fst (p ! i) \<le> c" "c \<le> snd (p ! i)" for i
      proof (rule ccontr)
        assume "\<not> n + 1 \<le> i"
        then consider "i = n" | "i < n" by linarith
        then show False
        proof cases
          case 1
          with that right show False by simp
        next
          case 2
          from sorted_rangesD(2)[OF "1.prems"(1) this n(3)] right(1) that(3) show False by simp
        qed
      qed
      then have "\<forall>i<m. fst (p ! i) \<le> c \<and> c \<le> snd (p ! i) \<longrightarrow> n + 1 \<le> i \<and> i < e"
        using "1.prems"(3) by blast
      from "1.IH"(1)[OF True n_def _ _ "1.prems"(1,2) this] right show ?thesis by (simp add: unf)
    next
      case left
      have "i < n" if "i < m" "fst (p ! i) \<le> c" "c \<le> snd (p ! i)" for i
      proof (rule ccontr)
        assume "\<not> i < n"
        then consider "i = n" | "n < i" by linarith
        then show False
        proof cases
          case 1
          with that left show False by simp
        next
          case 2
          have "fst (p ! n) < fst (p ! i)"
            by (rule le_less_trans[OF sorted_rangesD(1)[OF "1.prems"(1) n(3)] sorted_rangesD(2)[OF "1.prems"(1) 2 that(1)]])
          from order.strict_trans2[OF this that(2)] left show False by simp
        qed
      qed
      then have "\<forall>i<m. fst (p ! i) \<le> c \<and> c \<le> snd (p ! i) \<longrightarrow> b \<le> i \<and> i < n"
        using "1.prems"(3) by blast
      from "1.IH"(2)[OF True n_def _ "1.prems"(1) _ this] left n show ?thesis by (simp add: unf)
    qed
  qed
qed

text \<open>What the tables say: character \<open>c\<close> has class \<open>k\<close> if a range of its block holds its low byte.\<close>

definition tab_says :: "unicode_tables \<Rightarrow> u32 \<Rightarrow> u8 \<Rightarrow> bool" where
  "tab_says t c k \<longleftrightarrow> (\<exists>i. unat c div 256 + 1 < length (unicode_indextab t) \<and>
     unicode_indextab t ! (unat c div 256) \<le> i \<and> i < unicode_indextab t ! (unat c div 256 + 1) \<and>
     fst (unicode_rangetab t ! i) \<le> ucast (c AND 255) \<and> ucast (c AND 255) \<le> snd (unicode_rangetab t ! i) \<and>
     k = unicode_classtab t ! i)"

definition wf_tables :: "unicode_tables \<Rightarrow> bool" where
  "wf_tables t \<longleftrightarrow> (\<forall>b. b + 1 < length (unicode_indextab t) \<longrightarrow>
     unicode_indextab t ! (b + 1) \<le> length (unicode_rangetab t) \<and>
     sorted_ranges (drop (unicode_indextab t ! b) (unicode_rangetab t))
       (unicode_indextab t ! (b + 1) - unicode_indextab t ! b))"

lemma tab_lookup_cases:
  assumes "wf_tables t"
  shows "(\<forall>k. tab_says t c k \<longrightarrow> unicode_tab_lookup c t d = k) \<and>
    ((\<nexists>k. tab_says t c k) \<longrightarrow> unicode_tab_lookup c t d = d)"
proof (cases "unat c div 256 + 1 < length (unicode_indextab t)")
  case False
  then show ?thesis by (auto simp: tab_says_def unicode_tab_lookup_def BLOCK_SIZE_def Let_def)
next
  case True
  let ?cl = "unat c div 256"
  define s where "s = unicode_indextab t ! ?cl"
  define e where "e = unicode_indextab t ! (?cl + 1) - s"
  define p where "p = drop s (unicode_rangetab t)"
  define m where "m = (ucast (c AND 255) :: u8)"
  have wf: "sorted_ranges p e" "s + e \<le> length (unicode_rangetab t) \<or> e = 0"
    using assms True by (auto simp: wf_tables_def s_def e_def p_def)
  have nth: "p ! i = unicode_rangetab t ! (s + i)" if "i < e" for i
    using wf(2) that by (auto simp: p_def)
  have look: "unicode_tab_lookup c t d =
      (case tab_search p m 0 e of Some n \<Rightarrow> unicode_classtab t ! (s + n) | None \<Rightarrow> d)"
  proof -
    have "?cl < length (unicode_indextab t) - 1" using True by linarith
    then have "unicode_tab_lookup c t d = (case tab_search (drop s (unicode_rangetab t)) m 0
        (unicode_indextab t ! (?cl + 1) - s) of Some n \<Rightarrow> unicode_classtab t ! (s + n) | None \<Rightarrow> d)"
      unfolding unicode_tab_lookup_def BLOCK_SIZE_def Let_def s_def m_def by (simp only: if_True)
    then show ?thesis by (simp only: e_def p_def)
  qed
  have search: "case tab_search p m 0 e of
      Some n \<Rightarrow> n < e \<and> fst (p ! n) \<le> m \<and> m \<le> snd (p ! n)
    | None \<Rightarrow> \<forall>i<e. \<not> (fst (p ! i) \<le> m \<and> m \<le> snd (p ! i))"
    by (rule tab_search_correct[OF wf(1)]) auto
  have says: "tab_says t c k \<longleftrightarrow> (\<exists>i<e. fst (p ! i) \<le> m \<and> m \<le> snd (p ! i) \<and> k = unicode_classtab t ! (s + i))" for k
  proof
    assume "tab_says t c k"
    then obtain i where i: "s \<le> i" "i < unicode_indextab t ! (?cl + 1)" "fst (unicode_rangetab t ! i) \<le> m"
      "m \<le> snd (unicode_rangetab t ! i)" "k = unicode_classtab t ! i"
      by (auto simp: tab_says_def s_def m_def)
    then have "i - s < e" by (simp add: e_def)
    with i nth[of "i - s"] show "\<exists>i<e. fst (p ! i) \<le> m \<and> m \<le> snd (p ! i) \<and> k = unicode_classtab t ! (s + i)"
      by (intro exI[of _ "i - s"]) simp
  next
    assume "\<exists>i<e. fst (p ! i) \<le> m \<and> m \<le> snd (p ! i) \<and> k = unicode_classtab t ! (s + i)"
    then obtain i where "i < e" "fst (p ! i) \<le> m" "m \<le> snd (p ! i)" "k = unicode_classtab t ! (s + i)" by blast
    with nth[of i] True show "tab_says t c k"
      unfolding tab_says_def by (intro exI[of _ "s + i"]) (auto simp: s_def e_def m_def)
  qed
  show ?thesis
  proof (cases "tab_search p m 0 e")
    case None
    with search look says show ?thesis by auto
  next
    case (Some n)
    then have n: "n < e" "fst (p ! n) \<le> m" "m \<le> snd (p ! n)" using search by simp_all
    have "k = unicode_classtab t ! (s + n)" if k: "tab_says t c k" for k
      using k n range_unique[OF wf(1), of _ n m] unfolding says by blast
    moreover have "tab_says t c (unicode_classtab t ! (s + n))" unfolding says using n by blast
    ultimately show ?thesis by (auto simp: look Some)
  qed
qed

text \<open>
  C28: The lookup is correct on well-formed tables: it returns the class of the range that holds the
  character, which is the only one, and the given default when there is none.
\<close>

theorem unicode_tab_lookup_correct:
  assumes "wf_tables t"
  shows "unicode_tab_lookup c t d = k \<longleftrightarrow> tab_says t c k \<or> (\<nexists>k'. tab_says t c k') \<and> k = d"
  using tab_lookup_cases[OF assms, of c d] by metis

definition tiny_tables :: unicode_tables where
  "tiny_tables = \<lparr>unicode_indextab = [0, 2], unicode_rangetab = [(10, 12), (65, 90)], unicode_classtab = [7, 8]\<rparr>"

theorem unicode_tab_lookup_correct_witness:
  "unicode_tab_lookup 66 tiny_tables 255 = 8 \<longleftrightarrow>
    tab_says tiny_tables 66 8 \<or> (\<nexists>k'. tab_says tiny_tables 66 k') \<and> (8 :: u8) = 255"
proof (rule unicode_tab_lookup_correct)
  have "sorted_ranges [(10 :: u8, 12), (65, 90)] 2" by code_simp
  then show "wf_tables tiny_tables" by (simp add: wf_tables_def tiny_tables_def)
qed

section \<open>Grapheme clusters\<close>

text \<open>The classes of unicode_graphemebreak.c.\<close>

abbreviation (input) GRAPHEMEBREAK_ANY :: u8 where "GRAPHEMEBREAK_ANY \<equiv> 0x00"
abbreviation (input) GRAPHEMEBREAK_CR :: u8 where "GRAPHEMEBREAK_CR \<equiv> 0x01"
abbreviation (input) GRAPHEMEBREAK_LF :: u8 where "GRAPHEMEBREAK_LF \<equiv> 0x02"
abbreviation (input) GRAPHEMEBREAK_Control :: u8 where "GRAPHEMEBREAK_Control \<equiv> 0x03"
abbreviation (input) GRAPHEMEBREAK_Extend :: u8 where "GRAPHEMEBREAK_Extend \<equiv> 0x04"
abbreviation (input) GRAPHEMEBREAK_Prepend :: u8 where "GRAPHEMEBREAK_Prepend \<equiv> 0x05"
abbreviation (input) GRAPHEMEBREAK_SpacingMark :: u8 where "GRAPHEMEBREAK_SpacingMark \<equiv> 0x06"
abbreviation (input) GRAPHEMEBREAK_L :: u8 where "GRAPHEMEBREAK_L \<equiv> 0x07"
abbreviation (input) GRAPHEMEBREAK_V :: u8 where "GRAPHEMEBREAK_V \<equiv> 0x08"
abbreviation (input) GRAPHEMEBREAK_T :: u8 where "GRAPHEMEBREAK_T \<equiv> 0x09"
abbreviation (input) GRAPHEMEBREAK_LV :: u8 where "GRAPHEMEBREAK_LV \<equiv> 0x0A"
abbreviation (input) GRAPHEMEBREAK_LVT :: u8 where "GRAPHEMEBREAK_LVT \<equiv> 0x0B"

definition unicode_grapheme_break :: "unicode_tables \<Rightarrow> u32 \<Rightarrow> u32 \<Rightarrow> int" where
  "unicode_grapheme_break t a b =
     (let ac = unicode_tab_lookup a t GRAPHEMEBREAK_ANY;
          bc = unicode_tab_lookup b t GRAPHEMEBREAK_ANY
      in if ac = GRAPHEMEBREAK_CR \<and> bc = GRAPHEMEBREAK_LF then 0
         else if ac \<in> {GRAPHEMEBREAK_CR, GRAPHEMEBREAK_LF, GRAPHEMEBREAK_Control} then 1
         else if bc \<in> {GRAPHEMEBREAK_CR, GRAPHEMEBREAK_LF, GRAPHEMEBREAK_Control} then 1
         else if ac = GRAPHEMEBREAK_L \<and>
             bc \<in> {GRAPHEMEBREAK_L, GRAPHEMEBREAK_V, GRAPHEMEBREAK_LV, GRAPHEMEBREAK_LVT} then 0
         else if (ac = GRAPHEMEBREAK_LV \<or> ac = GRAPHEMEBREAK_V) \<and>
             (bc = GRAPHEMEBREAK_V \<or> bc = GRAPHEMEBREAK_T) then 0
         else if (ac = GRAPHEMEBREAK_LVT \<or> ac = GRAPHEMEBREAK_T) \<and> bc = GRAPHEMEBREAK_T then 0
         else if bc = GRAPHEMEBREAK_Extend then 0
         else if bc = GRAPHEMEBREAK_SpacingMark then 0
         else if ac = GRAPHEMEBREAK_Prepend then 0
         else 1)"

text \<open>
  A Hangul syllable is L*, V*, T* in this order.  A class stands for a run of jamo kinds (0 for L,
  1 for V, 2 for T): LV for L V and LVT for L V T.
\<close>

definition jamo :: "u8 \<Rightarrow> nat list" where
  "jamo k = (if k = GRAPHEMEBREAK_L then [0] else if k = GRAPHEMEBREAK_V then [1]
     else if k = GRAPHEMEBREAK_T then [2] else if k = GRAPHEMEBREAK_LV then [0, 1]
     else if k = GRAPHEMEBREAK_LVT then [0, 1, 2] else [])"

text \<open>A sequence of jamo is one syllable block if each step stays at its kind or goes to the next.\<close>

fun one_syllable :: "nat list \<Rightarrow> bool" where
  "one_syllable (x # y # zs) \<longleftrightarrow> (y = x \<or> y = Suc x) \<and> one_syllable (y # zs)"
| "one_syllable _ \<longleftrightarrow> True"

definition is_control :: "u8 \<Rightarrow> bool" where
  "is_control k \<longleftrightarrow> 1 \<le> k \<and> k \<le> 3"

lemma control_classes: "k \<in> {1, 2, 3} \<longleftrightarrow> is_control (k :: u8)"
  by (rule byte_cases[of "\<lambda>k. k \<in> {1, 2, 3} \<longleftrightarrow> is_control k"]) code_simp

lemma jamo_other: "k \<notin> {7, 8, 9, 10, 11} \<Longrightarrow> jamo k = []"
  by (simp add: jamo_def)

lemma jamo_join:
  "jamo a \<noteq> [] \<and> jamo b \<noteq> [] \<and> one_syllable (jamo a @ jamo b) \<longleftrightarrow>
   a = 7 \<and> b \<in> {7, 8, 10, 11} \<or> (a = 10 \<or> a = 8) \<and> (b = 8 \<or> b = 9) \<or> (a = 11 \<or> a = 9) \<and> b = 9"
proof (cases "a \<in> {7, 8, 9, 10, 11} \<and> b \<in> {7, 8, 9, 10, 11}")
  case True
  then show ?thesis by (elim conjE insertE emptyE) (simp_all add: jamo_def)
next
  case False
  then show ?thesis using jamo_other[of a] jamo_other[of b] by auto
qed

text \<open>
  C29: There is no boundary between two characters exactly when they are CR LF, or neither of them
  is a control and the second one extends the first, or the first is a prefix, or both are Hangul
  and together form one syllable block.
\<close>

theorem grapheme_break_rules:
  "unicode_grapheme_break t a b = (let x = unicode_tab_lookup a t 0; y = unicode_tab_lookup b t 0 in
     if x = 1 \<and> y = 2 \<or> \<not> is_control x \<and> \<not> is_control y \<and>
          (y = 4 \<or> y = 6 \<or> x = 5 \<or>
           jamo x \<noteq> [] \<and> jamo y \<noteq> [] \<and> one_syllable (jamo x @ jamo y))
     then 0 else 1)"
  unfolding unicode_grapheme_break_def Let_def control_classes jamo_join by (simp split: if_splits)

end
