(* ===== verification/Reporter.thy ===== *)
theory Reporter
  imports Prelude
begin

text \<open>
  Machines that read the characters of a text one at a time and report to a callback, which may
  stop them by a code other than 0.  A machine can hold reports back until it has seen more of the
  text; the locale \<open>reporter\<close> states the contract (what a state still owes for the rest of a text)
  and derives from it what a whole text reports.  \<open>event_sink\<close> is the contract of a callback that
  never stops its machine.
\<close>

section \<open>Feeding a callback\<close>

text \<open>Handing a sequence of events to a callback, up to the first code other than 0.\<close>

primrec feed :: "('e \<Rightarrow> 's \<Rightarrow> int \<times> 's) \<Rightarrow> 'e list \<Rightarrow> 's \<Rightarrow> int \<times> 's" where
  "feed f [] s = (0, s)"
| "feed f (e # es) s = rc_then (f e s) (feed f es)"

lemma feed_append: "feed f (xs @ ys) s = rc_then (feed f xs s) (feed f ys)"
  by (induction xs arbitrary: s) (auto simp: rc_bind_def split: prod.splits)

lemma feed_single: "feed f [e] s = f e s"
  by (cases "f e s") (auto simp: rc_bind_def)

lemma zip_prefix:
  "length out \<le> length ps \<Longrightarrow> zip (out @ xs) (ps @ cs) = zip out ps @ zip xs (drop (length out) ps @ cs)"
  by (induction out arbitrary: ps) (auto simp: Suc_le_length_iff)

text \<open>A callback that always returns 0 and only updates its argument.\<close>

locale event_sink =
  fixes f :: "'e \<Rightarrow> 's \<Rightarrow> int \<times> 's" and upd :: "'e \<Rightarrow> 's \<Rightarrow> 's"
  assumes event: "f e s = (0, upd e s)"
begin

lemma feed_fold: "feed f es s = (0, fold upd es s)"
  by (induction es arbitrary: s) (simp_all add: event)

end

section \<open>What a machine owes\<close>

text \<open>
  \<open>F\<close> gives the reports that are due if the classes \<open>cs\<close> follow, from the callback argument \<open>s\<close> on.  A
  step owes \<open>F\<close> if it makes the first of these reports, the same for all \<open>cs\<close>, and leaves a valid
  state that owes the rest; or the callback stops it.
\<close>

definition owes :: "('i \<Rightarrow> bool) \<Rightarrow> ('i \<Rightarrow> 'c list \<Rightarrow> 'e list) \<Rightarrow> ('i \<Rightarrow> 's) \<Rightarrow> ('e \<Rightarrow> 's \<Rightarrow> int \<times> 's) \<Rightarrow>
    's \<Rightarrow> ('c list \<Rightarrow> 'e list) \<Rightarrow> int \<times> 'i \<Rightarrow> bool" where
  "owes valid future arg f s F r \<longleftrightarrow>
     (if fst r = 0
      then valid (snd r) \<and>
        (\<exists>out. feed f out s = (0, arg (snd r)) \<and> (\<forall>cs. F cs = out @ future (snd r) cs))
      else \<exists>out. feed f out s = (fst r, arg (snd r)) \<and> (\<forall>cs. \<exists>rest. F cs = out @ rest))"

lemma owes_0:
  "valid j \<Longrightarrow> feed f out s = (0, arg j) \<Longrightarrow> (\<And>cs. F cs = out @ future j cs) \<Longrightarrow> owes valid future arg f s F (0, j)"
  by (auto simp: owes_def)

lemma owes_now:
  "arg j = s \<Longrightarrow> valid j \<Longrightarrow> (\<And>cs. F cs = future j cs) \<Longrightarrow> owes valid future arg f s F (0, j)"
  by (rule owes_0[of _ _ _ "[]"]) auto

lemma owes_error:
  "rc \<noteq> 0 \<Longrightarrow> feed f out s = (rc, arg j) \<Longrightarrow> (\<And>cs. \<exists>rest. F cs = out @ rest) \<Longrightarrow> owes valid future arg f s F (rc, j)"
  by (auto simp: owes_def)

text \<open>Reports made on the way, and what comes after them.\<close>

lemma owes_after:
  assumes "owes valid future arg f s' G r" "feed f out s = (0, s')" "\<And>cs. F cs = out @ G cs"
  shows "owes valid future arg f s F r"
proof (cases "fst r = 0")
  case True
  with assms(1) obtain out' where "valid (snd r)" "feed f out' s' = (0, arg (snd r))"
    "\<And>cs. G cs = out' @ future (snd r) cs" by (auto simp: owes_def)
  with True assms(2,3) show ?thesis
    by (auto simp: owes_def feed_append intro!: exI[of _ "out @ out'"])
next
  case False
  with assms(1) obtain out' where "feed f out' s' = (fst r, arg (snd r))" "\<And>cs. \<exists>rest. G cs = out' @ rest"
    by (auto simp: owes_def)
  moreover from this(2) have "\<exists>rest. F cs = (out @ out') @ rest" for cs by (simp add: assms(3))
  moreover have "feed f (out @ out') s = feed f out' s'" using assms(2) by (simp add: feed_append)
  ultimately show ?thesis using False unfolding owes_def by metis
qed

locale reporter =
  fixes valid :: "'i \<Rightarrow> bool" and future :: "'i \<Rightarrow> 'c list \<Rightarrow> 'e list" and arg :: "'i \<Rightarrow> 's"
    and f :: "'e \<Rightarrow> 's \<Rightarrow> int \<times> 's" and cls :: "'x \<Rightarrow> 'c"
    and step :: "'x \<Rightarrow> 'i \<Rightarrow> int \<times> 'i" and steps :: "'x list \<Rightarrow> 'i \<Rightarrow> int \<times> 'i"
    and fin :: "'i \<Rightarrow> int \<times> 's"
  assumes step_owes: "valid i \<Longrightarrow> owes valid future arg f (arg i) (\<lambda>cs. future i (cls x # cs)) (step x i)"
    and fin_owes: "valid i \<Longrightarrow> fin i = feed f (future i []) (arg i)"
    and steps_Nil: "steps [] i = (0, i)"
    and steps_Cons: "steps (x # xs) i = rc_then (step x i) (steps xs)"
begin

lemma step_cases:
  assumes "valid i"
  obtains (ok) j out where "step x i = (0, j)" "valid j" "feed f out (arg i) = (0, arg j)"
      "\<And>cs. future i (cls x # cs) = out @ future j cs"
    | (error) rc j out where "step x i = (rc, j)" "rc \<noteq> 0" "feed f out (arg i) = (rc, arg j)"
      "\<And>cs. \<exists>rest. future i (cls x # cs) = out @ rest"
  using step_owes[OF assms, of x] that by (cases "step x i") (auto simp: owes_def split: if_splits)

lemma valid_step: "valid i \<Longrightarrow> step x i = (0, j) \<Longrightarrow> valid j"
  by (erule step_cases[of _ x]) auto

theorem text_reports: "valid i \<Longrightarrow> rc_bind (steps xs i) fin arg = feed f (future i (map cls xs)) (arg i)"
proof (induction xs arbitrary: i)
  case Nil
  then show ?case by (simp add: steps_Nil fin_owes)
next
  case (Cons x xs)
  from Cons.prems show ?case
  proof (cases rule: step_cases[where x = x])
    case (ok j out)
    with Cons.IH[of j] show ?thesis by (simp add: steps_Cons feed_append)
  next
    case (error rc j out)
    from error(4)[of "map cls xs"] obtain rest where "future i (cls x # map cls xs) = out @ rest" by blast
    with error show ?thesis by (simp add: steps_Cons feed_append)
  qed
qed

end

end
