(* ===== verification/Wordbreak.thy ===== *)
theory Wordbreak
  imports Unicode_Tab Reporter
begin

text \<open>
  Word boundaries (unicode/unicode_wordbreak.c): the state machine that takes the characters of a
  text one at a time and calls its callback once for each of them, with 1 if there is a word
  boundary before the character; and the scanner for the first word.  The counters of skipped
  characters are natural numbers: they count characters of a text in memory and stay below the
  width of \<open>size_t\<close>.
\<close>

section \<open>Classes and state\<close>

abbreviation (input) WB_ALetter :: u8 where "WB_ALetter \<equiv> 0x00"
abbreviation (input) WB_Numeric :: u8 where "WB_Numeric \<equiv> 0x01"
abbreviation (input) WB_MidLetter :: u8 where "WB_MidLetter \<equiv> 0x02"
abbreviation (input) WB_MidNum :: u8 where "WB_MidNum \<equiv> 0x03"
abbreviation (input) WB_MidNumLet :: u8 where "WB_MidNumLet \<equiv> 0x04"
abbreviation (input) WB_ExtendNumLet :: u8 where "WB_ExtendNumLet \<equiv> 0x05"
abbreviation (input) WB_CR :: u8 where "WB_CR \<equiv> 0x06"
abbreviation (input) WB_LF :: u8 where "WB_LF \<equiv> 0x07"
abbreviation (input) WB_Newline :: u8 where "WB_Newline \<equiv> 0x08"
abbreviation (input) WB_Extend :: u8 where "WB_Extend \<equiv> 0x09"
abbreviation (input) WB_Format :: u8 where "WB_Format \<equiv> 0x0A"
abbreviation (input) WB_Katakana :: u8 where "WB_Katakana \<equiv> 0x0B"
abbreviation (input) WB_OTHER :: u8 where "WB_OTHER \<equiv> 0xFF"

text \<open>The functions the two handler pointers can hold; the end handler may be \<open>NULL\<close>.\<close>

datatype wb_next_handler = Next_sot | Next_wb1and2_done | Next_seen_wb67 | Next_seen_wb1112

datatype wb_end_handler = End_seen_wb67 | End_seen_wb1112

record 's unicode_wb_info =
  prevclass :: u8
  wb4_cnt :: nat
  wb4_extra_cnt :: nat
  next_handler :: wb_next_handler
  end_handler :: "wb_end_handler option"
  cb_arg :: 's

type_synonym 's wb_callback = "int \<Rightarrow> 's \<Rightarrow> int \<times> 's"

definition unicode_wb_init :: "'s \<Rightarrow> 's unicode_wb_info" where
  "unicode_wb_init arg = \<lparr>prevclass = 0, wb4_cnt = 0, wb4_extra_cnt = 0,
     next_handler = Next_sot, end_handler = None, cb_arg = arg\<rparr>"

section \<open>The machine\<close>

definition wb_cb :: "'s wb_callback \<Rightarrow> int \<Rightarrow> 's unicode_wb_info \<Rightarrow> int \<times> 's unicode_wb_info" where
  "wb_cb f flag i = (case f flag (cb_arg i) of (rc, s) \<Rightarrow> (rc, i\<lparr>cb_arg := s\<rparr>))"

text \<open>The loop of \<open>wb4\<close>: the counter goes to 0 in any case, the calls stop at the first error.\<close>

function wb4_loop :: "'s wb_callback \<Rightarrow> int \<Rightarrow> 's unicode_wb_info \<Rightarrow> int \<times> 's unicode_wb_info" where
  "wb4_loop f rc i =
     (if 0 < wb4_cnt i then
        let i = i\<lparr>wb4_cnt := wb4_cnt i - 1\<rparr>
        in if rc = 0 then (case f 0 (cb_arg i) of (rc, s) \<Rightarrow> wb4_loop f rc (i\<lparr>cb_arg := s\<rparr>))
           else wb4_loop f rc i
      else (rc, i))"
  by pat_completeness auto
termination by (relation "measure (\<lambda>(f, rc, i). wb4_cnt i)") auto

declare wb4_loop.simps [simp del]

definition wb4 :: "'s wb_callback \<Rightarrow> 's unicode_wb_info \<Rightarrow> int \<times> 's unicode_wb_info" where
  "wb4 f i = wb4_loop f 0 i"

definition result :: "'s wb_callback \<Rightarrow> int \<Rightarrow> 's unicode_wb_info \<Rightarrow> int \<times> 's unicode_wb_info" where
  "result f flag i = rc_then (wb4 f i) (wb_cb f flag)"

definition SET_HANDLER :: "wb_next_handler \<Rightarrow> wb_end_handler option \<Rightarrow> 's unicode_wb_info \<Rightarrow> 's unicode_wb_info" where
  "SET_HANDLER n e i = i\<lparr>next_handler := n, end_handler := e\<rparr>"

definition sot :: "'s wb_callback \<Rightarrow> u8 \<Rightarrow> 's unicode_wb_info \<Rightarrow> int \<times> 's unicode_wb_info" where
  "sot f cl i = result f 1 (SET_HANDLER Next_wb1and2_done None (i\<lparr>prevclass := cl\<rparr>))"

definition wb1112_done :: "'s wb_callback \<Rightarrow> u8 \<Rightarrow> u8 \<Rightarrow> 's unicode_wb_info \<Rightarrow> int \<times> 's unicode_wb_info" where
  "wb1112_done f prev cl i =
     (if prev = WB_Katakana \<and> cl = WB_Katakana then result f 0 i
      else if prev \<in> {WB_ALetter, WB_Numeric, WB_Katakana, WB_ExtendNumLet} \<and> cl = WB_ExtendNumLet then result f 0 i
      else if prev = WB_ExtendNumLet \<and> cl \<in> {WB_ALetter, WB_Numeric, WB_Katakana} then result f 0 i
      else result f 1 i)"

definition wb67_done :: "'s wb_callback \<Rightarrow> u8 \<Rightarrow> u8 \<Rightarrow> 's unicode_wb_info \<Rightarrow> int \<times> 's unicode_wb_info" where
  "wb67_done f prev cl i =
     (if prev = WB_Numeric \<and> cl = WB_Numeric then result f 0 i
      else if prev = WB_ALetter \<and> cl = WB_Numeric then result f 0 i
      else if prev = WB_Numeric \<and> cl = WB_ALetter then result f 0 i
      else if prev = WB_Numeric \<and> (cl = WB_MidNum \<or> cl = WB_MidNumLet) then
        (0, SET_HANDLER Next_seen_wb1112 (Some End_seen_wb1112) (i\<lparr>wb4_extra_cnt := 0\<rparr>))
      else wb1112_done f prev cl i)"

definition wb1and2_done :: "'s wb_callback \<Rightarrow> u8 \<Rightarrow> 's unicode_wb_info \<Rightarrow> int \<times> 's unicode_wb_info" where
  "wb1and2_done f cl i0 =
     (let prev = prevclass i0;
          i = i0\<lparr>prevclass := cl\<rparr>
      in if prev = WB_CR \<and> cl = WB_LF then result f 0 i
         else if prev \<in> {WB_CR, WB_LF, WB_Newline} then result f 1 i
         else if cl \<in> {WB_CR, WB_LF, WB_Newline} then result f 1 i
         else if cl = WB_Extend \<or> cl = WB_Format then
           (0, i\<lparr>prevclass := prev, wb4_cnt := wb4_cnt i + 1\<rparr>)
         else if prev = WB_ALetter \<and> cl = WB_ALetter then result f 0 i
         else if prev = WB_ALetter \<and> (cl = WB_MidLetter \<or> cl = WB_MidNumLet) then
           (0, SET_HANDLER Next_seen_wb67 (Some End_seen_wb67) (i\<lparr>wb4_extra_cnt := 0\<rparr>))
         else wb67_done f prev cl i)"

text \<open>What the functions do, through the calls they make.\<close>

definition upd_from :: "(int \<times> 's) \<Rightarrow> 's unicode_wb_info \<Rightarrow> int \<times> 's unicode_wb_info" where
  "upd_from r i = (fst r, i\<lparr>wb4_cnt := 0, cb_arg := snd r\<rparr>)"

lemma wb4_loop_err: "rc \<noteq> 0 \<Longrightarrow> wb4_loop f rc i = (rc, i\<lparr>wb4_cnt := 0\<rparr>)"
proof (induction "wb4_cnt i" arbitrary: i)
  case 0
  then show ?case by (subst wb4_loop.simps) simp
next
  case (Suc n)
  then show ?case by (subst wb4_loop.simps) (simp add: Let_def)
qed

lemma wb4_feed: "wb4 f i = upd_from (feed f (replicate (wb4_cnt i) 0) (cb_arg i)) i"
  unfolding wb4_def
proof (induction "wb4_cnt i" arbitrary: i)
  case 0
  then show ?case by (subst wb4_loop.simps) (simp add: upd_from_def)
next
  case (Suc n)
  obtain rc s where f: "f 0 (cb_arg i) = (rc, s)" by fastforce
  define j where "j = i\<lparr>wb4_cnt := n, cb_arg := s\<rparr>"
  have cnt: "wb4_cnt i = Suc n" using Suc(2) by simp
  have "wb4_loop f 0 i = wb4_loop f rc j"
    using cnt f by (subst wb4_loop.simps) (simp add: Let_def j_def)
  moreover have "feed f (replicate (wb4_cnt i) 0) (cb_arg i) = (if rc = 0 then feed f (replicate n 0) s else (rc, s))"
    using cnt f by (auto simp: rc_bind_def)
  moreover have "wb4_loop f 0 j = upd_from (feed f (replicate n 0) s) j"
    using Suc(1)[of j] by (simp add: j_def)
  ultimately show ?case by (auto simp: upd_from_def wb4_loop_err j_def)
qed

lemma result_feed: "result f b i = upd_from (feed f (replicate (wb4_cnt i) 0 @ [b]) (cb_arg i)) i"
  by (auto simp: result_def wb4_feed feed_append feed_single upd_from_def rc_bind_def wb_cb_def split: prod.splits)

lemma next_handler_upd_from [simp]: "next_handler (snd (upd_from r i)) = next_handler i"
  by (simp add: upd_from_def)

lemma next_handler_done [simp]:
  "next_handler (snd (wb1112_done f p c i)) = next_handler i"
  "next_handler (snd (wb67_done f WB_ALetter c i)) = next_handler i"
  by (simp_all add: wb1112_done_def wb67_done_def result_feed)

lemma handler_kept:
  "(rc, j) = wb1112_done f p c i \<Longrightarrow> next_handler j = next_handler i"
  "(rc, j) = wb67_done f WB_ALetter c i \<Longrightarrow> next_handler j = next_handler i"
  by (metis next_handler_done snd_conv)+

text \<open>
  The call through the handler pointer.  A handler that has seen two characters puts the default
  handler back before it passes the current character on, so the calls do not nest further.
\<close>

function next_call :: "'s wb_callback \<Rightarrow> u8 \<Rightarrow> 's unicode_wb_info \<Rightarrow> int \<times> 's unicode_wb_info"
  and seen_wb67_handler :: "'s wb_callback \<Rightarrow> u8 \<Rightarrow> 's unicode_wb_info \<Rightarrow> int \<times> 's unicode_wb_info"
  and seen_wb1112_handler :: "'s wb_callback \<Rightarrow> u8 \<Rightarrow> 's unicode_wb_info \<Rightarrow> int \<times> 's unicode_wb_info"
where
  "next_call f cl i =
     (case next_handler i of
        Next_sot \<Rightarrow> sot f cl i
      | Next_wb1and2_done \<Rightarrow> wb1and2_done f cl i
      | Next_seen_wb67 \<Rightarrow> seen_wb67_handler f cl i
      | Next_seen_wb1112 \<Rightarrow> seen_wb1112_handler f cl i)"
| "seen_wb67_handler f cl i0 =
     (if cl = WB_Extend \<or> cl = WB_Format then (0, i0\<lparr>wb4_extra_cnt := wb4_extra_cnt i0 + 1\<rparr>)
      else let extra_cnt = wb4_extra_cnt i0;
               i = SET_HANDLER Next_wb1and2_done None i0
           in if cl = WB_ALetter then
                (case result f 0 i of (rc, i) \<Rightarrow>
                   let i = i\<lparr>wb4_cnt := extra_cnt\<rparr>
                   in (case (if rc = 0 then result f 0 i else (rc, i)) of (rc, i) \<Rightarrow>
                         (rc, i\<lparr>prevclass := cl\<rparr>)))
              else let prev = prevclass i
                   in (case wb67_done f WB_ALetter prev i of (rc, i) \<Rightarrow>
                         let i = i\<lparr>prevclass := prev, wb4_cnt := extra_cnt\<rparr>
                         in if rc = 0 then next_call f cl i else (rc, i)))"
| "seen_wb1112_handler f cl i0 =
     (if cl = WB_Extend \<or> cl = WB_Format then (0, i0\<lparr>wb4_extra_cnt := wb4_extra_cnt i0 + 1\<rparr>)
      else let extra_cnt = wb4_extra_cnt i0;
               i = SET_HANDLER Next_wb1and2_done None i0
           in if cl = WB_Numeric then
                (case result f 0 i of (rc, i) \<Rightarrow>
                   let i = i\<lparr>wb4_cnt := extra_cnt\<rparr>
                   in (case (if rc = 0 then result f 0 i else (rc, i)) of (rc, i) \<Rightarrow>
                         (rc, i\<lparr>prevclass := cl\<rparr>)))
              else let prev = prevclass i
                   in (case wb1112_done f WB_Numeric prev i of (rc, i) \<Rightarrow>
                         let i = i\<lparr>prevclass := prev, wb4_cnt := extra_cnt\<rparr>
                         in if rc = 0 then next_call f cl i else (rc, i)))"
  by pat_completeness auto
termination
proof (relation "measure (\<lambda>x. case x of
      Inl (f, cl, i) \<Rightarrow> (if next_handler i \<in> {Next_seen_wb67, Next_seen_wb1112} then 2 else 0)
    | Inr _ \<Rightarrow> 1)", goal_cases)
  case 1
  then show ?case by simp
next
  case 4
  then show ?case by (auto simp: Let_def SET_HANDLER_def dest!: handler_kept)
next
  case 5
  then show ?case by (auto simp: Let_def SET_HANDLER_def dest!: handler_kept)
qed (simp_all)

declare next_call.simps [simp del] seen_wb67_handler.simps [simp del] seen_wb1112_handler.simps [simp del]

definition seen_wb67_end_handler :: "'s wb_callback \<Rightarrow> 's unicode_wb_info \<Rightarrow> int \<times> 's unicode_wb_info" where
  "seen_wb67_end_handler f i =
     (let extra_cnt = wb4_extra_cnt i
      in case wb67_done f WB_ALetter (prevclass i) i of (rc, i) \<Rightarrow>
           let i = i\<lparr>wb4_cnt := extra_cnt\<rparr> in if rc = 0 then wb4 f i else (rc, i))"

definition seen_wb1112_end_handler :: "'s wb_callback \<Rightarrow> 's unicode_wb_info \<Rightarrow> int \<times> 's unicode_wb_info" where
  "seen_wb1112_end_handler f i =
     (let extra_cnt = wb4_extra_cnt i
      in case wb1112_done f WB_Numeric (prevclass i) i of (rc, i) \<Rightarrow>
           let i = i\<lparr>wb4_cnt := extra_cnt\<rparr> in if rc = 0 then wb4 f i else (rc, i))"

definition wb_class :: "unicode_tables \<Rightarrow> u32 \<Rightarrow> u8" where
  "wb_class t c = unicode_tab_lookup c t WB_OTHER"

definition unicode_wb_next :: "unicode_tables \<Rightarrow> 's wb_callback \<Rightarrow> u32 \<Rightarrow> 's unicode_wb_info \<Rightarrow> int \<times> 's unicode_wb_info" where
  "unicode_wb_next t f c i = next_call f (unicode_tab_lookup c t WB_OTHER) i"

primrec unicode_wb_next_cnt ::
  "unicode_tables \<Rightarrow> 's wb_callback \<Rightarrow> u32 list \<Rightarrow> 's unicode_wb_info \<Rightarrow> int \<times> 's unicode_wb_info" where
  "unicode_wb_next_cnt t f [] i = (0, i)"
| "unicode_wb_next_cnt t f (c # cs) i = rc_then (unicode_wb_next t f c i) (unicode_wb_next_cnt t f cs)"

text \<open>The structure is freed at the end; what is left is the code and the argument of the callback.\<close>

definition unicode_wb_end :: "'s wb_callback \<Rightarrow> 's unicode_wb_info \<Rightarrow> int \<times> 's" where
  "unicode_wb_end f i =
     (case (case end_handler i of
              Some End_seen_wb67 \<Rightarrow> seen_wb67_end_handler f i
            | Some End_seen_wb1112 \<Rightarrow> seen_wb1112_end_handler f i
            | None \<Rightarrow> wb4 f i) of (rc, i) \<Rightarrow> (rc, cb_arg i))"

section \<open>The rules\<close>

text \<open>
  The word boundary rules of Unicode Standard Annex 29, over the classes of a text.  \<open>p\<close> is the class of
  the character before the boundary and \<open>pp\<close> of the one before that, extending characters not
  counted; \<open>c\<close> is the class of the character after the boundary and \<open>cs\<close> the rest.
\<close>

definition is_ext :: "u8 \<Rightarrow> bool" where
  "is_ext k \<longleftrightarrow> k = WB_Extend \<or> k = WB_Format"

definition is_nl :: "u8 \<Rightarrow> bool" where
  "is_nl k \<longleftrightarrow> k = WB_CR \<or> k = WB_LF \<or> k = WB_Newline"

definition next_sig :: "u8 list \<Rightarrow> u8 option" where
  "next_sig cs = (case dropWhile is_ext cs of [] \<Rightarrow> None | k # _ \<Rightarrow> Some k)"

definition wb_joined :: "u8 \<Rightarrow> u8 \<Rightarrow> u8 \<Rightarrow> u8 option \<Rightarrow> bool" where
  "wb_joined pp p c nx \<longleftrightarrow>
     (let letter = (\<lambda>k. k = WB_ALetter); num = (\<lambda>k. k = WB_Numeric);
          midletter = (\<lambda>k. k = WB_MidLetter \<or> k = WB_MidNumLet);
          midnum = (\<lambda>k. k = WB_MidNum \<or> k = WB_MidNumLet);
          kata = (\<lambda>k. k = WB_Katakana); connect = (\<lambda>k. k = WB_ExtendNumLet)
      in letter p \<and> letter c \<or>
         letter p \<and> midletter c \<and> nx = Some WB_ALetter \<or>
         letter pp \<and> midletter p \<and> letter c \<or>
         num p \<and> num c \<or> letter p \<and> num c \<or> num p \<and> letter c \<or>
         num pp \<and> midnum p \<and> num c \<or>
         num p \<and> midnum c \<and> nx = Some WB_Numeric \<or>
         kata p \<and> kata c \<or>
         (letter p \<or> num p \<or> kata p \<or> connect p) \<and> connect c \<or>
         connect p \<and> (letter c \<or> num c \<or> kata c))"

definition wb_break :: "u8 \<Rightarrow> u8 \<Rightarrow> u8 \<Rightarrow> u8 list \<Rightarrow> int" where
  "wb_break pp p c cs =
     (if p = WB_CR \<and> c = WB_LF then 0
      else if is_nl p \<or> is_nl c then 1
      else if is_ext c \<or> wb_joined pp p c (next_sig cs) then 0 else 1)"

primrec wb_flags :: "u8 \<Rightarrow> u8 \<Rightarrow> u8 list \<Rightarrow> int list" where
  "wb_flags pp p [] = []"
| "wb_flags pp p (c # cs) = wb_break pp p c cs #
     (if is_ext c \<and> \<not> is_nl p then wb_flags pp p cs else wb_flags p c cs)"

fun wb_text :: "u8 list \<Rightarrow> int list" where
  "wb_text [] = []"
| "wb_text (c # cs) = 1 # wb_flags WB_OTHER c cs"

lemma length_wb_flags [simp, len_simps]: "length (wb_flags pp p cs) = length cs"
  by (induction cs arbitrary: pp p) auto

lemma length_wb_text [simp, len_simps]: "length (wb_text cs) = length cs"
  by (cases cs) auto

text \<open>The character before the previous one only matters if a letter or a number is split.\<close>

definition split_ok :: "u8 \<Rightarrow> u8 \<Rightarrow> u8 list \<Rightarrow> bool" where
  "split_ok pp p cs \<longleftrightarrow>
     \<not> (pp = WB_ALetter \<and> (p = WB_MidLetter \<or> p = WB_MidNumLet) \<and> next_sig cs = Some WB_ALetter) \<and>
     \<not> (pp = WB_Numeric \<and> (p = WB_MidNum \<or> p = WB_MidNumLet) \<and> next_sig cs = Some WB_Numeric)"

lemma next_sig_Cons: "next_sig (c # cs) = (if is_ext c then next_sig cs else Some c)"
  by (simp add: next_sig_def)

lemma wb_flags_split: "split_ok pp p cs \<Longrightarrow> wb_flags pp p cs = wb_flags WB_OTHER p cs"
proof (induction cs arbitrary: pp)
  case Nil
  then show ?case by simp
next
  case (Cons c cs)
  show ?case
  proof (cases "is_ext c")
    case True
    with Cons.prems have "split_ok pp p cs" by (simp add: split_ok_def next_sig_Cons)
    with True show ?thesis by (simp add: Cons.IH wb_break_def)
  next
    case False
    with Cons.prems have "wb_break pp p c cs = wb_break WB_OTHER p c cs"
      by (auto simp: split_ok_def next_sig_Cons wb_break_def wb_joined_def Let_def)
    with False show ?thesis by simp
  qed
qed

section \<open>The machine follows the rules\<close>

text \<open>
  What a state will still report if the classes \<open>cs\<close> and then the end of the text follow: the
  skipped characters, the character whose report waits for the next one, and the rest.
\<close>

fun wb_rest :: "wb_next_handler \<Rightarrow> u8 \<Rightarrow> nat \<Rightarrow> u8 list \<Rightarrow> int list" where
  "wb_rest Next_sot p n cs = wb_text cs"
| "wb_rest Next_wb1and2_done p n cs = wb_flags WB_OTHER p cs"
| "wb_rest Next_seen_wb67 p n cs =
     wb_break WB_OTHER WB_ALetter p cs # replicate n 0 @ wb_flags WB_ALetter p cs"
| "wb_rest Next_seen_wb1112 p n cs =
     wb_break WB_OTHER WB_Numeric p cs # replicate n 0 @ wb_flags WB_Numeric p cs"

definition wb_future :: "'s unicode_wb_info \<Rightarrow> u8 list \<Rightarrow> int list" where
  "wb_future i cs = replicate (wb4_cnt i) 0 @ wb_rest (next_handler i) (prevclass i) (wb4_extra_cnt i) cs"

text \<open>The handlers go together, and a class is only held back between letters or between numbers.\<close>

definition wb_valid :: "'s unicode_wb_info \<Rightarrow> bool" where
  "wb_valid i \<longleftrightarrow> (case next_handler i of
     Next_seen_wb67 \<Rightarrow> end_handler i = Some End_seen_wb67 \<and> prevclass i \<in> {WB_MidLetter, WB_MidNumLet}
   | Next_seen_wb1112 \<Rightarrow> end_handler i = Some End_seen_wb1112 \<and> prevclass i \<in> {WB_MidNum, WB_MidNumLet}
   | _ \<Rightarrow> end_handler i = None)"

lemma wb_valid_fields [simp]:
  "wb_valid (i\<lparr>wb4_cnt := n\<rparr>) = wb_valid i"
  "wb_valid (i\<lparr>cb_arg := s\<rparr>) = wb_valid i"
  "wb_valid (i\<lparr>wb4_extra_cnt := n\<rparr>) = wb_valid i"
  by (simp_all add: wb_valid_def cong: wb_next_handler.case_cong)

lemma wb_future_cb_arg [simp]: "wb_future (i\<lparr>cb_arg := s\<rparr>) = wb_future i"
  by (simp add: wb_future_def fun_eq_iff)

abbreviation agrees :: "'s wb_callback \<Rightarrow> 's \<Rightarrow> (u8 list \<Rightarrow> int list) \<Rightarrow> int \<times> 's unicode_wb_info \<Rightarrow> bool" where
  "agrees \<equiv> owes wb_valid wb_future cb_arg"

lemma agrees_bind:
  assumes "\<And>cs. F cs = out @ G cs"
    and "\<And>s'. feed f out s = (0, s') \<Longrightarrow> agrees f s' G (k (i\<lparr>wb4_cnt := 0, cb_arg := s'\<rparr>))"
    and "\<And>j. cb_arg (e j) = cb_arg j"
  shows "agrees f s F (case upd_from (feed f out s) i of (rc, j) \<Rightarrow> if rc = 0 then k j else (rc, e j))"
proof (cases "feed f out s")
  case (Pair rc s')
  show ?thesis
  proof (cases "rc = 0")
    case True
    with Pair assms(2) owes_after[OF _ _ assms(1), of wb_valid wb_future cb_arg f s'] show ?thesis
      by (simp add: upd_from_def)
  next
    case False
    with Pair assms(3) show ?thesis
      by (auto simp: upd_from_def assms(1) intro!: owes_error[of rc f out s])
  qed
qed

lemma agrees_result:
  assumes "cb_arg i = s" "wb_valid i"
    and "\<And>cs. F cs = replicate (wb4_cnt i) 0 @ b # wb_future (i\<lparr>wb4_cnt := 0\<rparr>) cs"
  shows "agrees f s F (result f b i)"
proof -
  have "result f b i = (case upd_from (feed f (replicate (wb4_cnt i) 0 @ [b]) s) i of
      (rc, j) \<Rightarrow> if rc = 0 then (0, j) else (rc, j))"
    using assms(1) by (simp add: result_feed split: prod.splits)
  also have "agrees f s F \<dots>"
    using assms(2,3) by (intro agrees_bind[where G = "wb_future (i\<lparr>wb4_cnt := 0\<rparr>)"] owes_now) simp_all
  finally show ?thesis .
qed

lemma held_back:
  "p \<in> {WB_MidLetter, WB_MidNumLet} \<Longrightarrow> wb67_done f WB_ALetter p i = result f 1 i"
  "p \<in> {WB_MidNum, WB_MidNumLet} \<Longrightarrow> wb1112_done f WB_Numeric p i = result f 1 i"
  by (auto simp: wb67_done_def wb1112_done_def)

lemma sot_agrees:
  "next_handler i = Next_sot \<Longrightarrow> agrees f (cb_arg i) (\<lambda>cs. wb_future i (cl # cs)) (sot f cl i)"
  unfolding sot_def SET_HANDLER_def by (rule agrees_result) (simp_all add: wb_valid_def wb_future_def)

lemma wb1and2_agrees:
  assumes i: "wb_valid i" "next_handler i = Next_wb1and2_done"
  shows "agrees f (cb_arg i) (\<lambda>cs. wb_future i (cl # cs)) (wb1and2_done f cl i)"
proof -
  let ?p = "prevclass i" and ?j = "i\<lparr>prevclass := cl\<rparr>"
  consider (ext) "is_ext cl" "\<not> is_nl ?p"
    | (letter) "?p = WB_ALetter" "cl = WB_MidLetter \<or> cl = WB_MidNumLet"
    | (number) "?p = WB_Numeric" "cl = WB_MidNum \<or> cl = WB_MidNumLet"
    | (now) "\<not> (is_ext cl \<and> \<not> is_nl ?p)"
        "\<not> (?p = WB_ALetter \<and> (cl = WB_MidLetter \<or> cl = WB_MidNumLet))"
        "\<not> (?p = WB_Numeric \<and> (cl = WB_MidNum \<or> cl = WB_MidNumLet))" by blast
  then show ?thesis
  proof cases
    case ext
    then have "wb1and2_done f cl i = (0, ?j\<lparr>prevclass := ?p, wb4_cnt := wb4_cnt i + 1\<rparr>)"
      by (auto simp: wb1and2_done_def is_ext_def is_nl_def Let_def)
    moreover have "wb_break WB_OTHER ?p cl cs = 0" for cs
      using ext by (auto simp: wb_break_def is_ext_def is_nl_def)
    ultimately show ?thesis
      using i ext by (auto intro!: owes_now simp: wb_valid_def wb_future_def replicate_app_Cons_same)
  next
    case letter
    then have "wb1and2_done f cl i = (0, SET_HANDLER Next_seen_wb67 (Some End_seen_wb67) (?j\<lparr>wb4_extra_cnt := 0\<rparr>))"
      by (auto simp: wb1and2_done_def Let_def)
    with i letter show ?thesis
      by (auto intro!: owes_now simp: wb_valid_def wb_future_def SET_HANDLER_def is_ext_def)
  next
    case number
    then have "wb1and2_done f cl i = (0, SET_HANDLER Next_seen_wb1112 (Some End_seen_wb1112) (?j\<lparr>wb4_extra_cnt := 0\<rparr>))"
      by (auto simp: wb1and2_done_def wb67_done_def Let_def)
    with i number show ?thesis
      by (auto intro!: owes_now simp: wb_valid_def wb_future_def SET_HANDLER_def is_ext_def)
  next
    case now
    then have "wb_break WB_OTHER ?p cl cs = wb_break WB_OTHER ?p cl []" for cs
      by (auto simp: wb_break_def wb_joined_def Let_def)
    moreover have "wb1and2_done f cl i = result f (wb_break WB_OTHER ?p cl []) ?j"
      using now by (auto simp: wb1and2_done_def wb67_done_def wb1112_done_def wb_break_def wb_joined_def
          is_ext_def is_nl_def next_sig_def Let_def)
    moreover have "split_ok ?p cl cs" for cs using now by (auto simp: split_ok_def)
    ultimately show ?thesis
      using i now by (auto intro!: agrees_result simp: wb_valid_def wb_future_def wb_flags_split)
  qed
qed

lemma mid_facts:
  assumes "a = WB_ALetter \<and> p \<in> {WB_MidLetter, WB_MidNumLet} \<or> a = WB_Numeric \<and> p \<in> {WB_MidNum, WB_MidNumLet}"
  shows "\<not> is_nl p" "\<not> is_ext p" "p \<noteq> a" "\<not> is_nl a" "\<not> is_ext a"
  using assms by (auto simp: is_nl_def is_ext_def)

lemma mid_break:
  assumes "a = WB_ALetter \<and> p \<in> {WB_MidLetter, WB_MidNumLet} \<or> a = WB_Numeric \<and> p \<in> {WB_MidNum, WB_MidNumLet}"
    and "\<not> is_ext cl"
  shows "wb_break WB_OTHER a p (cl # cs) = (if cl = a then 0 else 1)" "wb_break a p a cs = 0"
  using assms
  by (elim disjE conjE insertE emptyE;
      simp add: wb_break_def wb_joined_def is_nl_def is_ext_def next_sig_def Let_def)+

lemma mid_split:
  assumes "a = WB_ALetter \<and> p \<in> {WB_MidLetter, WB_MidNumLet} \<or> a = WB_Numeric \<and> p \<in> {WB_MidNum, WB_MidNumLet}"
  shows "split_ok p a cs" "\<not> is_ext cl \<Longrightarrow> cl \<noteq> a \<Longrightarrow> split_ok a p (cl # cs)"
  using assms by (elim disjE conjE insertE emptyE; simp add: split_ok_def next_sig_Cons)+

lemma seen_agrees:
  assumes i: "wb_valid i" and cl: "\<not> is_ext cl" and h: "next_handler i = h"
    and hand: "h = Next_seen_wb67 \<and> a = WB_ALetter \<or> h = Next_seen_wb1112 \<and> a = WB_Numeric"
    and j: "j = SET_HANDLER Next_wb1and2_done None i"
  shows "cl \<noteq> a \<Longrightarrow> agrees f (cb_arg i) (\<lambda>cs. wb_future i (cl # cs))
      (case result f 1 j of (rc, k) \<Rightarrow>
         if rc = 0 then wb1and2_done f cl (k\<lparr>prevclass := prevclass i, wb4_cnt := wb4_extra_cnt i\<rparr>)
         else (rc, k\<lparr>prevclass := prevclass i, wb4_cnt := wb4_extra_cnt i\<rparr>))" (is "_ \<Longrightarrow> ?split")
    and "cl = a \<Longrightarrow> agrees f (cb_arg i) (\<lambda>cs. wb_future i (cl # cs))
      (case result f 0 j of (rc, k) \<Rightarrow>
         if rc = 0 then (case result f 0 (k\<lparr>wb4_cnt := wb4_extra_cnt i\<rparr>) of (rc, k) \<Rightarrow> (rc, k\<lparr>prevclass := cl\<rparr>))
         else (rc, k\<lparr>wb4_cnt := wb4_extra_cnt i, prevclass := cl\<rparr>))" (is "_ \<Longrightarrow> ?joined")
proof -
  let ?p = "prevclass i"
  have mid: "a = WB_ALetter \<and> ?p \<in> {WB_MidLetter, WB_MidNumLet} \<or> a = WB_Numeric \<and> ?p \<in> {WB_MidNum, WB_MidNumLet}"
    using i h hand by (auto simp: wb_valid_def)
  note p = mid_facts[OF mid] mid_break[OF mid cl] mid_split[OF mid]
  have future: "wb_future i (cl # cs) = replicate (wb4_cnt i) 0 @ wb_break WB_OTHER a ?p (cl # cs) #
      replicate (wb4_extra_cnt i) 0 @ wb_flags a ?p (cl # cs)" for cs
    using h hand by (auto simp: wb_future_def)
  have res: "result f b j = upd_from (feed f (replicate (wb4_cnt i) 0 @ [b]) (cb_arg i)) j" for b
    by (simp add: result_feed j SET_HANDLER_def)
  show ?split if "cl \<noteq> a"
    unfolding res
  proof (rule agrees_bind[where G = "\<lambda>cs. replicate (wb4_extra_cnt i) 0 @ wb_flags WB_OTHER ?p (cl # cs)"])
    fix s'
    let ?k = "j\<lparr>wb4_cnt := 0, cb_arg := s', prevclass := ?p, wb4_cnt := wb4_extra_cnt i\<rparr>"
    have "agrees f (cb_arg ?k) (\<lambda>cs. wb_future ?k (cl # cs)) (wb1and2_done f cl ?k)"
      by (rule wb1and2_agrees) (simp_all add: j SET_HANDLER_def wb_valid_def)
    then show "agrees f s' (\<lambda>cs. replicate (wb4_extra_cnt i) 0 @ wb_flags WB_OTHER ?p (cl # cs)) (wb1and2_done f cl ?k)"
      by (simp add: wb_future_def j SET_HANDLER_def)
  qed (use that p cl in \<open>simp_all add: future wb_flags_split[of a ?p "cl # cs" for cs] del: wb_flags.simps\<close>)
  show ?joined if "cl = a"
    unfolding res
  proof (rule agrees_bind[where G = "\<lambda>cs. replicate (wb4_extra_cnt i) 0 @ 0 # wb_flags WB_OTHER a cs"])
    fix s'
    let ?k = "j\<lparr>wb4_cnt := 0, cb_arg := s', wb4_cnt := wb4_extra_cnt i\<rparr>"
    have "agrees f (cb_arg ?k) (\<lambda>cs. replicate (wb4_extra_cnt i) 0 @ 0 # wb_flags WB_OTHER a cs)
        (result f 0 (?k\<lparr>prevclass := cl\<rparr>))"
      using that by (intro agrees_result) (simp_all add: j SET_HANDLER_def wb_valid_def wb_future_def)
    moreover have "(case result f 0 ?k of (rc, k) \<Rightarrow> (rc, k\<lparr>prevclass := cl\<rparr>)) = result f 0 (?k\<lparr>prevclass := cl\<rparr>)"
      by (simp add: result_feed upd_from_def)
    ultimately show "agrees f s' (\<lambda>cs. replicate (wb4_extra_cnt i) 0 @ 0 # wb_flags WB_OTHER a cs)
        (case result f 0 ?k of (rc, k) \<Rightarrow> (rc, k\<lparr>prevclass := cl\<rparr>))" by simp
  qed (use that p in \<open>simp_all add: future[unfolded that] wb_flags_split[of ?p]\<close>)
qed

lemma held_ext:
  assumes i: "wb_valid i" and h: "next_handler i = Next_seen_wb67 \<or> next_handler i = Next_seen_wb1112"
    and cl: "is_ext cl"
  shows "agrees f (cb_arg i) (\<lambda>cs. wb_future i (cl # cs)) (0, i\<lparr>wb4_extra_cnt := wb4_extra_cnt i + 1\<rparr>)"
proof (rule owes_now)
  fix cs
  have "wb_flags a (prevclass i) (cl # cs) = 0 # wb_flags a (prevclass i) cs"
    "wb_break WB_OTHER a (prevclass i) (cl # cs) = wb_break WB_OTHER a (prevclass i) cs" for a
    using i h cl by (auto simp: wb_valid_def wb_break_def is_nl_def is_ext_def next_sig_Cons)
  then show "wb_future i (cl # cs) = wb_future (i\<lparr>wb4_extra_cnt := wb4_extra_cnt i + 1\<rparr>) cs"
    using h by (auto simp: wb_future_def replicate_app_Cons_same simp del: wb_flags.simps)
qed (use i in simp_all)

text \<open>The two handlers that hold a character back differ in the class they wait for.\<close>

lemma next_call_seen:
  assumes i: "wb_valid i" and cl: "\<not> is_ext cl" and h: "next_handler i = h"
    and hand: "h = Next_seen_wb67 \<and> a = WB_ALetter \<or> h = Next_seen_wb1112 \<and> a = WB_Numeric"
    and j: "j = SET_HANDLER Next_wb1and2_done None i"
  shows "cl \<noteq> a \<Longrightarrow> next_call f cl i =
      (case result f 1 j of (rc, k) \<Rightarrow>
         if rc = 0 then wb1and2_done f cl (k\<lparr>prevclass := prevclass i, wb4_cnt := wb4_extra_cnt i\<rparr>)
         else (rc, k\<lparr>prevclass := prevclass i, wb4_cnt := wb4_extra_cnt i\<rparr>))" (is "_ \<Longrightarrow> ?split")
    and "cl = a \<Longrightarrow> next_call f cl i =
      (case result f 0 j of (rc, k) \<Rightarrow>
         if rc = 0 then (case result f 0 (k\<lparr>wb4_cnt := wb4_extra_cnt i\<rparr>) of (rc, k) \<Rightarrow> (rc, k\<lparr>prevclass := cl\<rparr>))
         else (rc, k\<lparr>wb4_cnt := wb4_extra_cnt i, prevclass := cl\<rparr>))" (is "_ \<Longrightarrow> ?joined")
proof -
  have ext: "\<not> (cl = WB_Extend \<or> cl = WB_Format)" using cl by (simp add: is_ext_def)
  obtain rc k where r: "result f 1 j = (rc, k)" by fastforce
  then have k: "next_handler k = Next_wb1and2_done" by (auto simp: result_feed upd_from_def j SET_HANDLER_def)
  have p: "prevclass j = prevclass i" "wb4_extra_cnt j = wb4_extra_cnt i" by (simp_all add: j SET_HANDLER_def)
  from hand show "cl \<noteq> a \<Longrightarrow> ?split"
  proof (elim disjE conjE)
    assume a: "cl \<noteq> a" "h = Next_seen_wb67" "a = WB_ALetter"
    then have "wb67_done f WB_ALetter (prevclass i) j = (rc, k)"
      using i h held_back(1)[of "prevclass i" f j] by (simp add: wb_valid_def r)
    with ext h a p k show ?split
      by (simp add: next_call.simps seen_wb67_handler.simps Let_def r flip: j)
  next
    assume a: "cl \<noteq> a" "h = Next_seen_wb1112" "a = WB_Numeric"
    then have "wb1112_done f WB_Numeric (prevclass i) j = (rc, k)"
      using i h held_back(2)[of "prevclass i" f j] by (simp add: wb_valid_def r)
    with ext h a p k show ?split
      by (simp add: next_call.simps seen_wb1112_handler.simps Let_def r flip: j)
  qed
  obtain rc k where r: "result f 0 j = (rc, k)" by fastforce
  from hand show "cl = a \<Longrightarrow> ?joined"
    using ext h p by (elim disjE conjE)
      (simp_all add: next_call.simps seen_wb67_handler.simps seen_wb1112_handler.simps Let_def r flip: j)
qed

lemma next_call_agrees:
  assumes i: "wb_valid i"
  shows "agrees f (cb_arg i) (\<lambda>cs. wb_future i (cl # cs)) (next_call f cl i)"
proof (cases "next_handler i = Next_seen_wb67 \<or> next_handler i = Next_seen_wb1112")
  case False
  with sot_agrees wb1and2_agrees[OF i] show ?thesis
    by (cases "next_handler i") (simp_all add: next_call.simps)
next
  case True
  then obtain a where a: "next_handler i = Next_seen_wb67 \<and> a = WB_ALetter \<or>
      next_handler i = Next_seen_wb1112 \<and> a = WB_Numeric" by blast
  show ?thesis
  proof (cases "is_ext cl")
    case ext: True
    with True have "next_call f cl i = (0, i\<lparr>wb4_extra_cnt := wb4_extra_cnt i + 1\<rparr>)"
      by (auto simp: next_call.simps seen_wb67_handler.simps seen_wb1112_handler.simps is_ext_def)
    with held_ext[OF i True ext] show ?thesis by simp
  next
    case False
    show ?thesis
      using seen_agrees[OF i False refl a refl, of f] next_call_seen[OF i False refl a refl, of f]
      by (cases "cl = a") simp_all
  qed
qed

lemma end_agrees:
  assumes i: "wb_valid i"
  shows "unicode_wb_end f i = feed f (wb_future i []) (cb_arg i)"
proof -
  let ?out = "replicate (wb4_cnt i) 0 @ [1]"
  have rest: "(case result f 1 i of (rc, i) \<Rightarrow>
      let i = i\<lparr>wb4_cnt := n\<rparr> in if rc = 0 then wb4 f i else (rc, i)) =
      (fst (feed f (?out @ replicate n 0) (cb_arg i)),
       i\<lparr>wb4_cnt := if fst (feed f ?out (cb_arg i)) = 0 then 0 else n,
         cb_arg := snd (feed f (?out @ replicate n 0) (cb_arg i))\<rparr>)" for n
    by (simp add: result_feed wb4_feed upd_from_def feed_append[of f ?out] rc_bind_def Let_def
        split: prod.splits del: append.simps append_assoc)
  show ?thesis
  proof (cases "next_handler i")
    case Next_seen_wb67
    with i rest[of "wb4_extra_cnt i"] show ?thesis
      by (auto simp: unicode_wb_end_def wb_valid_def seen_wb67_end_handler_def held_back wb_future_def
          wb_break_def wb_joined_def is_nl_def is_ext_def next_sig_def Let_def)
  next
    case Next_seen_wb1112
    with i rest[of "wb4_extra_cnt i"] show ?thesis
      by (auto simp: unicode_wb_end_def wb_valid_def seen_wb1112_end_handler_def held_back wb_future_def
          wb_break_def wb_joined_def is_nl_def is_ext_def next_sig_def Let_def)
  qed (use i in \<open>simp_all add: unicode_wb_end_def wb_valid_def wb_future_def wb4_feed upd_from_def split: prod.splits\<close>)
qed

interpretation wb: reporter wb_valid wb_future cb_arg f "wb_class t" "unicode_wb_next t f"
    "unicode_wb_next_cnt t f" "unicode_wb_end f" for t f
  by unfold_locales
    (simp_all add: unicode_wb_next_def end_agrees next_call_agrees flip: wb_class_def)

lemma wb_valid_init: "wb_valid (unicode_wb_init s)"
  by (simp add: unicode_wb_init_def wb_valid_def)

lemma wb_future_init [simp]: "wb_future (unicode_wb_init s) cs = wb_text cs" "cb_arg (unicode_wb_init s) = s"
  by (simp_all add: unicode_wb_init_def wb_future_def)

text \<open>
  C30: A text given to the machine and then its end reports to the callback, once for each character
  and in order, whether the rules put a word boundary before the character; a code other than 0
  from the callback ends the reports and is returned.
\<close>

theorem wordbreak_refines_rules:
  "rc_bind (unicode_wb_next_cnt t f cs (unicode_wb_init s)) (unicode_wb_end f) cb_arg =
   feed f (wb_text (map (wb_class t) cs)) s"
  using wb.text_reports[OF wb_valid_init, of t f cs s] by simp

section \<open>Reachable states\<close>

inductive wb_reachable :: "unicode_tables \<Rightarrow> 's wb_callback \<Rightarrow> 's unicode_wb_info \<Rightarrow> bool"
  for t f where
  wb_start: "wb_reachable t f (unicode_wb_init s)"
| wb_char: "wb_reachable t f i \<Longrightarrow> unicode_wb_next t f c i = (0, j) \<Longrightarrow> wb_reachable t f j"


definition wb_tiny_tables :: unicode_tables where
  "wb_tiny_tables = \<lparr>unicode_indextab = [0, 2], unicode_rangetab = [(58, 58), (65, 90)], unicode_classtab = [2, 0]\<rparr>"

definition wb_tiny_callback :: "int list wb_callback" where
  "wb_tiny_callback b s = (0, s @ [b])"


section \<open>The first word\<close>

text \<open>
  The scanner's callback updates the fields of the structure that holds the handle, so they are the
  argument of the handle.
\<close>

record unicode_wbscan_info =
  found :: bool
  cnt :: nat

definition unicode_wbscan_init :: "unicode_wbscan_info unicode_wb_info" where
  "unicode_wbscan_init = unicode_wb_init \<lparr>found = False, cnt = 0\<rparr>"

definition unicode_wbscan_callback :: "unicode_wbscan_info wb_callback" where
  "unicode_wbscan_callback flag i =
     (let i = (if flag \<noteq> 0 \<and> 0 < cnt i then i\<lparr>found := True\<rparr> else i)
      in (0, if \<not> found i then i\<lparr>cnt := cnt i + 1\<rparr> else i))"

definition unicode_wbscan_next ::
  "unicode_tables \<Rightarrow> u32 \<Rightarrow> unicode_wbscan_info unicode_wb_info \<Rightarrow> bool \<times> unicode_wbscan_info unicode_wb_info" where
  "unicode_wbscan_next t c h =
     (let h = (if \<not> found (cb_arg h) then snd (unicode_wb_next t unicode_wbscan_callback c h) else h)
      in (found (cb_arg h), h))"

definition unicode_wbscan_end :: "unicode_wbscan_info unicode_wb_info \<Rightarrow> nat" where
  "unicode_wbscan_end h = cnt (snd (unicode_wb_end unicode_wbscan_callback h))"

definition wbscan_upd :: "int \<Rightarrow> unicode_wbscan_info \<Rightarrow> unicode_wbscan_info" where
  "wbscan_upd flag i = snd (unicode_wbscan_callback flag i)"

interpretation wbscan: event_sink unicode_wbscan_callback wbscan_upd
  by unfold_locales (simp add: wbscan_upd_def unicode_wbscan_callback_def Let_def)

lemma wbscan_upd_simps [simp]:
  "found s \<Longrightarrow> wbscan_upd e s = s"
  "\<not> found s \<Longrightarrow> wbscan_upd 0 s = s\<lparr>cnt := cnt s + 1\<rparr>"
  "\<not> found s \<Longrightarrow> 0 < cnt s \<Longrightarrow> e \<noteq> 0 \<Longrightarrow> wbscan_upd e s = s\<lparr>found := True\<rparr>"
  by (cases s; simp add: wbscan_upd_def unicode_wbscan_callback_def Let_def)+

lemma wbscan_found: "found s \<Longrightarrow> fold wbscan_upd es s = s"
  by (induction es) simp_all

lemma wbscan_count:
  "\<not> found s \<Longrightarrow> 0 < cnt s \<Longrightarrow>
   cnt (fold wbscan_upd es s) = cnt s + length (takeWhile (\<lambda>b. b = 0) es)"
proof (induction es arbitrary: s)
  case Nil
  then show ?case by simp
next
  case (Cons e es)
  then show ?case by (cases "e = 0") (simp_all add: wbscan_found)
qed

text \<open>Passing the characters of a text one after the other, whether or not a word was found.\<close>

primrec wbscan_text ::
  "unicode_tables \<Rightarrow> u32 list \<Rightarrow> unicode_wbscan_info unicode_wb_info \<Rightarrow> unicode_wbscan_info unicode_wb_info" where
  "wbscan_text t [] h = h"
| "wbscan_text t (c # cs) h = wbscan_text t cs (snd (unicode_wbscan_next t c h))"

lemma wbscan_end_eq:
  "wb_valid h \<Longrightarrow> unicode_wbscan_end h = cnt (fold wbscan_upd (wb_future h []) (cb_arg h))"
  by (simp add: unicode_wbscan_end_def end_agrees wbscan.feed_fold)

lemma wbscan_text_future:
  "wb_valid h \<Longrightarrow> unicode_wbscan_end (wbscan_text t cs h) =
   cnt (fold wbscan_upd (wb_future h (map (wb_class t) cs)) (cb_arg h))"
proof (induction cs arbitrary: h)
  case Nil
  then show ?case by (simp add: wbscan_end_eq)
next
  case (Cons c cs)
  show ?case
  proof (cases "found (cb_arg h)")
    case True
    with Cons.IH[OF Cons.prems] show ?thesis by (simp add: unicode_wbscan_next_def wbscan_found)
  next
    case False
    from Cons.prems show ?thesis
    proof (cases rule: wb.step_cases[where t = t and f = unicode_wbscan_callback and x = c])
      case (ok j out)
      with False Cons.IH[of j] show ?thesis
        by (simp add: unicode_wbscan_next_def Let_def wbscan.feed_fold)
    next
      case (error rc j out)
      then show ?thesis by (simp add: wbscan.feed_fold)
    qed
  qed
qed

text \<open>
  C32: The scanner returns the length of the first word: the number of characters before the first
  boundary after the start of the text, or of all characters if there is none.
\<close>

theorem wbscan_first_word:
  "unicode_wbscan_end (wbscan_text t cs unicode_wbscan_init) =
   (if cs = [] then 0
    else 1 + length (takeWhile (\<lambda>b. b = 0) (tl (wb_text (map (wb_class t) cs)))))"
proof -
  from wbscan_text_future[OF wb_valid_init, of t cs] have
    "unicode_wbscan_end (wbscan_text t cs unicode_wbscan_init) =
     cnt (fold wbscan_upd (wb_text (map (wb_class t) cs)) \<lparr>found = False, cnt = 0\<rparr>)"
    by (simp add: unicode_wbscan_init_def)
  also have "\<dots> = (if cs = [] then 0
      else 1 + length (takeWhile (\<lambda>b. b = 0) (tl (wb_text (map (wb_class t) cs)))))"
    by (cases cs) (simp_all add: wbscan_count wbscan_upd_def[of 1] unicode_wbscan_callback_def)
  finally show ?thesis .
qed

end
