(* ===== verification/Unicode_Buf.thy ===== *)
theory Unicode_Buf
  imports Prelude
begin

text \<open>
  The character buffer of unicode/unicodebuf.c: a growing array of 32-bit characters with a maximal
  length, its append, removal and comparison.  Allocations succeed; fresh memory, which the code
  never reads before it writes it, is zero here.  Sizes are natural numbers; the maximum is a
  \<open>size_t\<close>, so they stay below its range.
\<close>

section \<open>The buffer\<close>

record unicode_buf =
  ub_ptr :: "u32 list"
  ub_size :: nat
  ub_len :: nat
  ub_max :: nat

definition unicode_buf_init :: "nat \<Rightarrow> unicode_buf" where
  "unicode_buf_init mx = \<lparr>ub_ptr = [], ub_size = 0, ub_len = 0, ub_max = mx\<rparr>"

definition unicode_buf_clear :: "unicode_buf \<Rightarrow> unicode_buf" where
  "unicode_buf_clear p = p\<lparr>ub_len := 0\<rparr>"

text \<open>The characters in use.\<close>

definition ub_chars :: "unicode_buf \<Rightarrow> u32 list" where
  "ub_chars p = take (ub_len p) (ub_ptr p)"

definition unicode_buf_append :: "unicode_buf \<Rightarrow> u32 list \<Rightarrow> unicode_buf" where
  "unicode_buf_append p uc =
     (let l = (if ub_max p - ub_len p < length uc then ub_max p - ub_len p else length uc);
          p = (if ub_size p < ub_len p + l then
                 let n = (ub_len p + l) * 2;
                     n = (if n < 256 then 256 else n);
                     n = (if ub_max p < n then ub_max p else n)
                 in p\<lparr>ub_ptr := take n (ub_ptr p) @ replicate (n - length (ub_ptr p)) 0, ub_size := n\<rparr>
               else p)
      in p\<lparr>ub_ptr := memcpy_at (ub_ptr p) (ub_len p) (take l uc), ub_len := ub_len p + l\<rparr>)"

text \<open>Characters of ISO 8859-1, in pieces of 256.\<close>

function unicode_buf_append_char :: "unicode_buf \<Rightarrow> bytes \<Rightarrow> unicode_buf" where
  "unicode_buf_append_char dst s =
     (if s = [] then dst
      else let n = (if length s < 256 then length s else 256)
           in unicode_buf_append_char (unicode_buf_append dst (map ucast (take n s))) (drop n s))"
  by pat_completeness auto
termination by (relation "measure (\<lambda>(dst, s). length s)") (auto simp: Let_def)

declare unicode_buf_append_char.simps [simp del]

text \<open>
  \<open>memmove\<close> inside the buffer counts bytes and not characters, so the removal is modelled on the
  bytes of the array, of a little endian machine.
\<close>

definition char_bytes :: "u32 list \<Rightarrow> bytes" where
  "char_bytes cs = concat (map (unpack_le 4) cs)"

fun bytes_chars :: "bytes \<Rightarrow> u32 list" where
  "bytes_chars (a # b # c # d # bs) = pack_be [d, c, b, a] # bytes_chars bs"
| "bytes_chars _ = []"

definition memmove_chars :: "u32 list \<Rightarrow> nat \<Rightarrow> nat \<Rightarrow> nat \<Rightarrow> u32 list" where
  "memmove_chars buf dst src n =
     (let bs = char_bytes buf in bytes_chars (memcpy_at bs (4 * dst) (take n (drop (4 * src) bs))))"

definition unicode_buf_remove :: "unicode_buf \<Rightarrow> nat \<Rightarrow> nat \<Rightarrow> unicode_buf" where
  "unicode_buf_remove p pos cnt =
     (let pos = (if ub_len p < pos then ub_len p else pos);
          cnt = (if ub_len p - pos < cnt then ub_len p - pos else cnt);
          p = (if cnt \<noteq> 0 then p\<lparr>ub_ptr := memmove_chars (ub_ptr p) (pos + cnt) pos (ub_len p - pos - cnt)\<rparr> else p)
      in p\<lparr>ub_len := ub_len p - cnt\<rparr>)"

text \<open>The two comparisons; \<open>i\<close> is the loop variable.\<close>

function buf_cmp_from :: "u32 list \<Rightarrow> nat \<Rightarrow> u32 list \<Rightarrow> nat \<Rightarrow> nat \<Rightarrow> int" where
  "buf_cmp_from a al b bl i =
     (if i < al \<and> i < bl then
        if a ! i < b ! i then -1
        else if b ! i < a ! i then 1
        else buf_cmp_from a al b bl (i + 1)
      else if al < bl then -1 else if bl < al then 1 else 0)"
  by pat_completeness auto
termination by (relation "measure (\<lambda>(a, al, b, bl, i). al - i)") auto

declare buf_cmp_from.simps [simp del]

definition unicode_buf_cmp :: "unicode_buf \<Rightarrow> unicode_buf \<Rightarrow> int" where
  "unicode_buf_cmp a b = buf_cmp_from (ub_ptr a) (ub_len a) (ub_ptr b) (ub_len b) 0"

text \<open>The bytes of the string are signed, and converted to the unsigned type of the characters.\<close>

definition unicode_buf_cmp_str :: "unicode_buf \<Rightarrow> bytes \<Rightarrow> int" where
  "unicode_buf_cmp_str p c = buf_cmp_from (ub_ptr p) (ub_len p) (map scast c) (length c) 0"

section \<open>Well-formed buffers and appending\<close>

definition wf_buf :: "unicode_buf \<Rightarrow> bool" where
  "wf_buf p \<longleftrightarrow> ub_len p \<le> ub_size p \<and> ub_size p \<le> ub_max p \<and> length (ub_ptr p) = ub_size p"

lemma wf_buf_init [simp]: "wf_buf (unicode_buf_init mx)" "ub_chars (unicode_buf_init mx) = []"
  "ub_max (unicode_buf_init mx) = mx" "ub_len (unicode_buf_init mx) = 0"
  by (simp_all add: wf_buf_def unicode_buf_init_def ub_chars_def)

lemma wf_buf_clear [simp]: "wf_buf p \<Longrightarrow> wf_buf (unicode_buf_clear p)" "ub_chars (unicode_buf_clear p) = []"
  "ub_max (unicode_buf_clear p) = ub_max p"
  by (simp_all add: wf_buf_def unicode_buf_clear_def ub_chars_def)

lemma length_ub_chars: "wf_buf p \<Longrightarrow> length (ub_chars p) = ub_len p"
  by (simp add: wf_buf_def ub_chars_def)

lemma append_spec:
  assumes "wf_buf p"
  shows "wf_buf (unicode_buf_append p uc) \<and> ub_max (unicode_buf_append p uc) = ub_max p \<and>
    ub_chars (unicode_buf_append p uc) = take (ub_max p) (ub_chars p @ uc)"
proof -
  define l where "l = min (length uc) (ub_max p - ub_len p)"
  define q where "q = (if ub_size p < ub_len p + l then
      let n = min (ub_max p) (max 256 ((ub_len p + l) * 2))
      in p\<lparr>ub_ptr := take n (ub_ptr p) @ replicate (n - length (ub_ptr p)) 0, ub_size := n\<rparr> else p)"
  have wf: "ub_len p \<le> ub_size p" "ub_size p \<le> ub_max p" "length (ub_ptr p) = ub_size p"
    using assms by (simp_all add: wf_buf_def)
  have app: "unicode_buf_append p uc = q\<lparr>ub_ptr := memcpy_at (ub_ptr q) (ub_len q) (take l uc), ub_len := ub_len q + l\<rparr>"
    by (simp add: unicode_buf_append_def Let_def q_def l_def min_def max_def)
  have q: "ub_len q = ub_len p" "ub_max q = ub_max p" "ub_len p + l \<le> ub_size q" "ub_size q \<le> ub_max p"
    "length (ub_ptr q) = ub_size q" "take (ub_len p) (ub_ptr q) = ub_chars p"
    using wf by (auto simp: q_def l_def Let_def ub_chars_def min_def)
  have len: "length (take l uc) = l" by (simp add: l_def)
  have "take (ub_len p + l) (memcpy_at (ub_ptr q) (ub_len p) (take l uc)) = ub_chars p @ take l uc"
    using take_memcpy_at[of "ub_len p" "ub_ptr q" "take l uc"] q(3,5,6) len by simp
  moreover have "ub_chars p @ take l uc = take (ub_max p) (ub_chars p @ uc)"
    using wf by (auto simp: l_def min_def length_ub_chars[OF assms] wf_buf_def ub_chars_def)
  ultimately show ?thesis
    using q len by (simp add: app wf_buf_def ub_chars_def)
qed

lemma append_char_spec:
  "wf_buf p \<Longrightarrow> wf_buf (unicode_buf_append_char p s) \<and> ub_max (unicode_buf_append_char p s) = ub_max p \<and>
    ub_chars (unicode_buf_append_char p s) = take (ub_max p) (ub_chars p @ map ucast s)"
proof (induction p s rule: unicode_buf_append_char.induct)
  case (1 p s)
  show ?case
  proof (cases "s = []")
    case True
    have "length (ub_chars p) \<le> ub_max p" using "1.prems" by (simp add: length_ub_chars wf_buf_def)
    with True "1.prems" show ?thesis by (simp add: unicode_buf_append_char.simps)
  next
    case False
    define n where "n = (if length s < 256 then length s else 256)"
    define q where "q = unicode_buf_append p (map ucast (take n s))"
    have q: "wf_buf q" "ub_max q = ub_max p" "ub_chars q = take (ub_max p) (ub_chars p @ map ucast (take n s))"
      using append_spec[OF "1.prems"] by (simp_all add: q_def)
    have "unicode_buf_append_char p s = unicode_buf_append_char q (drop n s)"
      using False by (subst unicode_buf_append_char.simps) (simp add: n_def q_def Let_def)
    moreover have "take m (take m (xs @ map ucast (take n s)) @ map ucast (drop n s)) = take m (xs @ map ucast s)"
      for m and xs :: "u32 list"
    proof -
      have "map ucast s = map ucast (take n s) @ (map ucast (drop n s) :: u32 list)" by (simp flip: map_append)
      then show ?thesis by (simp add: take_append[of m "xs @ map ucast (take n s)"] min_def)
    qed
    ultimately show ?thesis
      using "1.IH"[OF False n_def, folded q_def, OF q(1)] q(2,3) by simp
  qed
qed

section \<open>Removal\<close>

lemma bytes_chars_append: "bytes_chars (char_bytes cs @ bs) = cs @ bytes_chars bs"
proof (induction cs)
  case Nil
  then show ?case by (simp add: char_bytes_def)
next
  case (Cons c cs)
  have "pack_be (rev (unpack_le 4 c)) = c" by (rule pack_unpack) simp
  with Cons show ?case by (simp add: char_bytes_def unpack_le_numeral)
qed

lemma length_char_bytes [simp]: "length (char_bytes cs) = 4 * length cs"
  by (induction cs) (simp_all add: char_bytes_def)

lemma take_char_bytes: "take (4 * n) (char_bytes cs) = char_bytes (take n cs)"
proof (induction cs arbitrary: n)
  case Nil
  then show ?case by (simp add: char_bytes_def)
next
  case (Cons c cs)
  then show ?case by (cases n) (simp_all add: char_bytes_def)
qed

lemma length_bytes_chars: "length (bytes_chars bs) = length bs div 4"
  by (induction bs rule: bytes_chars.induct) auto

lemma memmove_chars_spec:
  assumes "dst \<le> length buf" "4 * dst + n \<le> 4 * length buf"
  shows "take dst (memmove_chars buf dst src n) = take dst buf" "length (memmove_chars buf dst src n) = length buf"
    "memmove_chars buf dst src 0 = buf"
proof -
  let ?x = "take n (drop (4 * src) (char_bytes buf))"
  have m: "memcpy_at (char_bytes buf) (4 * dst) y = char_bytes (take dst buf) @ y @ drop (4 * dst + length y) (char_bytes buf)" for y
    by (simp add: memcpy_at_def take_char_bytes)
  show "take dst (memmove_chars buf dst src n) = take dst buf"
    using assms(1) by (simp add: memmove_chars_def m bytes_chars_append Let_def)
  have "length ?x \<le> n" by simp
  then have "4 * dst + length ?x \<le> 4 * length buf" using assms(2) by linarith
  then have "length (memcpy_at (char_bytes buf) (4 * dst) ?x) = 4 * length buf" by simp
  then show "length (memmove_chars buf dst src n) = length buf"
    by (simp only: memmove_chars_def Let_def length_bytes_chars)
  have "memcpy_at (char_bytes buf) (4 * dst) [] = char_bytes buf" by (simp add: memcpy_at_def)
  then show "memmove_chars buf dst src 0 = buf"
    using bytes_chars_append[of buf "[]"] by (simp add: memmove_chars_def Let_def)
qed

lemma remove_spec:
  assumes wf: "wf_buf p" and pos: "pos \<le> ub_len p" "cnt \<le> ub_len p - pos"
  shows "wf_buf (unicode_buf_remove p pos cnt)" "ub_len (unicode_buf_remove p pos cnt) = ub_len p - cnt"
    "take (pos + cnt) (ub_chars (unicode_buf_remove p pos cnt)) = take (min (pos + cnt) (ub_len p - cnt)) (ub_chars p)"
proof -
  define buf where "buf = (if cnt \<noteq> 0 then memmove_chars (ub_ptr p) (pos + cnt) pos (ub_len p - pos - cnt) else ub_ptr p)"
  have r: "unicode_buf_remove p pos cnt = p\<lparr>ub_ptr := buf, ub_len := ub_len p - cnt\<rparr>"
    using pos by (simp add: unicode_buf_remove_def buf_def Let_def)
  have len: "ub_len p \<le> length (ub_ptr p)" using wf by (simp add: wf_buf_def)
  have d: "pos + cnt \<le> length (ub_ptr p)" using pos len by linarith
  obtain k where k: "ub_len p = pos + cnt + k" using pos by (metis le_add_diff_inverse add.assoc)
  have n: "4 * (pos + cnt) + (ub_len p - pos - cnt) \<le> 4 * length (ub_ptr p)" using len by (simp add: k)
  note m = memmove_chars_spec[OF d n, of pos]
  have buf: "length buf = length (ub_ptr p)" "take (pos + cnt) buf = take (pos + cnt) (ub_ptr p)"
    using m by (simp_all add: buf_def)
  show "wf_buf (unicode_buf_remove p pos cnt)" using wf buf(1) by (auto simp: r wf_buf_def)
  show "ub_len (unicode_buf_remove p pos cnt) = ub_len p - cnt" by (simp add: r)
  have "take (pos + cnt) (take k buf) = take (pos + cnt) (take k (ub_ptr p))" for k
    using buf(2) by (simp only: take_take min.commute[of "pos + cnt"]) (simp flip: take_take)
  then show "take (pos + cnt) (ub_chars (unicode_buf_remove p pos cnt)) = take (min (pos + cnt) (ub_len p - cnt)) (ub_chars p)"
    by (simp add: r ub_chars_def min_def)
qed

section \<open>Comparison\<close>

fun lex_cmp :: "u32 list \<Rightarrow> u32 list \<Rightarrow> int" where
  "lex_cmp [] [] = 0"
| "lex_cmp [] (y # ys) = -1"
| "lex_cmp (x # xs) [] = 1"
| "lex_cmp (x # xs) (y # ys) = (if x < y then -1 else if y < x then 1 else lex_cmp xs ys)"

lemma lex_cmp_lexordp:
  "lex_cmp xs ys = (if xs = ys then 0 else if ord_class.lexordp xs ys then -1 else 1)"
  by (induction xs ys rule: lex_cmp.induct) auto

lemma buf_cmp_from_lex:
  "al \<le> length a \<Longrightarrow> bl \<le> length b \<Longrightarrow> i \<le> al \<Longrightarrow> i \<le> bl \<Longrightarrow>
   buf_cmp_from a al b bl i = lex_cmp (drop i (take al a)) (drop i (take bl b))"
proof (induction a al b bl i rule: buf_cmp_from.induct)
  case (1 a al b bl i)
  show ?case
  proof (cases "i < al \<and> i < bl")
    case True
    then have "drop i (take al a) = a ! i # drop (i + 1) (take al a)"
      "drop i (take bl b) = b ! i # drop (i + 1) (take bl b)"
      using "1.prems" takeWhile_drop_nth[of i "take al a"] takeWhile_drop_nth[of i "take bl b"] by simp_all
    with 1 True show ?thesis by (simp add: buf_cmp_from.simps[of a al b bl i])
  next
    case False
    then consider "i = al" "al < bl" | "i = bl" "bl < al" | "i = al" "i = bl" using "1.prems" by linarith
    then show ?thesis
    proof cases
      case 1
      then obtain x xs where "drop i (take bl b) = x # xs" using "1.prems" by (cases "drop i (take bl b)") auto
      with 1 show ?thesis by (simp add: buf_cmp_from.simps)
    next
      case 2
      then obtain x xs where "drop i (take al a) = x # xs" using "1.prems" by (cases "drop i (take al a)") auto
      with 2 show ?thesis by (simp add: buf_cmp_from.simps)
    next
      case 3
      then show ?thesis by (simp add: buf_cmp_from.simps)
    qed
  qed
qed

section \<open>Properties\<close>

definition demo_buf :: unicode_buf where
  "demo_buf = unicode_buf_append (unicode_buf_init 300) [1, 2, 3, 4, 5]"

lemma wf_demo_buf: "wf_buf demo_buf"
  unfolding demo_buf_def using append_spec[OF wf_buf_init(1)] by blast

lemma demo_chars: "ub_chars demo_buf = [1, 2, 3, 4, 5]"
  using append_spec[OF wf_buf_init(1), of 300 "[1, 2, 3, 4, 5]"] by (simp add: demo_buf_def)

text \<open>
  C36: Every operation keeps the buffer well-formed: the length is at most the size of the array,
  which is at most the maximum.
\<close>

theorem unicode_buf_wf:
  assumes "wf_buf p"
  shows "wf_buf (unicode_buf_init mx) \<and> wf_buf (unicode_buf_clear p) \<and> wf_buf (unicode_buf_append p uc) \<and>
    wf_buf (unicode_buf_append_char p s) \<and> wf_buf (unicode_buf_remove p pos cnt)"
proof -
  define pos' cnt' where "pos' = min pos (ub_len p)" and "cnt' = min cnt (ub_len p - pos')"
  have "unicode_buf_remove p pos cnt = unicode_buf_remove p pos' cnt'"
    by (simp add: unicode_buf_remove_def pos'_def cnt'_def Let_def min_def)
  with remove_spec(1)[OF assms, of pos' cnt'] append_spec[OF assms] append_char_spec[OF assms] assms
  show ?thesis by (simp add: pos'_def cnt'_def)
qed

theorem unicode_buf_wf_witness:
  "wf_buf (unicode_buf_init 3) \<and> wf_buf (unicode_buf_clear demo_buf) \<and> wf_buf (unicode_buf_append demo_buf [7]) \<and>
    wf_buf (unicode_buf_append_char demo_buf [8, 9]) \<and> wf_buf (unicode_buf_remove demo_buf 1 2)"
  by (rule unicode_buf_wf[OF wf_demo_buf])

text \<open>
  Appending adds the characters, or the bytes of an ISO 8859-1 string, at the end, up to the
  maximal length of the buffer.
\<close>

theorem unicode_buf_appends:
  assumes "wf_buf p"
  shows "ub_chars (unicode_buf_append p uc) = take (ub_max p) (ub_chars p @ uc) \<and>
    ub_chars (unicode_buf_append_char p s) = take (ub_max p) (ub_chars p @ map ucast s)"
  using append_spec[OF assms] append_char_spec[OF assms] by blast

theorem unicode_buf_appends_witness:
  "ub_chars (unicode_buf_append demo_buf [7]) = take (ub_max demo_buf) (ub_chars demo_buf @ [7]) \<and>
    ub_chars (unicode_buf_append_char demo_buf [200]) = take (ub_max demo_buf) (ub_chars demo_buf @ map ucast [200 :: u8])"
  by (rule unicode_buf_appends[OF wf_demo_buf])

text \<open>
  C37: Removal does not do what its name says unless it removes the end of the buffer: the characters
  up to \<open>pos + cnt\<close>, the ones to remove included, stay, and the buffer only gets shorter.
\<close>

theorem unicode_buf_remove_effect:
  assumes "wf_buf p" "pos \<le> ub_len p" "cnt \<le> ub_len p - pos"
  shows "ub_len (unicode_buf_remove p pos cnt) = ub_len p - cnt \<and>
    take (pos + cnt) (ub_chars (unicode_buf_remove p pos cnt)) = take (min (pos + cnt) (ub_len p - cnt)) (ub_chars p)"
  using remove_spec[OF assms] by blast

theorem unicode_buf_remove_effect_witness:
  "ub_len (unicode_buf_remove demo_buf 0 2) = ub_len demo_buf - 2 \<and>
    take (0 + 2) (ub_chars (unicode_buf_remove demo_buf 0 2)) = take (min (0 + 2) (ub_len demo_buf - 2)) (ub_chars demo_buf)"
proof (rule unicode_buf_remove_effect[OF wf_demo_buf])
  show "2 \<le> ub_len demo_buf - 0" using length_ub_chars[OF wf_demo_buf] by (simp add: demo_chars)
qed simp



end
