(* ===== verification/Linebreak.thy ===== *)
theory Linebreak
  imports Unicode_Tab Unicode_Buf Reporter
begin

text \<open>
  Line breaking (unicode/unicode_linebreak.c): the machine that reports for every character of a
  text whether a line break before it is mandatory, allowed or not, holding an opening bracket after
  a currency sign back until it has seen whether a number follows; the layer above it that hands the
  character along with the report; and the width of characters (unicode/unicode_wcwidth.c), which is
  taken from the same classes.
\<close>

section \<open>Classes, results and state\<close>

abbreviation (input) LB_BK :: u8 where "LB_BK \<equiv> 0x00"
abbreviation (input) LB_CR :: u8 where "LB_CR \<equiv> 0x01"
abbreviation (input) LB_LF :: u8 where "LB_LF \<equiv> 0x02"
abbreviation (input) LB_CM :: u8 where "LB_CM \<equiv> 0x03"
abbreviation (input) LB_NL :: u8 where "LB_NL \<equiv> 0x04"
abbreviation (input) LB_SG :: u8 where "LB_SG \<equiv> 0x05"
abbreviation (input) LB_WJ :: u8 where "LB_WJ \<equiv> 0x06"
abbreviation (input) LB_ZW :: u8 where "LB_ZW \<equiv> 0x07"
abbreviation (input) LB_GL :: u8 where "LB_GL \<equiv> 0x08"
abbreviation (input) LB_SP :: u8 where "LB_SP \<equiv> 0x09"
abbreviation (input) LB_B2 :: u8 where "LB_B2 \<equiv> 0x10"
abbreviation (input) LB_BA :: u8 where "LB_BA \<equiv> 0x11"
abbreviation (input) LB_BB :: u8 where "LB_BB \<equiv> 0x12"
abbreviation (input) LB_HY :: u8 where "LB_HY \<equiv> 0x13"
abbreviation (input) LB_CB :: u8 where "LB_CB \<equiv> 0x14"
abbreviation (input) LB_CL :: u8 where "LB_CL \<equiv> 0x20"
abbreviation (input) LB_CP :: u8 where "LB_CP \<equiv> 0x21"
abbreviation (input) LB_EX :: u8 where "LB_EX \<equiv> 0x22"
abbreviation (input) LB_IN :: u8 where "LB_IN \<equiv> 0x23"
abbreviation (input) LB_NS :: u8 where "LB_NS \<equiv> 0x24"
abbreviation (input) LB_OP :: u8 where "LB_OP \<equiv> 0x25"
abbreviation (input) LB_QU :: u8 where "LB_QU \<equiv> 0x26"
abbreviation (input) LB_IS :: u8 where "LB_IS \<equiv> 0x30"
abbreviation (input) LB_NU :: u8 where "LB_NU \<equiv> 0x31"
abbreviation (input) LB_PO :: u8 where "LB_PO \<equiv> 0x32"
abbreviation (input) LB_PR :: u8 where "LB_PR \<equiv> 0x33"
abbreviation (input) LB_SY :: u8 where "LB_SY \<equiv> 0x34"
abbreviation (input) LB_AI :: u8 where "LB_AI \<equiv> 0x40"
abbreviation (input) LB_AL :: u8 where "LB_AL \<equiv> 0x41"
abbreviation (input) LB_H2 :: u8 where "LB_H2 \<equiv> 0x42"
abbreviation (input) LB_H3 :: u8 where "LB_H3 \<equiv> 0x43"
abbreviation (input) LB_ID :: u8 where "LB_ID \<equiv> 0x44"
abbreviation (input) LB_JL :: u8 where "LB_JL \<equiv> 0x45"
abbreviation (input) LB_JV :: u8 where "LB_JV \<equiv> 0x46"
abbreviation (input) LB_JT :: u8 where "LB_JT \<equiv> 0x47"
abbreviation (input) LB_SA :: u8 where "LB_SA \<equiv> 0x48"
abbreviation (input) LB_SOT :: u8 where "LB_SOT \<equiv> 0xFF"

abbreviation (input) LB_MANDATORY :: int where "LB_MANDATORY \<equiv> -1"
abbreviation (input) LB_NONE :: int where "LB_NONE \<equiv> 0"
abbreviation (input) LB_ALLOWED :: int where "LB_ALLOWED \<equiv> 1"

text \<open>The option bits of unicode.h.\<close>

definition LB_OPT_PRBREAK :: "u32 \<Rightarrow> bool" where "LB_OPT_PRBREAK opts \<longleftrightarrow> opts AND 0x0001 \<noteq> 0"
definition LB_OPT_SYBREAK :: "u32 \<Rightarrow> bool" where "LB_OPT_SYBREAK opts \<longleftrightarrow> opts AND 0x0002 \<noteq> 0"

datatype lb_next_handler = Next_def | Next_lb25_seenophy | Next_lb25_seennu | Next_lb25_seennuclcp

datatype lb_end_handler = End_def | End_lb25_seenophy

text \<open>The counter is a \<open>size_t\<close>, of 64 bits.\<close>

definition SIZE_MAX :: nat where "SIZE_MAX = 2 ^ 64 - 1"

record 's unicode_lb_info =
  lb_opts :: u32
  lb_savedclass :: u8
  lb_savedcmcnt :: nat
  lb_prevclass :: u8
  lb_prevclass_nsp :: u8
  lb_next_handler :: lb_next_handler
  lb_end_handler :: lb_end_handler
  lb_cb_arg :: 's

type_synonym 's lb_callback = "int \<Rightarrow> 's \<Rightarrow> int \<times> 's"

definition unicode_lb_reset :: "'s unicode_lb_info \<Rightarrow> 's unicode_lb_info" where
  "unicode_lb_reset i = i\<lparr>lb_prevclass := LB_SOT, lb_prevclass_nsp := LB_SOT,
     lb_next_handler := Next_def, lb_end_handler := End_def\<rparr>"

definition unicode_lb_init :: "'s \<Rightarrow> 's unicode_lb_info" where
  "unicode_lb_init arg = unicode_lb_reset \<lparr>lb_opts = 0, lb_savedclass = 0, lb_savedcmcnt = 0, lb_prevclass = 0,
     lb_prevclass_nsp = 0, lb_next_handler = Next_def, lb_end_handler = End_def, lb_cb_arg = arg\<rparr>"

definition unicode_lb_set_opts :: "u32 \<Rightarrow> 's unicode_lb_info \<Rightarrow> 's unicode_lb_info" where
  "unicode_lb_set_opts opts i = i\<lparr>lb_opts := opts\<rparr>"

section \<open>The machine\<close>

definition RESULT :: "'s lb_callback \<Rightarrow> int \<Rightarrow> 's unicode_lb_info \<Rightarrow> int \<times> 's unicode_lb_info" where
  "RESULT f x i = (case f x (lb_cb_arg i) of (rc, s) \<Rightarrow> (rc, i\<lparr>lb_cb_arg := s\<rparr>))"

definition end_def :: "'s unicode_lb_info \<Rightarrow> int \<times> 's unicode_lb_info" where
  "end_def i = (0, i)"

text \<open>Both classes of the previous character become \<open>u\<close>.\<close>

definition set_prev :: "u8 \<Rightarrow> 's unicode_lb_info \<Rightarrow> 's unicode_lb_info" where
  "set_prev u i = i\<lparr>lb_prevclass := u, lb_prevclass_nsp := u\<rparr>"

text \<open>
  \<open>next_def_nolb25\<close> in four parts: from rule LB26 on, from LB21 on, from LB11 on, and the whole.  \<open>prev\<close> and \<open>nsp\<close>
  are its variables \<open>prevclass\<close> and \<open>prevclass_nsp\<close>.
\<close>

definition next_def_lb26 :: "'s lb_callback \<Rightarrow> u8 \<Rightarrow> u8 \<Rightarrow> 's unicode_lb_info \<Rightarrow> int \<times> 's unicode_lb_info" where
  "next_def_lb26 f prev uclass i =
     (if (prev = LB_OP \<or> prev = LB_HY) \<and> uclass = LB_NU then RESULT f LB_NONE i
      else if prev = LB_JL \<and> uclass \<in> {LB_JL, LB_JV, LB_H2, LB_H3} then RESULT f LB_NONE i
      else if (prev = LB_JV \<or> prev = LB_H2) \<and> (uclass = LB_JV \<or> uclass = LB_JT) then RESULT f LB_NONE i
      else if (prev = LB_JT \<or> prev = LB_H3) \<and> uclass = LB_JT then RESULT f LB_NONE i
      else if prev \<in> {LB_JL, LB_JV, LB_JT, LB_H2, LB_H3} \<and> (uclass = LB_IN \<or> uclass = LB_PO) then RESULT f LB_NONE i
      else if uclass \<in> {LB_JL, LB_JV, LB_JT, LB_H2, LB_H3} \<and> prev = LB_PR then RESULT f LB_NONE i
      else if prev = LB_AL \<and> uclass = LB_AL then RESULT f LB_NONE i
      else if prev = LB_IS \<and> uclass = LB_AL then RESULT f LB_NONE i
      else if (prev = LB_AL \<or> prev = LB_NU) \<and> uclass = LB_OP then RESULT f LB_NONE i
      else if (uclass = LB_AL \<or> uclass = LB_NU) \<and> prev = LB_CP then RESULT f LB_NONE i
      else RESULT f LB_ALLOWED i)"

definition next_def_lb21 ::
  "'s lb_callback \<Rightarrow> bool \<Rightarrow> u8 \<Rightarrow> u8 \<Rightarrow> u8 \<Rightarrow> 's unicode_lb_info \<Rightarrow> int \<times> 's unicode_lb_info" where
  "next_def_lb21 f nolb25 prev nsp uclass i =
     (if uclass \<in> {LB_BA, LB_HY, LB_NS} then RESULT f LB_NONE i
      else if prev = LB_BB then RESULT f LB_NONE i
      else if uclass = LB_IN \<and> prev \<in> {LB_AL, LB_ID, LB_IN, LB_NU} then RESULT f LB_NONE i
      else if prev = LB_ID \<and> uclass = LB_PO then RESULT f LB_NONE i
      else if prev = LB_AL \<and> uclass = LB_NU then RESULT f LB_NONE i
      else if prev = LB_NU \<and> uclass = LB_AL then RESULT f LB_NONE i
      else if prev = LB_PR \<and> uclass = LB_ID then RESULT f LB_NONE i
      else if prev = LB_PR \<and> uclass = LB_AL then RESULT f LB_NONE i
      else if prev = LB_PO \<and> uclass = LB_AL then RESULT f LB_NONE i
      else if LB_OPT_PRBREAK (lb_opts i) \<and> uclass = LB_PR \<and> prev \<in> {LB_PR, LB_AL, LB_ID} then RESULT f LB_NONE i
      else if \<not> nolb25 \<and> (prev = LB_PR \<or> prev = LB_PO) \<and> uclass = LB_NU then RESULT f LB_NONE i
      else if \<not> nolb25 \<and> (prev = LB_PR \<or> prev = LB_PO) \<and> (uclass = LB_OP \<or> uclass = LB_HY) then
        (0, i\<lparr>lb_prevclass := prev, lb_prevclass_nsp := nsp, lb_savedclass := uclass, lb_savedcmcnt := 0,
            lb_next_handler := Next_lb25_seenophy, lb_end_handler := End_lb25_seenophy\<rparr>)
      else next_def_lb26 f prev uclass i)"

definition next_def_lb11 ::
  "'s lb_callback \<Rightarrow> bool \<Rightarrow> u8 \<Rightarrow> u8 \<Rightarrow> u8 \<Rightarrow> 's unicode_lb_info \<Rightarrow> int \<times> 's unicode_lb_info" where
  "next_def_lb11 f nolb25 prev nsp uclass i =
     (if prev = LB_WJ \<or> uclass = LB_WJ then RESULT f LB_NONE i
      else if prev = LB_GL then RESULT f LB_NONE i
      else if uclass = LB_GL \<and> prev \<noteq> LB_SP \<and> prev \<noteq> LB_BA \<and> prev \<noteq> LB_HY then RESULT f LB_NONE i
      else if uclass = LB_SY \<and> LB_OPT_SYBREAK (lb_opts i) \<and> prev = LB_SP then RESULT f LB_ALLOWED i
      else if uclass \<in> {LB_SY, LB_CL, LB_CP, LB_EX, LB_IS} then RESULT f LB_NONE i
      else if LB_OPT_SYBREAK (lb_opts i) \<and> prev = LB_SY \<and> uclass \<in> {LB_EX, LB_AL, LB_ID} then RESULT f LB_NONE i
      else if nsp = LB_OP then RESULT f LB_NONE i
      else if nsp = LB_QU \<and> uclass = LB_OP then RESULT f LB_NONE i
      else if (nsp = LB_CL \<or> nsp = LB_CP) \<and> uclass = LB_NS then RESULT f LB_NONE i
      else if nsp = LB_B2 \<and> uclass = LB_B2 then RESULT f LB_NONE i
      else if prev = LB_SP then RESULT f LB_ALLOWED i
      else if uclass = LB_QU \<or> prev = LB_QU then RESULT f LB_NONE i
      else if uclass = LB_CB \<or> prev = LB_CB then RESULT f LB_ALLOWED i
      else next_def_lb21 f nolb25 prev nsp uclass i)"

definition next_def_nolb25 :: "'s lb_callback \<Rightarrow> u8 \<Rightarrow> bool \<Rightarrow> 's unicode_lb_info \<Rightarrow> int \<times> 's unicode_lb_info" where
  "next_def_nolb25 f uclass nolb25 i =
     (let prev = lb_prevclass i;
          nsp = lb_prevclass_nsp i;
          i = i\<lparr>lb_prevclass := uclass\<rparr>;
          i = (if uclass \<noteq> LB_SP then i\<lparr>lb_prevclass_nsp := uclass\<rparr> else i);
          i = (if uclass = LB_NU then i\<lparr>lb_next_handler := Next_lb25_seennu\<rparr> else i)
      in if prev = LB_SOT then RESULT f LB_NONE (if uclass = LB_CM then set_prev LB_AL i else i)
         else if prev = LB_CR \<and> uclass = LB_LF then RESULT f LB_NONE i
         else if prev \<in> {LB_BK, LB_CR, LB_LF, LB_NL} then
           RESULT f LB_MANDATORY (if uclass = LB_CM then set_prev LB_AL i else i)
         else
           let cm = ((prev = LB_SP \<or> prev = LB_ZW) \<and> uclass = LB_CM);
               i = (if cm then set_prev LB_AL i else i);
               uclass = (if cm then LB_AL else uclass)
           in if uclass \<in> {LB_BK, LB_CR, LB_LF, LB_NL, LB_SP, LB_ZW} then RESULT f LB_NONE i
              else if nsp = LB_ZW then RESULT f LB_ALLOWED i
              else if uclass = LB_CM then RESULT f LB_NONE (i\<lparr>lb_prevclass := prev, lb_prevclass_nsp := nsp\<rparr>)
              else next_def_lb11 f nolb25 prev nsp uclass i)"

definition next_def :: "'s lb_callback \<Rightarrow> u8 \<Rightarrow> 's unicode_lb_info \<Rightarrow> int \<times> 's unicode_lb_info" where
  "next_def f uclass i = next_def_nolb25 f uclass False i"

text \<open>
  The loop of \<open>unwind_lb25_seenophy\<close>: the held character once with the flag set, then once without for
  each combining mark after it; the source repeats the held class here, not the class of the mark.
\<close>

function unwind_loop :: "'s lb_callback \<Rightarrow> bool \<Rightarrow> nat \<Rightarrow> 's unicode_lb_info \<Rightarrow> int \<times> 's unicode_lb_info" where
  "unwind_loop f nolb25_flag n i =
     rc_then (next_def_nolb25 f (lb_savedclass i) nolb25_flag i)
       (\<lambda>i. if n = 0 then (0, i\<lparr>lb_savedcmcnt := SIZE_MAX\<rparr>)
            else unwind_loop f False (n - 1) (i\<lparr>lb_savedcmcnt := n - 1\<rparr>))"
  by pat_completeness auto
termination by (relation "measure (\<lambda>(f, flag, n, i). n)") auto

declare unwind_loop.simps [simp del]

definition unwind_lb25_seenophy :: "'s lb_callback \<Rightarrow> 's unicode_lb_info \<Rightarrow> int \<times> 's unicode_lb_info" where
  "unwind_lb25_seenophy f i =
     unwind_loop f True (lb_savedcmcnt i) (i\<lparr>lb_next_handler := Next_def, lb_end_handler := End_def\<rparr>)"

text \<open>The feedback for the held character and the marks after it, once a number is there.\<close>

function feedback_loop :: "'s lb_callback \<Rightarrow> nat \<Rightarrow> 's unicode_lb_info \<Rightarrow> int \<times> 's unicode_lb_info" where
  "feedback_loop f n i =
     rc_then (RESULT f LB_NONE i)
       (\<lambda>i. if n = 0 then (0, i\<lparr>lb_savedcmcnt := SIZE_MAX\<rparr>)
            else feedback_loop f (n - 1) (i\<lparr>lb_savedcmcnt := n - 1\<rparr>))"
  by pat_completeness auto
termination by (relation "measure (\<lambda>(f, n, i). n)") auto

declare feedback_loop.simps [simp del]

definition next_lb25_seenophy :: "'s lb_callback \<Rightarrow> u8 \<Rightarrow> 's unicode_lb_info \<Rightarrow> int \<times> 's unicode_lb_info" where
  "next_lb25_seenophy f uclass i =
     (if uclass = LB_CM then (0, i\<lparr>lb_savedcmcnt := lb_savedcmcnt i + 1\<rparr>)
      else if uclass \<noteq> LB_NU then
        rc_then (unwind_lb25_seenophy f i) (next_def_nolb25 f uclass False)
      else rc_then (feedback_loop f (lb_savedcmcnt i) i)
        (\<lambda>i. RESULT f LB_NONE (set_prev uclass
            (i\<lparr>lb_next_handler := Next_lb25_seennu, lb_end_handler := End_def\<rparr>))))"

definition end_lb25_seenophy :: "'s lb_callback \<Rightarrow> 's unicode_lb_info \<Rightarrow> int \<times> 's unicode_lb_info" where
  "end_lb25_seenophy f i = rc_then (unwind_lb25_seenophy f i) end_def"

definition next_lb25_seennu :: "'s lb_callback \<Rightarrow> u8 \<Rightarrow> 's unicode_lb_info \<Rightarrow> int \<times> 's unicode_lb_info" where
  "next_lb25_seennu f uclass i =
     (if uclass = LB_NU \<or> uclass = LB_SY \<or> uclass = LB_IS then RESULT f LB_NONE (set_prev uclass i)
      else if uclass = LB_CM then RESULT f LB_NONE i
      else if uclass = LB_CL \<or> uclass = LB_CP then
        RESULT f LB_NONE (set_prev uclass i\<lparr>lb_next_handler := Next_lb25_seennuclcp, lb_end_handler := End_def\<rparr>)
      else let i = i\<lparr>lb_next_handler := Next_def, lb_end_handler := End_def\<rparr>
           in if uclass = LB_PR \<or> uclass = LB_PO then RESULT f LB_NONE (set_prev uclass i)
              else next_def f uclass i)"

definition next_lb25_seennuclcp :: "'s lb_callback \<Rightarrow> u8 \<Rightarrow> 's unicode_lb_info \<Rightarrow> int \<times> 's unicode_lb_info" where
  "next_lb25_seennuclcp f uclass i =
     (if uclass = LB_CM then RESULT f LB_NONE i
      else let i = i\<lparr>lb_next_handler := Next_def, lb_end_handler := End_def\<rparr>
           in if uclass = LB_PR \<or> uclass = LB_PO then RESULT f LB_NONE (set_prev uclass i)
              else next_def f uclass i)"

definition unicode_lb_lookup :: "unicode_tables \<Rightarrow> u32 \<Rightarrow> u8" where
  "unicode_lb_lookup t c = unicode_tab_lookup c t LB_AL"

definition unicode_lb_next ::
  "unicode_tables \<Rightarrow> 's lb_callback \<Rightarrow> u32 \<Rightarrow> 's unicode_lb_info \<Rightarrow> int \<times> 's unicode_lb_info" where
  "unicode_lb_next t f c i =
     (case lb_next_handler i of
        Next_def \<Rightarrow> next_def f (unicode_lb_lookup t c) i
      | Next_lb25_seenophy \<Rightarrow> next_lb25_seenophy f (unicode_lb_lookup t c) i
      | Next_lb25_seennu \<Rightarrow> next_lb25_seennu f (unicode_lb_lookup t c) i
      | Next_lb25_seennuclcp \<Rightarrow> next_lb25_seennuclcp f (unicode_lb_lookup t c) i)"

primrec unicode_lb_next_cnt ::
  "unicode_tables \<Rightarrow> 's lb_callback \<Rightarrow> u32 list \<Rightarrow> 's unicode_lb_info \<Rightarrow> int \<times> 's unicode_lb_info" where
  "unicode_lb_next_cnt t f [] i = (0, i)"
| "unicode_lb_next_cnt t f (c # cs) i = rc_then (unicode_lb_next t f c i) (unicode_lb_next_cnt t f cs)"

definition unicode_lb_end :: "'s lb_callback \<Rightarrow> 's unicode_lb_info \<Rightarrow> int \<times> 's" where
  "unicode_lb_end f i =
     (case (case lb_end_handler i of End_def \<Rightarrow> end_def i | End_lb25_seenophy \<Rightarrow> end_lb25_seenophy f i) of
        (rc, i) \<Rightarrow> (rc, lb_cb_arg i))"

section \<open>The rules\<close>

text \<open>
  The line breaking rules of Unicode Standard Annex 14 with the rule for numbers in the form of a
  regular expression.  \<open>prev\<close> is the class before the break, \<open>nsp\<close> the last class before it that is not a
  space, combining marks not counted, and \<open>u\<close> the class after it.  First the rules that hold across
  spaces (LB11 to LB17).
\<close>

definition lb_hard :: "u8 \<Rightarrow> bool" where
  "lb_hard k \<longleftrightarrow> k = LB_BK \<or> k = LB_CR \<or> k = LB_LF \<or> k = LB_NL"

definition lb_glued :: "u32 \<Rightarrow> u8 \<Rightarrow> u8 \<Rightarrow> u8 \<Rightarrow> bool" where
  "lb_glued opts prev nsp u \<longleftrightarrow>
     prev = LB_WJ \<or> u = LB_WJ \<or> prev = LB_GL \<or>
     u = LB_GL \<and> prev \<notin> {LB_SP, LB_BA, LB_HY} \<or>
     u \<in> {LB_CL, LB_CP, LB_EX, LB_IS} \<or>
     u = LB_SY \<and> \<not> (LB_OPT_SYBREAK opts \<and> prev = LB_SP) \<or>
     LB_OPT_SYBREAK opts \<and> prev = LB_SY \<and> u \<in> {LB_AL, LB_ID} \<or>
     nsp = LB_OP \<and> u \<noteq> LB_SY \<or>
     nsp = LB_QU \<and> u = LB_OP \<or>
     (nsp = LB_CL \<or> nsp = LB_CP) \<and> u = LB_NS \<or>
     nsp = LB_B2 \<and> u = LB_B2"

text \<open>
  Hangul syllables as for grapheme clusters, and the rules between adjacent characters (LB21 to
  LB30); \<open>ahead\<close> tells whether a number comes next.
\<close>

definition lb_jamo :: "u8 \<Rightarrow> nat list" where
  "lb_jamo k = (if k = LB_JL then [0] else if k = LB_JV then [1] else if k = LB_JT then [2]
     else if k = LB_H2 then [0, 1] else if k = LB_H3 then [0, 1, 2] else [])"

definition lb_kept :: "u32 \<Rightarrow> u8 \<Rightarrow> u8 \<Rightarrow> bool \<Rightarrow> bool" where
  "lb_kept opts prev u ahead \<longleftrightarrow>
     u \<in> {LB_BA, LB_HY, LB_NS} \<or> prev = LB_BB \<or>
     u = LB_IN \<and> prev \<in> {LB_AL, LB_ID, LB_IN, LB_NU} \<or>
     prev = LB_ID \<and> u = LB_PO \<or> prev = LB_AL \<and> u = LB_NU \<or> prev = LB_NU \<and> u = LB_AL \<or>
     prev = LB_PR \<and> u = LB_ID \<or> (prev = LB_PR \<or> prev = LB_PO) \<and> u = LB_AL \<or>
     LB_OPT_PRBREAK opts \<and> u = LB_PR \<and> prev \<in> {LB_PR, LB_AL, LB_ID} \<or>
     (prev = LB_PR \<or> prev = LB_PO) \<and> (u = LB_NU \<or> (u = LB_OP \<or> u = LB_HY) \<and> ahead) \<or>
     (prev = LB_OP \<or> prev = LB_HY) \<and> u = LB_NU \<or>
     lb_jamo prev \<noteq> [] \<and> lb_jamo u \<noteq> [] \<and> one_syllable (lb_jamo prev @ lb_jamo u) \<or>
     lb_jamo prev \<noteq> [] \<and> (u = LB_IN \<or> u = LB_PO) \<or> prev = LB_PR \<and> lb_jamo u \<noteq> [] \<or>
     (prev = LB_AL \<or> prev = LB_IS) \<and> u = LB_AL \<or>
     (prev = LB_AL \<or> prev = LB_NU) \<and> u = LB_OP \<or>
     prev = LB_CP \<and> (u = LB_AL \<or> u = LB_NU)"

definition lb_rule :: "u32 \<Rightarrow> u8 \<Rightarrow> u8 \<Rightarrow> u8 \<Rightarrow> bool \<Rightarrow> int" where
  "lb_rule opts prev nsp u ahead =
     (if prev = LB_SOT \<or> prev = LB_CR \<and> u = LB_LF then LB_NONE
      else if lb_hard prev then LB_MANDATORY
      else if lb_hard u \<or> u = LB_SP \<or> u = LB_ZW then LB_NONE
      else if nsp = LB_ZW then LB_ALLOWED
      else if u = LB_CM then LB_NONE
      else if lb_glued opts prev nsp u then LB_NONE
      else if prev = LB_SP then LB_ALLOWED
      else if u = LB_QU \<or> prev = LB_QU then LB_NONE
      else if u = LB_CB \<or> prev = LB_CB then LB_ALLOWED
      else if lb_kept opts prev u ahead then LB_NONE
      else LB_ALLOWED)"

text \<open>
  A combining mark with nothing to combine with counts as a letter (LB10).  Inside a number, and
  after its closing bracket, what belongs to it is not split off.
\<close>

definition lb_class_of :: "u8 \<Rightarrow> u8 \<Rightarrow> u8" where
  "lb_class_of prev u =
     (if u = LB_CM \<and> (prev = LB_SOT \<or> lb_hard prev \<or> prev = LB_SP \<or> prev = LB_ZW) then LB_AL else u)"

definition num_ahead :: "u8 list \<Rightarrow> bool" where
  "num_ahead cs = (case dropWhile (\<lambda>k. k = LB_CM) cs of [] \<Rightarrow> False | k # _ \<Rightarrow> k = LB_NU)"

datatype lb_number = Outside | Inside | Closed

primrec lb_flags :: "u32 \<Rightarrow> lb_number \<Rightarrow> u8 \<Rightarrow> u8 \<Rightarrow> u8 list \<Rightarrow> int list" where
  "lb_flags opts m prev nsp [] = []"
| "lb_flags opts m prev nsp (u # cs) =
     (if m = Inside \<and> u \<in> {LB_NU, LB_SY, LB_IS} then LB_NONE # lb_flags opts Inside u u cs
      else if m \<noteq> Outside \<and> u = LB_CM then LB_NONE # lb_flags opts m prev nsp cs
      else if m = Inside \<and> u \<in> {LB_CL, LB_CP} then LB_NONE # lb_flags opts Closed u u cs
      else if m \<noteq> Outside \<and> u \<in> {LB_PR, LB_PO} then LB_NONE # lb_flags opts Outside u u cs
      else let v = lb_class_of prev u
           in lb_rule opts prev nsp v (num_ahead cs) #
              lb_flags opts (if u = LB_NU then Inside else Outside)
                (if v = LB_CM then prev else v) (if v = LB_CM \<or> v = LB_SP then nsp else v) cs)"

definition lb_text :: "u32 \<Rightarrow> u8 list \<Rightarrow> int list" where
  "lb_text opts cs = lb_flags opts Outside LB_SOT LB_SOT cs"

lemma length_lb_flags [simp, len_simps]: "length (lb_flags opts m prev nsp cs) = length cs"
  by (induction cs arbitrary: m prev nsp) (auto simp: Let_def)

section \<open>One character\<close>

lemma lb_jamo_other: "k \<notin> {LB_JL, LB_JV, LB_JT, LB_H2, LB_H3} \<Longrightarrow> lb_jamo k = []"
  by (simp add: lb_jamo_def)

lemma lb_jamo_iff: "lb_jamo k \<noteq> [] \<longleftrightarrow> k \<in> {LB_JL, LB_JV, LB_JT, LB_H2, LB_H3}"
  by (auto simp: lb_jamo_def)

lemma lb_jamo_join:
  "lb_jamo a \<noteq> [] \<and> lb_jamo b \<noteq> [] \<and> one_syllable (lb_jamo a @ lb_jamo b) \<longleftrightarrow>
   a = LB_JL \<and> b \<in> {LB_JL, LB_JV, LB_H2, LB_H3} \<or> (a = LB_JV \<or> a = LB_H2) \<and> (b = LB_JV \<or> b = LB_JT) \<or>
   (a = LB_JT \<or> a = LB_H3) \<and> b = LB_JT"
proof (cases "a \<in> {LB_JL, LB_JV, LB_JT, LB_H2, LB_H3} \<and> b \<in> {LB_JL, LB_JV, LB_JT, LB_H2, LB_H3}")
  case True
  then show ?thesis by (elim conjE insertE emptyE) (simp_all add: lb_jamo_def)
next
  case False
  then show ?thesis using lb_jamo_other[of a] lb_jamo_other[of b] by auto
qed

lemma if_or: "(if a then x else if b then x else y) = (if a \<or> b then x else y)"
  by simp

lemma lb26_rule:
  assumes "u \<notin> {LB_BA, LB_HY, LB_NS}" "prev \<noteq> LB_BB" "\<not> (u = LB_IN \<and> prev \<in> {LB_AL, LB_ID, LB_IN, LB_NU})"
    "\<not> (prev = LB_ID \<and> u = LB_PO)" "\<not> (prev = LB_AL \<and> u = LB_NU)" "\<not> (prev = LB_NU \<and> u = LB_AL)"
    "\<not> (prev = LB_PR \<and> u = LB_ID)" "\<not> ((prev = LB_PR \<or> prev = LB_PO) \<and> u = LB_AL)"
    "\<not> (LB_OPT_PRBREAK opts \<and> u = LB_PR \<and> prev \<in> {LB_PR, LB_AL, LB_ID})"
    "\<not> ((prev = LB_PR \<or> prev = LB_PO) \<and> (u = LB_NU \<or> u = LB_OP \<and> ahead))"
  shows "next_def_lb26 f prev u i = RESULT f (if lb_kept opts prev u ahead then LB_NONE else LB_ALLOWED) i"
proof -
  have if_kept: "(if c then RESULT f LB_NONE i else RESULT f LB_ALLOWED i) =
      RESULT f (if lb_kept opts prev u ahead then LB_NONE else LB_ALLOWED) i"
    if "c \<longleftrightarrow> lb_kept opts prev u ahead" for c using that by simp
  show ?thesis
    unfolding next_def_lb26_def if_or
    using assms by (intro if_kept, unfold lb_kept_def lb_jamo_join, unfold lb_jamo_iff insert_iff empty_iff, satx)
qed

text \<open>Going through a chain of branches.\<close>

lemma if_elim: "(c \<Longrightarrow> x = z) \<Longrightarrow> (\<not> c \<Longrightarrow> y = z) \<Longrightarrow> (if c then x else y) = z"
  by simp

lemma result_if:
  "b \<Longrightarrow> RESULT f x i = RESULT f (if b then x else y) i"
  "\<not> b \<Longrightarrow> RESULT f y i = RESULT f z i \<Longrightarrow> RESULT f y i = RESULT f (if b then x else z) i"
  by simp_all

lemma lb21_rule:
  assumes "\<not> ((prev = LB_PR \<or> prev = LB_PO) \<and> u = LB_OP \<and> (\<not> nolb25 \<or> ahead))" "nolb25 \<longrightarrow> u \<noteq> LB_NU"
  shows "next_def_lb21 f nolb25 prev nsp u i = RESULT f (if lb_kept (lb_opts i) prev u ahead then LB_NONE else LB_ALLOWED) i"
proof -
  note sets = insert_iff empty_iff
  show ?thesis
    unfolding next_def_lb21_def if_or
  proof (rule if_elim, goal_cases)
    case 1
    with assms show ?case
      by (intro result_if(1), unfold lb_kept_def lb_jamo_join, unfold sets, satx)
  next
    case 2
    show ?case
    proof (rule if_elim, goal_cases)
      case 1
      with 2 assms have False by (unfold sets, satx)
      then show ?case ..
    next
      case 3: 2
      show ?case
        by (rule lb26_rule; insert 2 3 assms, unfold sets, satx)
    qed
  qed
qed

lemma lb11_rule:
  assumes "\<not> ((prev = LB_PR \<or> prev = LB_PO) \<and> u = LB_OP \<and> (\<not> nolb25 \<or> ahead))" "nolb25 \<longrightarrow> u \<noteq> LB_NU"
  shows "next_def_lb11 f nolb25 prev nsp u i = RESULT f
    (if lb_glued (lb_opts i) prev nsp u then LB_NONE
     else if prev = LB_SP then LB_ALLOWED
     else if u = LB_QU \<or> prev = LB_QU then LB_NONE
     else if u = LB_CB \<or> prev = LB_CB then LB_ALLOWED
     else if lb_kept (lb_opts i) prev u ahead then LB_NONE
     else LB_ALLOWED) i"
proof -
  note sets = insert_iff empty_iff
  show ?thesis
    unfolding next_def_lb11_def if_or lb21_rule[OF assms]
  proof (rule if_elim, goal_cases)
    case 1
    then show ?case by (intro result_if(1), unfold lb_glued_def sets, satx)
  next
    case a: 2
    show ?case
    proof (rule if_elim, goal_cases)
      case 1
      then have "\<not> lb_glued (lb_opts i) prev nsp u" by (auto simp: lb_glued_def)
      with 1 show ?case by simp
    next
      case b: 2
      show ?case
      proof (rule if_elim, goal_cases)
        case 1
        with a b show ?case by (intro result_if(1), unfold lb_glued_def sets, satx)
      next
        case c: 2
        from a b c have "\<not> lb_glued (lb_opts i) prev nsp u" by (unfold lb_glued_def sets, satx)
        then show ?case by simp
      qed
    qed
  qed
qed

definition lb_after :: "u8 \<Rightarrow> 's unicode_lb_info \<Rightarrow> 's unicode_lb_info" where
  "lb_after u i =
     (let prev = lb_prevclass i; nsp = lb_prevclass_nsp i; v = lb_class_of prev u
      in i\<lparr>lb_prevclass := if v = LB_CM then prev else v,
           lb_prevclass_nsp := if v = LB_CM \<or> v = LB_SP then nsp else v,
           lb_next_handler := if u = LB_NU then Next_lb25_seennu else lb_next_handler i\<rparr>)"

lemma next_def_rule:
  assumes nsp: "lb_prevclass i \<noteq> LB_SP \<longrightarrow> lb_prevclass_nsp i = lb_prevclass i"
    and hold: "\<not> ((lb_prevclass i = LB_PR \<or> lb_prevclass i = LB_PO) \<and> u = LB_OP \<and> (\<not> nolb25 \<or> ahead))"
    and nu: "nolb25 \<longrightarrow> u \<noteq> LB_NU"
  shows "next_def_nolb25 f u nolb25 i =
    RESULT f (lb_rule (lb_opts i) (lb_prevclass i) (lb_prevclass_nsp i) (lb_class_of (lb_prevclass i) u) ahead) (lb_after u i)"
proof -
  let ?p = "lb_prevclass i" and ?n = "lb_prevclass_nsp i"
  consider (sot) "?p = LB_SOT" | (hard) "lb_hard ?p" | (spcm) "?p = LB_SP \<or> ?p = LB_ZW" "u = LB_CM"
    | (cm) "\<not> (?p = LB_SOT \<or> lb_hard ?p \<or> ?p = LB_SP \<or> ?p = LB_ZW)" "u = LB_CM"
    | (other) "?p \<noteq> LB_SOT" "\<not> lb_hard ?p" "u \<noteq> LB_CM" by blast
  then show ?thesis
  proof cases
    case sot
    then show ?thesis
      by (auto simp: next_def_nolb25_def lb_rule_def lb_after_def lb_class_of_def set_prev_def Let_def)
  next
    case hard
    then show ?thesis
      by (auto simp: next_def_nolb25_def lb_rule_def lb_after_def lb_class_of_def lb_hard_def set_prev_def Let_def)
  next
    case spcm
    have lb11: "next_def_lb11 f nolb25 ?p ?n LB_AL j = RESULT f
        (if lb_glued (lb_opts j) ?p ?n LB_AL then LB_NONE
         else if ?p = LB_SP then LB_ALLOWED
         else if LB_AL = LB_QU \<or> ?p = LB_QU then LB_NONE
         else if LB_AL = LB_CB \<or> ?p = LB_CB then LB_ALLOWED
         else if lb_kept (lb_opts j) ?p LB_AL ahead then LB_NONE
         else LB_ALLOWED) j" for j :: "'a unicode_lb_info"
      by (rule lb11_rule) simp_all
    from spcm show ?thesis
      by (auto simp: next_def_nolb25_def lb_rule_def lb_after_def lb_class_of_def lb_hard_def set_prev_def Let_def lb11)
  next
    case cm
    with nsp show ?thesis
      by (auto simp: next_def_nolb25_def lb_rule_def lb_after_def lb_class_of_def lb_hard_def Let_def)
  next
    case other
    note lb11 = lb11_rule[OF hold nu, of f]
    have "next_def_nolb25 f u nolb25 i =
        (let j = lb_after u i
         in if u \<in> {LB_BK, LB_CR, LB_LF, LB_NL, LB_SP, LB_ZW} then RESULT f LB_NONE j
            else if ?n = LB_ZW then RESULT f LB_ALLOWED j
            else next_def_lb11 f nolb25 ?p ?n u j)"
      using other
      by (simp add: next_def_nolb25_def lb_after_def lb_class_of_def lb_hard_def Let_def cong: if_cong)
    moreover have "lb_opts (lb_after u i) = lb_opts i" by (simp add: lb_after_def Let_def)
    ultimately show ?thesis
      using other by (simp add: lb11 lb_rule_def lb_class_of_def lb_hard_def Let_def)
  qed
qed

section \<open>The machine follows the rules\<close>

definition lb_future :: "'s unicode_lb_info \<Rightarrow> u8 list \<Rightarrow> int list" where
  "lb_future i cs =
     (let flags = (\<lambda>m. lb_flags (lb_opts i) m (lb_prevclass i) (lb_prevclass_nsp i) cs)
      in case lb_next_handler i of
           Next_def \<Rightarrow> flags Outside
         | Next_lb25_seennu \<Rightarrow> flags Inside
         | Next_lb25_seennuclcp \<Rightarrow> flags Closed
         | Next_lb25_seenophy \<Rightarrow>
             lb_rule (lb_opts i) (lb_prevclass i) (lb_prevclass_nsp i) LB_OP (num_ahead cs) #
             replicate (lb_savedcmcnt i) LB_NONE @ lb_flags (lb_opts i) Outside LB_OP LB_OP cs)"

text \<open>Only an opening bracket after a currency sign or a unit is ever held back.\<close>

definition lb_valid :: "'s unicode_lb_info \<Rightarrow> bool" where
  "lb_valid i \<longleftrightarrow> (lb_prevclass i \<noteq> LB_SP \<longrightarrow> lb_prevclass_nsp i = lb_prevclass i) \<and>
     (if lb_next_handler i = Next_lb25_seenophy
      then lb_end_handler i = End_lb25_seenophy \<and> lb_prevclass i \<in> {LB_PR, LB_PO} \<and> lb_savedclass i = LB_OP
      else lb_end_handler i = End_def)"

abbreviation lb_owes :: "'s lb_callback \<Rightarrow> 's \<Rightarrow> (u8 list \<Rightarrow> int list) \<Rightarrow> int \<times> 's unicode_lb_info \<Rightarrow> bool" where
  "lb_owes \<equiv> owes lb_valid lb_future lb_cb_arg"

lemma lb_cb_arg_irrelevant [simp]:
  "lb_valid (i\<lparr>lb_cb_arg := s\<rparr>) = lb_valid i"
  "lb_future (i\<lparr>lb_cb_arg := s\<rparr>) = lb_future i"
  by (simp_all add: lb_valid_def lb_future_def fun_eq_iff split: lb_next_handler.split)

lemma RESULT_feed: "RESULT f x i = (case feed f [x] (lb_cb_arg i) of (rc, s) \<Rightarrow> (rc, i\<lparr>lb_cb_arg := s\<rparr>))"
  by (simp add: RESULT_def feed_single del: feed.simps)

lemma owes_RESULT:
  assumes "lb_valid j" "\<And>cs. F cs = x # lb_future j cs"
  shows "lb_owes f (lb_cb_arg j) F (RESULT f x j)"
proof (cases "feed f [x] (lb_cb_arg j)")
  case (Pair rc s)
  then have r: "RESULT f x j = (rc, j\<lparr>lb_cb_arg := s\<rparr>)" by (simp add: RESULT_feed)
  show ?thesis
    unfolding r
  proof (cases "rc = 0")
    case True
    with Pair assms show "lb_owes f (lb_cb_arg j) F (rc, j\<lparr>lb_cb_arg := s\<rparr>)"
      by (auto intro!: owes_0[where out = "[x]"] simp del: feed.simps)
  next
    case False
    with Pair show "lb_owes f (lb_cb_arg j) F (rc, j\<lparr>lb_cb_arg := s\<rparr>)"
      by (intro owes_error[where out = "[x]"]) (simp_all add: assms(2) del: feed.simps)
  qed
qed

lemma lb_rule_ahead:
  "\<not> ((prev = LB_PR \<or> prev = LB_PO) \<and> u = LB_OP) \<Longrightarrow> lb_rule opts prev nsp u a = lb_rule opts prev nsp u False"
proof -
  assume "\<not> ((prev = LB_PR \<or> prev = LB_PO) \<and> u = LB_OP)"
  then have "lb_kept opts prev u a \<longleftrightarrow> lb_kept opts prev u False"
    by (unfold lb_kept_def insert_iff empty_iff, satx)
  then show ?thesis by (simp add: lb_rule_def)
qed

lemma lb_rule_OP [simp]:
  "prev = LB_PR \<or> prev = LB_PO \<Longrightarrow> lb_rule opts prev prev LB_OP a = (if a then LB_NONE else LB_ALLOWED)"
  "lb_rule opts LB_OP LB_OP LB_OP a = LB_NONE" "lb_rule opts LB_OP LB_OP LB_CM a = LB_NONE"
  "lb_rule opts LB_OP LB_OP LB_NU a = LB_NONE"
  by (auto simp: lb_rule_def lb_hard_def lb_glued_def lb_kept_def lb_jamo_def)

lemma next_def_owes:
  assumes i: "lb_valid i" "lb_next_handler i = Next_def"
  shows "lb_owes f (lb_cb_arg i)
    (\<lambda>cs. lb_flags (lb_opts i) Outside (lb_prevclass i) (lb_prevclass_nsp i) (u # cs)) (next_def f u i)"
proof (cases "(lb_prevclass i = LB_PR \<or> lb_prevclass i = LB_PO) \<and> u = LB_OP")
  case True
  with i have nsp: "lb_prevclass_nsp i = lb_prevclass i" by (auto simp: lb_valid_def)
  have hold: "next_def f u i = (0, i\<lparr>lb_prevclass := lb_prevclass i, lb_prevclass_nsp := lb_prevclass i,
      lb_savedclass := LB_OP, lb_savedcmcnt := 0,
      lb_next_handler := Next_lb25_seenophy, lb_end_handler := End_lb25_seenophy\<rparr>)"
    using True nsp by (auto simp: next_def_def next_def_nolb25_def next_def_lb11_def next_def_lb21_def Let_def)
  show ?thesis
    unfolding hold using True nsp
    by (intro owes_now) (auto simp: lb_valid_def lb_future_def lb_class_of_def)
next
  case False
  let ?b = "lb_rule (lb_opts i) (lb_prevclass i) (lb_prevclass_nsp i) (lb_class_of (lb_prevclass i) u) False"
  have r: "next_def f u i = RESULT f ?b (lb_after u i)"
    unfolding next_def_def using i False by (intro next_def_rule) (auto simp: lb_valid_def)
  have b: "lb_rule (lb_opts i) (lb_prevclass i) (lb_prevclass_nsp i) (lb_class_of (lb_prevclass i) u) a = ?b" for a
    using False by (intro lb_rule_ahead) (auto simp: lb_class_of_def split: if_splits)
  have arg: "lb_cb_arg i = lb_cb_arg (lb_after u i)" by (simp add: lb_after_def Let_def)
  show ?thesis
    unfolding r arg
  proof (rule owes_RESULT)
    show "lb_valid (lb_after u i)" using i by (auto simp: lb_valid_def lb_after_def Let_def)
    show "lb_flags (lb_opts i) Outside (lb_prevclass i) (lb_prevclass_nsp i) (u # cs) = ?b # lb_future (lb_after u i) cs" for cs
      using i(2) by (simp add: lb_future_def lb_after_def b[of "num_ahead cs"] Let_def)
  qed
qed

lemma set_prev_simps [simp]:
  "lb_prevclass (set_prev u i) = u" "lb_prevclass_nsp (set_prev u i) = u" "lb_opts (set_prev u i) = lb_opts i"
  "lb_next_handler (set_prev u i) = lb_next_handler i" "lb_end_handler (set_prev u i) = lb_end_handler i"
  "lb_cb_arg (set_prev u i) = lb_cb_arg i"
  by (simp_all add: set_prev_def)

lemma number_owes:
  assumes i: "lb_valid i" and h: "lb_next_handler i = Next_lb25_seennu \<and> m = Inside \<or>
      lb_next_handler i = Next_lb25_seennuclcp \<and> m = Closed"
    and j: "j = i\<lparr>lb_next_handler := Next_def, lb_end_handler := End_def\<rparr>"
  shows "u \<in> {LB_PR, LB_PO} \<Longrightarrow> lb_owes f (lb_cb_arg i) (\<lambda>cs. lb_future i (u # cs)) (RESULT f LB_NONE (set_prev u j))"
    and "u \<notin> {LB_PR, LB_PO, LB_CM} \<Longrightarrow> m = Closed \<or> u \<notin> {LB_NU, LB_SY, LB_IS, LB_CL, LB_CP} \<Longrightarrow>
      lb_owes f (lb_cb_arg i) (\<lambda>cs. lb_future i (u # cs)) (next_def f u j)"
proof -
  have arg: "lb_cb_arg i = lb_cb_arg (set_prev u j)" "lb_cb_arg i = lb_cb_arg j" by (simp_all add: j)
  have future: "lb_future i cs = lb_flags (lb_opts i) m (lb_prevclass i) (lb_prevclass_nsp i) cs" for cs
    using h by (auto simp: lb_future_def)
  have "lb_valid j" using i h by (auto simp: lb_valid_def j)
  show "lb_owes f (lb_cb_arg i) (\<lambda>cs. lb_future i (u # cs)) (RESULT f LB_NONE (set_prev u j))"
    if "u \<in> {LB_PR, LB_PO}"
    unfolding arg(1) using that h
    by (intro owes_RESULT) (auto simp: lb_valid_def future lb_future_def j)
  assume u: "u \<notin> {LB_PR, LB_PO, LB_CM}" "m = Closed \<or> u \<notin> {LB_NU, LB_SY, LB_IS, LB_CL, LB_CP}"
  then have "lb_future i (u # cs) = lb_flags (lb_opts j) Outside (lb_prevclass j) (lb_prevclass_nsp j) (u # cs)" for cs
    using h by (auto simp: future j)
  with next_def_owes[OF \<open>lb_valid j\<close>, of f u] show "lb_owes f (lb_cb_arg i) (\<lambda>cs. lb_future i (u # cs)) (next_def f u j)"
    by (simp add: j)
qed

lemma seennu_owes:
  assumes i: "lb_valid i" "lb_next_handler i = Next_lb25_seennu"
  shows "lb_owes f (lb_cb_arg i) (\<lambda>cs. lb_future i (u # cs)) (next_lb25_seennu f u i)"
proof -
  note num = number_owes[OF i(1) disjI1 refl, of Inside u f]
  consider (more) "u \<in> {LB_NU, LB_SY, LB_IS}" | (cm) "u = LB_CM" | (close) "u \<in> {LB_CL, LB_CP}"
    | (unit) "u \<in> {LB_PR, LB_PO}" | (other) "u \<notin> {LB_NU, LB_SY, LB_IS, LB_CL, LB_CP, LB_PR, LB_PO, LB_CM}"
    by blast
  then show ?thesis
  proof cases
    case more
    then have r: "next_lb25_seennu f u i = RESULT f LB_NONE (set_prev u i)" by (auto simp: next_lb25_seennu_def)
    have "lb_owes f (lb_cb_arg (set_prev u i)) (\<lambda>cs. lb_future i (u # cs)) (next_lb25_seennu f u i)"
      unfolding r using more i by (intro owes_RESULT) (auto simp: lb_valid_def lb_future_def)
    then show ?thesis by simp
  next
    case cm
    then have r: "next_lb25_seennu f u i = RESULT f LB_NONE i" by (simp add: next_lb25_seennu_def)
    show ?thesis unfolding r using cm i by (intro owes_RESULT) (auto simp: lb_valid_def lb_future_def)
  next
    case close
    let ?j = "(set_prev u i)\<lparr>lb_next_handler := Next_lb25_seennuclcp, lb_end_handler := End_def\<rparr>"
    have r: "next_lb25_seennu f u i = RESULT f LB_NONE ?j" using close by (auto simp: next_lb25_seennu_def)
    have "lb_owes f (lb_cb_arg ?j) (\<lambda>cs. lb_future i (u # cs)) (next_lb25_seennu f u i)"
      unfolding r using close i by (intro owes_RESULT) (auto simp: lb_valid_def lb_future_def)
    then show ?thesis by simp
  next
    case unit
    then show ?thesis using num(1) i by (auto simp: next_lb25_seennu_def Let_def)
  next
    case other
    then show ?thesis using num(2) i by (simp add: next_lb25_seennu_def Let_def)
  qed
qed

lemma seennuclcp_owes:
  assumes i: "lb_valid i" "lb_next_handler i = Next_lb25_seennuclcp"
  shows "lb_owes f (lb_cb_arg i) (\<lambda>cs. lb_future i (u # cs)) (next_lb25_seennuclcp f u i)"
proof -
  note num = number_owes[OF i(1) disjI2 refl, of Closed u f]
  consider (cm) "u = LB_CM" | (unit) "u \<in> {LB_PR, LB_PO}" | (other) "u \<notin> {LB_PR, LB_PO, LB_CM}"
    by blast
  then show ?thesis
  proof cases
    case cm
    then have r: "next_lb25_seennuclcp f u i = RESULT f LB_NONE i" by (simp add: next_lb25_seennuclcp_def)
    show ?thesis unfolding r using cm i by (intro owes_RESULT) (auto simp: lb_valid_def lb_future_def)
  next
    case unit
    then show ?thesis using num(1) i by (auto simp: next_lb25_seennuclcp_def Let_def)
  next
    case other
    then show ?thesis using num(2) i by (simp add: next_lb25_seennuclcp_def Let_def)
  qed
qed

section \<open>Unwinding\<close>

text \<open>Feeding \<open>out\<close> takes the state to \<open>j\<close>, up to its counter.\<close>

definition lb_feeds :: "'s lb_callback \<Rightarrow> int list \<Rightarrow> 's unicode_lb_info \<Rightarrow> int \<times> 's unicode_lb_info \<Rightarrow> bool" where
  "lb_feeds f out j r \<longleftrightarrow> (case feed f out (lb_cb_arg j) of (rc, s) \<Rightarrow> fst r = rc \<and> lb_cb_arg (snd r) = s \<and>
     (rc = 0 \<longrightarrow> (\<exists>n. snd r = j\<lparr>lb_cb_arg := s, lb_savedcmcnt := n\<rparr>)))"

lemma lb_feeds_bind:
  assumes "\<And>s. feed f [x] (lb_cb_arg j) = (0, s) \<Longrightarrow> lb_feeds f out (j\<lparr>lb_cb_arg := s\<rparr>) (k (j\<lparr>lb_cb_arg := s\<rparr>))"
  shows "lb_feeds f (x # out) j (rc_then (RESULT f x j) k)"
proof (cases "feed f [x] (lb_cb_arg j)")
  case (Pair rc s)
  then have "f x (lb_cb_arg j) = (rc, s)" by (simp add: feed_single del: feed.simps)
  with assms Pair show ?thesis
    by (cases "rc = 0") (simp_all add: lb_feeds_def RESULT_def)
qed

lemma lb_feeds_cnt:
  "lb_feeds f out (j\<lparr>lb_savedcmcnt := n\<rparr>) r \<longleftrightarrow> lb_feeds f out j r"
  by (simp add: lb_feeds_def)

lemma feedback_feeds: "lb_feeds f (replicate (Suc n) LB_NONE) i (feedback_loop f n i)"
proof (induction n arbitrary: i)
  case 0
  show ?case
    by (subst feedback_loop.simps, simp del: feed.simps, rule lb_feeds_bind) (auto simp: lb_feeds_def)
next
  case (Suc n)
  have loop: "feedback_loop f (Suc n) i = rc_then (RESULT f LB_NONE i) (\<lambda>i. feedback_loop f n (i\<lparr>lb_savedcmcnt := n\<rparr>))"
    by (subst feedback_loop.simps) simp
  show ?case
    unfolding replicate_Suc[of "Suc n"] loop
  proof (rule lb_feeds_bind)
    fix s
    from Suc[of "i\<lparr>lb_cb_arg := s, lb_savedcmcnt := n\<rparr>"]
    show "lb_feeds f (replicate (Suc n) LB_NONE) (i\<lparr>lb_cb_arg := s\<rparr>)
        (feedback_loop f n (i\<lparr>lb_cb_arg := s, lb_savedcmcnt := n\<rparr>))"
      using lb_feeds_cnt[of f _ n "i\<lparr>lb_cb_arg := s\<rparr>"] by simp
  qed
qed

text \<open>Once the held bracket has been reported, repeating it changes nothing.\<close>

lemma lb_after_OP: "lb_after LB_OP i = i\<lparr>lb_prevclass := LB_OP, lb_prevclass_nsp := LB_OP\<rparr>"
  by (cases i) (simp add: lb_after_def lb_class_of_def)

lemma unwind_again:
  "lb_prevclass i = LB_OP \<Longrightarrow> lb_prevclass_nsp i = LB_OP \<Longrightarrow> lb_savedclass i = LB_OP \<Longrightarrow>
   lb_feeds f (replicate (Suc n) LB_NONE) i (unwind_loop f False n i)"
proof (induction n arbitrary: i)
  case (0 i)
  then have "next_def_nolb25 f LB_OP False i = RESULT f LB_NONE i"
    using next_def_rule[of i LB_OP False False f] by (cases i) (simp add: lb_after_OP lb_class_of_def)
  with 0 have loop: "unwind_loop f False 0 i = rc_then (RESULT f LB_NONE i) (\<lambda>i. (0, i\<lparr>lb_savedcmcnt := SIZE_MAX\<rparr>))"
    by (subst unwind_loop.simps) simp
  show ?case
    unfolding loop replicate_Suc by (rule lb_feeds_bind) (auto simp: lb_feeds_def)
next
  case (Suc n i)
  then have "next_def_nolb25 f LB_OP False i = RESULT f LB_NONE i"
    using next_def_rule[of i LB_OP False False f] by (cases i) (simp add: lb_after_OP lb_class_of_def)
  with Suc.prems have loop: "unwind_loop f False (Suc n) i =
      rc_then (RESULT f LB_NONE i) (\<lambda>i. unwind_loop f False n (i\<lparr>lb_savedcmcnt := n\<rparr>))"
    by (subst unwind_loop.simps) simp
  show ?case
    unfolding replicate_Suc[of "Suc n"] loop
  proof (rule lb_feeds_bind)
    fix s
    from Suc.IH[of "i\<lparr>lb_cb_arg := s, lb_savedcmcnt := n\<rparr>"] Suc.prems
    show "lb_feeds f (replicate (Suc n) LB_NONE) (i\<lparr>lb_cb_arg := s\<rparr>)
        (unwind_loop f False n (i\<lparr>lb_cb_arg := s, lb_savedcmcnt := n\<rparr>))"
      using lb_feeds_cnt[of f _ n "i\<lparr>lb_cb_arg := s\<rparr>"] by simp
  qed
qed

lemma unwind_feeds:
  assumes i: "lb_valid i" "lb_next_handler i = Next_lb25_seenophy"
  shows "lb_feeds f (LB_ALLOWED # replicate (lb_savedcmcnt i) LB_NONE)
    (i\<lparr>lb_prevclass := LB_OP, lb_prevclass_nsp := LB_OP, lb_next_handler := Next_def, lb_end_handler := End_def\<rparr>)
    (unwind_lb25_seenophy f i)"
proof -
  let ?n = "lb_savedcmcnt i" and ?i = "i\<lparr>lb_next_handler := Next_def, lb_end_handler := End_def\<rparr>"
  let ?j = "i\<lparr>lb_prevclass := LB_OP, lb_prevclass_nsp := LB_OP, lb_next_handler := Next_def, lb_end_handler := End_def\<rparr>"
  have p: "lb_prevclass i = LB_PR \<or> lb_prevclass i = LB_PO" "lb_prevclass_nsp i = lb_prevclass i" "lb_savedclass i = LB_OP"
    using i by (auto simp: lb_valid_def)
  have "next_def_nolb25 f LB_OP True ?i = RESULT f LB_ALLOWED (lb_after LB_OP ?i)"
    using next_def_rule[of ?i LB_OP True False f] p by (simp add: lb_class_of_def)
  also have "lb_after LB_OP ?i = ?j" by (simp add: lb_after_OP)
  finally have loop: "unwind_lb25_seenophy f i = rc_then (RESULT f LB_ALLOWED ?j)
      (\<lambda>i. if ?n = 0 then (0, i\<lparr>lb_savedcmcnt := SIZE_MAX\<rparr>) else unwind_loop f False (?n - 1) (i\<lparr>lb_savedcmcnt := ?n - 1\<rparr>))"
    unfolding unwind_lb25_seenophy_def using p by (subst unwind_loop.simps) simp
  show ?thesis
    unfolding loop
  proof (rule lb_feeds_bind)
    fix s
    show "lb_feeds f (replicate ?n LB_NONE) (?j\<lparr>lb_cb_arg := s\<rparr>)
        (if ?n = 0 then (0, ?j\<lparr>lb_cb_arg := s, lb_savedcmcnt := SIZE_MAX\<rparr>)
         else unwind_loop f False (?n - 1) (?j\<lparr>lb_cb_arg := s, lb_savedcmcnt := ?n - 1\<rparr>))"
    proof (cases ?n)
      case 0
      then show ?thesis by (auto simp: lb_feeds_def)
    next
      case (Suc m)
      from unwind_again[of "?j\<lparr>lb_cb_arg := s, lb_savedcmcnt := m\<rparr>" f m] p Suc
      show ?thesis using lb_feeds_cnt[of f _ m "?j\<lparr>lb_cb_arg := s\<rparr>"] by simp
    qed
  qed
qed

text \<open>What follows a loop of reports.\<close>

lemma lb_feeds_owes:
  assumes r: "lb_feeds f out j r" and F: "\<And>cs. F cs = out @ G cs"
    and k: "\<And>s n. lb_owes f s G (k (j\<lparr>lb_cb_arg := s, lb_savedcmcnt := n\<rparr>))"
  shows "lb_owes f (lb_cb_arg j) F (rc_then r k)"
proof -
  obtain rc s where fd: "feed f out (lb_cb_arg j) = (rc, s)" by fastforce
  obtain rc' i where ri: "r = (rc', i)" by fastforce
  with r fd have eq: "rc' = rc" "lb_cb_arg i = s" "rc = 0 \<Longrightarrow> \<exists>n. i = j\<lparr>lb_cb_arg := s, lb_savedcmcnt := n\<rparr>"
    by (auto simp: lb_feeds_def)
  show ?thesis
  proof (cases "rc = 0")
    case True
    with eq obtain n where "i = j\<lparr>lb_cb_arg := s, lb_savedcmcnt := n\<rparr>" by blast
    with True ri eq fd show ?thesis by (auto intro!: owes_after[OF k _ F])
  next
    case False
    with ri eq fd show ?thesis by (auto intro!: owes_error simp: F)
  qed
qed

lemma seenophy_owes:
  assumes i: "lb_valid i" "lb_next_handler i = Next_lb25_seenophy"
  shows "lb_owes f (lb_cb_arg i) (\<lambda>cs. lb_future i (u # cs)) (next_lb25_seenophy f u i)"
proof -
  let ?n = "lb_savedcmcnt i"
  have p: "lb_prevclass i = LB_PR \<or> lb_prevclass i = LB_PO" "lb_prevclass_nsp i = lb_prevclass i"
    using i by (auto simp: lb_valid_def)
  have future: "lb_future i cs = (if num_ahead cs then LB_NONE else LB_ALLOWED) #
      replicate ?n LB_NONE @ lb_flags (lb_opts i) Outside LB_OP LB_OP cs" for cs
    using i(2) p by (simp add: lb_future_def)
  consider (cm) "u = LB_CM" | (nu) "u = LB_NU" | (other) "u \<noteq> LB_CM" "u \<noteq> LB_NU" by blast
  then show ?thesis
  proof cases
    case cm
    then have r: "next_lb25_seenophy f u i = (0, i\<lparr>lb_savedcmcnt := ?n + 1\<rparr>)" by (simp add: next_lb25_seenophy_def)
    show ?thesis
      unfolding r using i cm p
      by (intro owes_now)
        (auto simp: future lb_valid_def lb_future_def num_ahead_def lb_class_of_def lb_hard_def replicate_app_Cons_same)
  next
    case nu
    let ?k = "\<lambda>i. RESULT f LB_NONE (set_prev u (i\<lparr>lb_next_handler := Next_lb25_seennu, lb_end_handler := End_def\<rparr>))"
    have r: "next_lb25_seenophy f u i = rc_then (feedback_loop f ?n i) ?k"
      using nu by (simp add: next_lb25_seenophy_def)
    show ?thesis
      unfolding r
    proof (rule lb_feeds_owes[OF feedback_feeds])
      show "lb_future i (u # cs) = replicate (Suc ?n) LB_NONE @ LB_NONE # lb_flags (lb_opts i) Inside LB_NU LB_NU cs" for cs
        using nu by (simp add: future num_ahead_def lb_class_of_def)
      show "lb_owes f s (\<lambda>cs. LB_NONE # lb_flags (lb_opts i) Inside LB_NU LB_NU cs)
          (?k (i\<lparr>lb_cb_arg := s, lb_savedcmcnt := n\<rparr>))" for s n
        using owes_RESULT[of "set_prev u (i\<lparr>lb_cb_arg := s, lb_savedcmcnt := n, lb_next_handler := Next_lb25_seennu,
            lb_end_handler := End_def\<rparr>)" "\<lambda>cs. LB_NONE # lb_flags (lb_opts i) Inside LB_NU LB_NU cs" LB_NONE f] nu
        by (simp add: lb_valid_def lb_future_def)
    qed
  next
    case other
    let ?j = "i\<lparr>lb_prevclass := LB_OP, lb_prevclass_nsp := LB_OP, lb_next_handler := Next_def, lb_end_handler := End_def\<rparr>"
    have r: "next_lb25_seenophy f u i = rc_then (unwind_lb25_seenophy f i) (next_def_nolb25 f u False)"
      using other by (simp add: next_lb25_seenophy_def)
    have "lb_owes f (lb_cb_arg ?j) (\<lambda>cs. lb_future i (u # cs)) (next_lb25_seenophy f u i)"
      unfolding r
    proof (rule lb_feeds_owes[OF unwind_feeds[OF i]])
      show "lb_future i (u # cs) = (LB_ALLOWED # replicate ?n LB_NONE) @ lb_flags (lb_opts i) Outside LB_OP LB_OP (u # cs)" for cs
        using other by (simp add: future num_ahead_def)
      show "lb_owes f s (\<lambda>cs. lb_flags (lb_opts i) Outside LB_OP LB_OP (u # cs))
          (next_def_nolb25 f u False (?j\<lparr>lb_cb_arg := s, lb_savedcmcnt := n\<rparr>))" for s n
        using next_def_owes[of "?j\<lparr>lb_cb_arg := s, lb_savedcmcnt := n\<rparr>" f u]
        by (simp add: lb_valid_def next_def_def)
    qed
    then show ?thesis by simp
  qed
qed

lemma unicode_lb_next_owes:
  assumes "lb_valid i"
  shows "lb_owes f (lb_cb_arg i) (\<lambda>cs. lb_future i (unicode_lb_lookup t c # cs)) (unicode_lb_next t f c i)"
proof (cases "lb_next_handler i")
  case Next_def
  with next_def_owes[OF assms] show ?thesis by (simp add: unicode_lb_next_def lb_future_def)
next
  case Next_lb25_seenophy
  with seenophy_owes[OF assms] show ?thesis by (simp add: unicode_lb_next_def)
next
  case Next_lb25_seennu
  with seennu_owes[OF assms] show ?thesis by (simp add: unicode_lb_next_def)
next
  case Next_lb25_seennuclcp
  with seennuclcp_owes[OF assms] show ?thesis by (simp add: unicode_lb_next_def)
qed

lemma unicode_lb_end_feed:
  assumes "lb_valid i"
  shows "unicode_lb_end f i = feed f (lb_future i []) (lb_cb_arg i)"
proof (cases "lb_next_handler i = Next_lb25_seenophy")
  case True
  with assms have p: "lb_prevclass i = LB_PR \<or> lb_prevclass i = LB_PO" "lb_prevclass_nsp i = lb_prevclass i"
    "lb_end_handler i = End_lb25_seenophy" by (auto simp: lb_valid_def)
  obtain rc j where r: "unwind_lb25_seenophy f i = (rc, j)" by fastforce
  have "lb_future i [] = LB_ALLOWED # replicate (lb_savedcmcnt i) LB_NONE"
    using True p by (simp add: lb_future_def num_ahead_def)
  with unwind_feeds[OF assms True, of f] r have "feed f (lb_future i []) (lb_cb_arg i) = (rc, lb_cb_arg j)"
    by (auto simp: lb_feeds_def split: prod.splits simp del: feed.simps)
  with p r show ?thesis
    by (cases "rc = 0") (simp_all add: unicode_lb_end_def end_lb25_seenophy_def end_def_def)
next
  case False
  with assms show ?thesis
    by (cases "lb_next_handler i") (simp_all add: unicode_lb_end_def lb_valid_def lb_future_def end_def_def)
qed

interpretation lb: reporter lb_valid lb_future lb_cb_arg f "unicode_lb_lookup t" "unicode_lb_next t f"
    "unicode_lb_next_cnt t f" "unicode_lb_end f" for t f
  by unfold_locales (simp_all add: unicode_lb_next_owes unicode_lb_end_feed)

definition lb_start :: "u32 \<Rightarrow> 's \<Rightarrow> 's unicode_lb_info" where
  "lb_start opts s = unicode_lb_set_opts opts (unicode_lb_init s)"

lemma lb_start_facts [simp]:
  "lb_valid (lb_start opts s)" "lb_future (lb_start opts s) cs = lb_text opts cs" "lb_cb_arg (lb_start opts s) = s"
  by (simp_all add: lb_start_def unicode_lb_set_opts_def unicode_lb_init_def unicode_lb_reset_def lb_valid_def
      lb_future_def lb_text_def)

text \<open>
  C33: A text given to the line breaking machine, under any options, and then its end reports for each
  character, once and in order, what the rules say of a break before it; a code other than 0 from
  the callback ends the reports and is returned.
\<close>

theorem linebreak_refines_rules:
  "rc_bind (unicode_lb_next_cnt t f cs (unicode_lb_set_opts opts (unicode_lb_init s))) (unicode_lb_end f) lb_cb_arg =
   feed f (lb_text opts (map (unicode_lb_lookup t) cs)) s"
  using lb.text_reports[of "lb_start opts s" t f cs] by (simp flip: lb_start_def)

section \<open>Mandatory breaks\<close>

lemma lb_rule_mandatory:
  "lb_rule opts prev nsp u a = LB_MANDATORY \<longleftrightarrow> prev \<noteq> LB_SOT \<and> lb_hard prev \<and> \<not> (prev = LB_CR \<and> u = LB_LF)"
  by (simp add: lb_rule_def)

definition hard_pair :: "u8 \<Rightarrow> u8 \<Rightarrow> bool" where
  "hard_pair p c \<longleftrightarrow> lb_hard p \<and> \<not> (p = LB_CR \<and> c = LB_LF)"

lemma class_of_CM: "lb_class_of prev u = LB_CM \<Longrightarrow> \<not> lb_hard prev"
  unfolding lb_class_of_def by (cases "lb_hard prev"; cases "u = LB_CM"; simp)

lemma lb_flags_mandatory:
  "prev \<noteq> LB_SOT \<Longrightarrow> lb_hard q \<or> lb_hard prev \<longrightarrow> prev = q \<Longrightarrow> m \<noteq> Outside \<longrightarrow> \<not> lb_hard prev \<Longrightarrow>
   LB_SOT \<notin> set cs \<Longrightarrow>
   map (\<lambda>b. b = LB_MANDATORY) (lb_flags opts m prev nsp cs) = map2 hard_pair (q # cs) cs"
proof (induction cs arbitrary: m prev nsp q)
  case Nil
  then show ?case by simp
next
  case (Cons u cs)
  have u: "u \<noteq> LB_SOT" "LB_SOT \<notin> set cs" using Cons.prems by auto
  let ?plain = "m = Outside \<or> \<not> (m = Inside \<and> u \<in> {LB_NU, LB_SY, LB_IS} \<or> u = LB_CM \<or>
      m = Inside \<and> u \<in> {LB_CL, LB_CP} \<or> u \<in> {LB_PR, LB_PO})"
  show ?case
  proof (cases ?plain)
    case False
    then have m: "m \<noteq> Outside" and "u \<in> {LB_NU, LB_SY, LB_IS, LB_CM, LB_CL, LB_CP, LB_PR, LB_PO}" by blast+
    then have hu: "\<not> lb_hard u" by (auto simp: lb_hard_def)
    have hp: "\<not> lb_hard prev" using Cons.prems(3) m by blast
    then have hq: "\<not> hard_pair q u" using Cons.prems(2) by (auto simp: hard_pair_def)
    note q = hq hu hp
    obtain m' p' n' where fl: "lb_flags opts m prev nsp (u # cs) = LB_NONE # lb_flags opts m' p' n' cs"
      and p': "p' = u \<or> p' = prev"
      using False by (auto split: if_splits)
    have "map (\<lambda>b. b = LB_MANDATORY) (lb_flags opts m' p' n' cs) = map2 hard_pair (u # cs) cs"
      by (rule Cons.IH) (use p' q u Cons.prems(1) in auto)
    with fl q(1) show ?thesis by simp
  next
    case True
    define v where "v = lb_class_of prev u"
    define p' where "p' = (if v = LB_CM then prev else v)"
    have fl: "lb_flags opts m prev nsp (u # cs) = lb_rule opts prev nsp v (num_ahead cs) #
        lb_flags opts (if u = LB_NU then Inside else Outside) p' (if v = LB_CM \<or> v = LB_SP then nsp else v) cs"
      using True by (auto simp: v_def p'_def Let_def)
    have soft: "\<not> lb_hard LB_CM" "\<not> lb_hard LB_AL" "\<not> lb_hard LB_NU" by (simp_all add: lb_hard_def)
    have v: "v = u \<or> u = LB_CM \<and> v = LB_AL" by (simp add: v_def lb_class_of_def)
    have vcm: "\<not> lb_hard prev" if "v = LB_CM" using that unfolding v_def by (rule class_of_CM)
    have p'1: "p' \<noteq> LB_SOT" using v u(1) Cons.prems(1) by (auto simp: p'_def)
    have p'2: "lb_hard u \<or> lb_hard p' \<longrightarrow> p' = u"
      using v vcm soft by (cases "v = LB_CM") (auto simp: p'_def)
    have p'3: "u = LB_NU \<longrightarrow> \<not> lb_hard p'" using v soft by (auto simp: p'_def)
    have lf: "v = LB_LF \<longleftrightarrow> u = LB_LF" using v by auto
    have head: "lb_rule opts prev nsp v a = LB_MANDATORY \<longleftrightarrow> hard_pair q u" for a
      using Cons.prems(1,2) unfolding lb_rule_mandatory hard_pair_def lf by blast
    have "map (\<lambda>b. b = LB_MANDATORY) (lb_flags opts (if u = LB_NU then Inside else Outside) p'
        (if v = LB_CM \<or> v = LB_SP then nsp else v) cs) = map2 hard_pair (u # cs) cs"
      by (rule Cons.IH[OF p'1 p'2 _ u(2)]) (simp add: p'3)
    with fl head show ?thesis by simp
  qed
qed

text \<open>A callback that writes the reports down.\<close>

definition lb_record :: "int list lb_callback" where
  "lb_record x s = (0, s @ [x])"

interpretation lb_record: event_sink lb_record "\<lambda>x s. s @ [x]"
  by unfold_locales (simp add: lb_record_def)

lemma fold_snoc: "fold (\<lambda>x s. s @ [x]) xs s = s @ xs"
  by (induction xs arbitrary: s) simp_all

text \<open>
  C35: Mandatory breaks are reported exactly after the hard line endings of a text (BK, CR, LF and NL,
  but not between CR and LF), whatever the options are.
\<close>

theorem linebreak_mandatory:
  assumes "LB_SOT \<notin> set (map (unicode_lb_lookup t) cs)"
  shows "case rc_bind (unicode_lb_next_cnt t lb_record cs (unicode_lb_set_opts opts (unicode_lb_init [])))
      (unicode_lb_end lb_record) lb_cb_arg of
    (rc, flags) \<Rightarrow> rc = 0 \<and> length flags = length cs \<and>
      map (\<lambda>b. b = LB_MANDATORY) flags =
        (let ks = map (unicode_lb_lookup t) cs in if ks = [] then [] else False # map2 hard_pair ks (tl ks))"
proof -
  let ?ks = "map (unicode_lb_lookup t) cs"
  have run: "rc_bind (unicode_lb_next_cnt t lb_record cs (unicode_lb_set_opts opts (unicode_lb_init [])))
      (unicode_lb_end lb_record) lb_cb_arg = (0, lb_text opts ?ks)"
    using lb.text_reports[of "lb_start opts []" t lb_record cs]
    by (simp add: lb_record.feed_fold fold_snoc flip: lb_start_def)
  have "map (\<lambda>b. b = LB_MANDATORY) (lb_text opts ?ks) = (if ?ks = [] then [] else False # map2 hard_pair ?ks (tl ?ks))"
  proof (cases ?ks)
    case Nil
    then show ?thesis by (simp add: lb_text_def)
  next
    case (Cons u us)
    define v where "v = lb_class_of LB_SOT u"
    have v: "v \<noteq> LB_CM" "u \<noteq> LB_SOT" "LB_SOT \<notin> set us" using assms unfolding Cons by (auto simp: v_def lb_class_of_def)
    then have fl: "lb_text opts (u # us) = LB_NONE #
        lb_flags opts (if u = LB_NU then Inside else Outside) v (if v = LB_SP then LB_SOT else v) us"
      by (simp add: lb_text_def lb_rule_def flip: v_def)
    have "map (\<lambda>b. b = LB_MANDATORY) (lb_flags opts (if u = LB_NU then Inside else Outside) v
        (if v = LB_SP then LB_SOT else v) us) = map2 hard_pair (u # us) us"
      by (rule lb_flags_mandatory) (use v in \<open>auto simp: v_def lb_class_of_def lb_hard_def\<close>)
    then show ?thesis unfolding Cons fl by simp
  qed
  with run show ?thesis by (simp add: lb_text_def Let_def)
qed

text \<open>Letters, digits, a carriage return and a line feed.\<close>

definition lb_tiny_tables :: unicode_tables where
  "lb_tiny_tables = \<lparr>unicode_indextab = [0, 4], unicode_rangetab = [(10, 10), (13, 13), (48, 57), (65, 90)],
     unicode_classtab = [LB_LF, LB_CR, LB_NU, LB_AL]\<rparr>"

theorem linebreak_mandatory_witness:
  "case rc_bind (unicode_lb_next_cnt lb_tiny_tables lb_record [65, 13, 10, 50] (unicode_lb_set_opts 1 (unicode_lb_init [])))
      (unicode_lb_end lb_record) lb_cb_arg of
    (rc, flags) \<Rightarrow> rc = 0 \<and> length flags = length [65, 13, 10, 50 :: u32] \<and>
      map (\<lambda>b. b = LB_MANDATORY) flags =
        (let ks = map (unicode_lb_lookup lb_tiny_tables) [65, 13, 10, 50] in if ks = [] then [] else False # map2 hard_pair ks (tl ks))"
  by (rule linebreak_mandatory) code_simp

section \<open>Reports together with their characters\<close>

text \<open>
  The layer above keeps the characters that have not been reported in a buffer.  Its callback works on
  the structure that also holds the handle, so the other members are the argument of the handle; the
  callback of the user gets a report and a character.
\<close>

record 's unicode_lbc_info =
  lbc_buf :: unicode_buf
  lbc_buf_ptr :: nat
  lbc_cb_arg :: 's

type_synonym 's lbc_callback = "int \<Rightarrow> u32 \<Rightarrow> 's \<Rightarrow> int \<times> 's"

definition unicode_lbc_callback :: "'s lbc_callback \<Rightarrow> 's unicode_lbc_info lb_callback" where
  "unicode_lbc_callback g v h =
     (if ub_len (lbc_buf h) \<le> lbc_buf_ptr h then (-1, h)
      else case g v (ub_ptr (lbc_buf h) ! lbc_buf_ptr h) (lbc_cb_arg h) of
        (rc, s) \<Rightarrow> (rc, h\<lparr>lbc_buf_ptr := lbc_buf_ptr h + 1, lbc_cb_arg := s\<rparr>))"

definition unicode_lbc_init :: "'s \<Rightarrow> 's unicode_lbc_info unicode_lb_info" where
  "unicode_lbc_init arg = unicode_lb_init \<lparr>lbc_buf = unicode_buf_init SIZE_MAX, lbc_buf_ptr = 0, lbc_cb_arg = arg\<rparr>"

definition unicode_lbc_set_opts :: "u32 \<Rightarrow> 's unicode_lbc_info unicode_lb_info \<Rightarrow> 's unicode_lbc_info unicode_lb_info" where
  "unicode_lbc_set_opts opts i = unicode_lb_set_opts opts i"

definition unicode_lbc_next ::
  "unicode_tables \<Rightarrow> 's lbc_callback \<Rightarrow> u32 \<Rightarrow> 's unicode_lbc_info unicode_lb_info \<Rightarrow> int \<times> 's unicode_lbc_info unicode_lb_info" where
  "unicode_lbc_next t g c i =
     (let h = lb_cb_arg i;
          h = (if ub_len (lbc_buf h) \<le> lbc_buf_ptr h
               then h\<lparr>lbc_buf_ptr := 0, lbc_buf := unicode_buf_clear (lbc_buf h)\<rparr> else h);
          h = h\<lparr>lbc_buf := unicode_buf_append (lbc_buf h) [c]\<rparr>
      in unicode_lb_next t (unicode_lbc_callback g) c (i\<lparr>lb_cb_arg := h\<rparr>))"

definition unicode_lbc_end :: "'s lbc_callback \<Rightarrow> 's unicode_lbc_info unicode_lb_info \<Rightarrow> int \<times> 's" where
  "unicode_lbc_end g i = (case unicode_lb_end (unicode_lbc_callback g) i of (rc, h) \<Rightarrow> (rc, lbc_cb_arg h))"

text \<open>The characters of a text, one after the other.\<close>

primrec lbc_text ::
  "unicode_tables \<Rightarrow> 's lbc_callback \<Rightarrow> u32 list \<Rightarrow> 's unicode_lbc_info unicode_lb_info \<Rightarrow> int \<times> 's unicode_lbc_info unicode_lb_info" where
  "lbc_text t g [] i = (0, i)"
| "lbc_text t g (c # cs) i = rc_then (unicode_lbc_next t g c i) (lbc_text t g cs)"

text \<open>The characters that wait for their report.\<close>

definition lbc_pending :: "'s unicode_lbc_info \<Rightarrow> u32 list" where
  "lbc_pending h = drop (lbc_buf_ptr h) (ub_chars (lbc_buf h))"

definition lbc_feed :: "'s lbc_callback \<Rightarrow> int \<times> u32 \<Rightarrow> 's \<Rightarrow> int \<times> 's" where
  "lbc_feed g e s = g (fst e) (snd e) s"

lemma lbc_callback_feed:
  assumes "wf_buf (lbc_buf h)" "length out \<le> length (lbc_pending h)"
  shows "case feed (unicode_lbc_callback g) out h of (rc, h') \<Rightarrow>
    feed (lbc_feed g) (zip out (lbc_pending h)) (lbc_cb_arg h) = (rc, lbc_cb_arg h') \<and>
    lbc_buf h' = lbc_buf h \<and> (rc = 0 \<longrightarrow> lbc_pending h' = drop (length out) (lbc_pending h))"
  using assms
proof (induction out arbitrary: h)
  case Nil
  then show ?case by simp
next
  case (Cons x out)
  define c where "c = ub_ptr (lbc_buf h) ! lbc_buf_ptr h"
  from Cons.prems have ptr: "lbc_buf_ptr h < ub_len (lbc_buf h)"
    by (simp add: lbc_pending_def length_ub_chars)
  then have pend: "lbc_pending h = c # drop (lbc_buf_ptr h + 1) (ub_chars (lbc_buf h))"
    using Cons.prems(1) takeWhile_drop_nth[of "lbc_buf_ptr h" "ub_chars (lbc_buf h)"]
    by (simp add: lbc_pending_def c_def length_ub_chars) (simp add: ub_chars_def)
  obtain rc s where g: "g x c (lbc_cb_arg h) = (rc, s)" by fastforce
  define h1 where "h1 = h\<lparr>lbc_buf_ptr := lbc_buf_ptr h + 1, lbc_cb_arg := s\<rparr>"
  have cb: "unicode_lbc_callback g x h = (rc, h1)"
    using ptr g by (simp add: unicode_lbc_callback_def c_def h1_def)
  have h1: "lbc_buf h1 = lbc_buf h" "lbc_pending h1 = drop (lbc_buf_ptr h + 1) (ub_chars (lbc_buf h))" "lbc_cb_arg h1 = s"
    by (simp_all add: h1_def lbc_pending_def)
  show ?case
  proof (cases "rc = 0")
    case True
    with Cons.IH[of h1] Cons.prems show ?thesis by (simp add: cb pend h1 g lbc_feed_def)
  next
    case False
    then show ?thesis by (simp add: cb pend h1 g lbc_feed_def)
  qed
qed

lemma length_lb_future: "length (lb_future i (k # cs)) = length (lb_future i []) + Suc (length cs)"
  by (cases "lb_next_handler i") (simp_all add: lb_future_def del: lb_flags.simps)

lemma lbc_text_feed:
  "lb_valid i \<Longrightarrow> wf_buf (lbc_buf (lb_cb_arg i)) \<Longrightarrow> ub_max (lbc_buf (lb_cb_arg i)) = SIZE_MAX \<Longrightarrow>
   length (lbc_pending (lb_cb_arg i)) = length (lb_future i []) \<Longrightarrow>
   ub_len (lbc_buf (lb_cb_arg i)) + length cs \<le> SIZE_MAX \<Longrightarrow>
   rc_bind (lbc_text t g cs i) (unicode_lbc_end g) (\<lambda>i. lbc_cb_arg (lb_cb_arg i)) =
   feed (lbc_feed g) (zip (lb_future i (map (unicode_lb_lookup t) cs)) (lbc_pending (lb_cb_arg i) @ cs))
     (lbc_cb_arg (lb_cb_arg i))"
proof (induction cs arbitrary: i)
  case (Nil i)
  then show ?case
    using lbc_callback_feed[of "lb_cb_arg i" "lb_future i []" g]
    by (simp add: unicode_lbc_end_def unicode_lb_end_feed split: prod.splits)
next
  case (Cons c cs i)
  define h where "h = lb_cb_arg i"
  define h0 where "h0 = (if ub_len (lbc_buf h) \<le> lbc_buf_ptr h
      then h\<lparr>lbc_buf_ptr := 0, lbc_buf := unicode_buf_clear (lbc_buf h)\<rparr> else h)"
  define h1 where "h1 = h0\<lparr>lbc_buf := unicode_buf_append (lbc_buf h0) [c]\<rparr>"
  define i1 where "i1 = i\<lparr>lb_cb_arg := h1\<rparr>"
  let ?k = "unicode_lb_lookup t c" and ?ks = "map (unicode_lb_lookup t) cs"
  have h: "wf_buf (lbc_buf h)" "ub_max (lbc_buf h) = SIZE_MAX" "ub_len (lbc_buf h) + Suc (length cs) \<le> SIZE_MAX"
    using Cons.prems by (simp_all add: h_def)
  have h0: "wf_buf (lbc_buf h0)" "ub_max (lbc_buf h0) = SIZE_MAX" "ub_len (lbc_buf h0) \<le> ub_len (lbc_buf h)"
    "lbc_pending h0 = lbc_pending h" "lbc_cb_arg h0 = lbc_cb_arg h"
    "lbc_buf_ptr h0 \<le> length (ub_chars (lbc_buf h0))"
    using h by (auto simp: h0_def lbc_pending_def length_ub_chars) (simp_all add: unicode_buf_clear_def)
  have room: "length (ub_chars (lbc_buf h0) @ [c]) \<le> SIZE_MAX"
    using h(3) h0(3) by (simp add: length_ub_chars[OF h0(1)])
  have app: "wf_buf (lbc_buf h1)" "ub_max (lbc_buf h1) = SIZE_MAX" "ub_chars (lbc_buf h1) = ub_chars (lbc_buf h0) @ [c]"
    using append_spec[OF h0(1), of "[c]"] h0(2) room by (simp_all add: h1_def)
  have h1: "lbc_pending h1 = lbc_pending h @ [c]" "lbc_cb_arg h1 = lbc_cb_arg h"
    "ub_len (lbc_buf h1) + length cs \<le> SIZE_MAX"
    using app(3) h0 h(3) length_ub_chars[OF app(1)] length_ub_chars[OF h0(1)]
    by (simp_all add: lbc_pending_def h1_def)
  have i1: "lb_valid i1" "lb_future i1 = lb_future i" "lb_cb_arg i1 = h1"
    using Cons.prems(1) by (simp_all add: i1_def)
  have nxt: "unicode_lbc_next t g c i = unicode_lb_next t (unicode_lbc_callback g) c i1"
    by (simp add: unicode_lbc_next_def Let_def i1_def h1_def h0_def h_def)
  have pend: "length (lbc_pending h1) = length (lb_future i [?k])"
    using Cons.prems(4) by (simp add: h1 length_lb_future h_def)
  show ?case
  using i1(1) proof (cases rule: lb.step_cases[where t = t and f = "unicode_lbc_callback g" and x = c])
    case (ok j out)
    note ok' = ok[unfolded i1]
    have len: "length out \<le> length (lbc_pending h1)" using ok'(4)[of "[]"] pend by simp
    from lbc_callback_feed[OF app(1) len, of g] ok'(3)
    have fd: "feed (lbc_feed g) (zip out (lbc_pending h1)) (lbc_cb_arg h) = (0, lbc_cb_arg (lb_cb_arg j))"
      "lbc_buf (lb_cb_arg j) = lbc_buf h1" "lbc_pending (lb_cb_arg j) = drop (length out) (lbc_pending h1)"
      by (simp_all add: h1(2))
    have "zip (out @ xs) (lbc_pending h @ c # cs) = zip out (lbc_pending h1) @ zip xs (lbc_pending (lb_cb_arg j) @ cs)" for xs
      using zip_prefix[OF len, of xs cs] by (simp add: h1(1) fd(3))
    moreover have "length (lbc_pending (lb_cb_arg j)) = length (lb_future j [])"
      using pend ok'(4)[of "[]"] by (simp add: fd(3))
    ultimately show ?thesis
      using Cons.IH[of j] ok' fd app h1(3) by (simp add: nxt feed_append h_def)
  next
    case (error rc j out)
    note error' = error[unfolded i1]
    from error'(4)[of "[]"] pend have len: "length out \<le> length (lbc_pending h1)" by auto
    from lbc_callback_feed[OF app(1) len, of g] error'(3)
    have fd: "feed (lbc_feed g) (zip out (lbc_pending h1)) (lbc_cb_arg h) = (rc, lbc_cb_arg (lb_cb_arg j))"
      by (simp add: h1(2))
    from error'(4)[of ?ks] obtain rest where "lb_future i (?k # ?ks) = out @ rest" by blast
    moreover have "zip (out @ rest) (lbc_pending h @ c # cs) =
        zip out (lbc_pending h1) @ zip rest (drop (length out) (lbc_pending h1) @ cs)"
      using zip_prefix[OF len, of rest cs] by (simp add: h1(1))
    ultimately show ?thesis using error' fd by (simp add: nxt feed_append h_def)
  qed
qed

text \<open>
  C34: With the characters attached, a text of fewer than 2 ^ 64 characters reports each character with
  the break before it, in the order of the text, up to the first code other than 0: no character is
  lost or doubled while a bracket is held back.
\<close>

theorem lbc_text_in_order:
  assumes "length cs \<le> SIZE_MAX"
  shows "rc_bind (lbc_text t g cs (unicode_lbc_set_opts opts (unicode_lbc_init s)))
      (unicode_lbc_end g) (\<lambda>i. lbc_cb_arg (lb_cb_arg i)) =
    feed (\<lambda>(x, c). g x c) (zip (lb_text opts (map (unicode_lb_lookup t) cs)) cs) s"
proof -
  have "feed (\<lambda>(x, c). g x c) es s = feed (lbc_feed g) es s" for es and s :: 'a
    by (induction es arbitrary: s) (auto simp: lbc_feed_def rc_bind_def split: prod.splits)
  with lbc_text_feed[of "lb_start opts \<lparr>lbc_buf = unicode_buf_init SIZE_MAX, lbc_buf_ptr = 0, lbc_cb_arg = s\<rparr>" cs t g] assms
  show ?thesis
    by (simp add: unicode_lbc_set_opts_def unicode_lbc_init_def lbc_pending_def lb_text_def
        flip: lb_start_def)
qed

theorem lbc_text_in_order_witness:
  "let g = (\<lambda>x c s. (0, s @ [(x, c)]))
   in rc_bind (lbc_text lb_tiny_tables g [65, 13, 10] (unicode_lbc_set_opts 0 (unicode_lbc_init [])))
      (unicode_lbc_end g) (\<lambda>i. lbc_cb_arg (lb_cb_arg i)) =
    feed (\<lambda>(x, c). g x c) (zip (lb_text 0 (map (unicode_lb_lookup lb_tiny_tables) [65, 13, 10])) [65, 13, 10]) []"
  unfolding Let_def by (rule lbc_text_in_order) (simp add: SIZE_MAX_def)

end
