(* ===== verification/Unicode_Width.thy ===== *)
theory Unicode_Width
  imports Linebreak
begin

text \<open>
  The width of characters (unicode/unicode_wcwidth.c), from a table of wide characters and the line
  breaking classes, and case conversion (unicode/unicode_ultcase.c), by a hash table.  The tables are
  arguments.
\<close>

section \<open>Width\<close>

definition unicode_wcwidth :: "(u32 \<times> u32) list \<Rightarrow> unicode_tables \<Rightarrow> u32 \<Rightarrow> nat" where
  "unicode_wcwidth wtab t c =
     (case tab_search wtab c 0 (length wtab) of
        Some _ \<Rightarrow> 2
      | None \<Rightarrow>
          if unicode_lb_lookup t c \<in> {LB_BK, LB_CR, LB_LF, LB_CM, LB_NL, LB_WJ, LB_ZW} then 0 else 1)"

definition unicode_isspace :: "unicode_tables \<Rightarrow> u32 \<Rightarrow> bool" where
  "unicode_isspace t c =
     (if c = 9 then True else unicode_lb_lookup t c \<in> {LB_BK, LB_CR, LB_LF, LB_NL, LB_SP})"

text \<open>The string ends with its first zero character; the sum has the width of \<open>size_t\<close>.\<close>

fun wcwidth_loop :: "(u32 \<times> u32) list \<Rightarrow> unicode_tables \<Rightarrow> u32 list \<Rightarrow> u64 \<Rightarrow> u64" where
  "wcwidth_loop wtab t [] w = w"
| "wcwidth_loop wtab t (c # cs) w =
     (if c = 0 then w else wcwidth_loop wtab t cs (w + of_nat (unicode_wcwidth wtab t c)))"

definition unicode_wcwidth_str :: "(u32 \<times> u32) list \<Rightarrow> unicode_tables \<Rightarrow> u32 list \<Rightarrow> u64" where
  "unicode_wcwidth_str wtab t c = wcwidth_loop wtab t c 0"

definition is_wide :: "(u32 \<times> u32) list \<Rightarrow> u32 \<Rightarrow> bool" where
  "is_wide wtab c \<longleftrightarrow> list_ex (\<lambda>r. fst r \<le> c \<and> c \<le> snd r) wtab"

lemma is_wide_nth: "is_wide wtab c \<longleftrightarrow> (\<exists>i<length wtab. fst (wtab ! i) \<le> c \<and> c \<le> snd (wtab ! i))"
  by (simp add: is_wide_def list_ex_length)

lemma tab_search_wide:
  assumes "sorted_ranges wtab (length wtab)"
  shows "tab_search wtab c 0 (length wtab) = None \<longleftrightarrow> \<not> is_wide wtab c"
  using tab_search_correct[OF assms, of "length wtab" c 0]
  by (auto simp: is_wide_nth split: option.splits)

lemma unicode_wcwidth_le: "unicode_wcwidth wtab t c \<le> 2"
  by (simp add: unicode_wcwidth_def split: option.splits)

lemma wcwidth_loop_sum:
  "wcwidth_loop wtab t cs w = w + of_nat (sum_list (map (unicode_wcwidth wtab t) (takeWhile (\<lambda>c. c \<noteq> 0) cs)))"
  by (induction cs arbitrary: w) (simp_all add: algebra_simps)

lemma width_bound: "sum_list (map (unicode_wcwidth wtab t) cs) \<le> 2 * length cs"
proof (induction cs)
  case (Cons c cs)
  with unicode_wcwidth_le[of wtab t c] show ?case by simp
qed simp

text \<open>
  C39: The width of a character is 2 if the sorted table of wide characters has it, 0 for line endings,
  combining marks and joiners, and 1 otherwise; the width of a string of fewer than 2 ^ 63 characters
  is the sum over the characters before its zero, and no wrap-around occurs.
\<close>

theorem unicode_width_correct:
  assumes "sorted_ranges wtab (length wtab)" and "length cs < 2 ^ 63"
  shows "unicode_wcwidth wtab t c =
      (if is_wide wtab c then 2
       else if lb_hard (unicode_lb_lookup t c) \<or> unicode_lb_lookup t c \<in> {LB_CM, LB_WJ, LB_ZW} then 0 else 1) \<and>
    unat (unicode_wcwidth_str wtab t cs) = sum_list (map (unicode_wcwidth wtab t) (takeWhile (\<lambda>c. c \<noteq> 0) cs))"
proof
  show "unicode_wcwidth wtab t c =
      (if is_wide wtab c then 2
       else if lb_hard (unicode_lb_lookup t c) \<or> unicode_lb_lookup t c \<in> {LB_CM, LB_WJ, LB_ZW} then 0 else 1)"
    using tab_search_wide[OF assms(1), of c]
    by (auto simp: unicode_wcwidth_def lb_hard_def split: option.splits)
  let ?s = "sum_list (map (unicode_wcwidth wtab t) (takeWhile (\<lambda>c. c \<noteq> 0) cs))"
  have "?s \<le> 2 * length (takeWhile (\<lambda>c. c \<noteq> 0) cs)" by (rule width_bound)
  also have "\<dots> \<le> 2 * length cs" using length_takeWhile_le[of "\<lambda>c. c \<noteq> 0" cs] by simp
  finally have "?s < 2 ^ 64" using assms(2) by simp
  then show "unat (unicode_wcwidth_str wtab t cs) = ?s"
    by (simp add: unicode_wcwidth_str_def wcwidth_loop_sum unat_of_nat)
qed

theorem unicode_width_correct_witness:
  "unicode_wcwidth [(4352, 4447), (9001, 9002)] lb_tiny_tables 4400 =
      (if is_wide [(4352, 4447), (9001, 9002)] 4400 then 2
       else if lb_hard (unicode_lb_lookup lb_tiny_tables 4400) \<or>
         unicode_lb_lookup lb_tiny_tables 4400 \<in> {LB_CM, LB_WJ, LB_ZW} then 0 else 1) \<and>
    unat (unicode_wcwidth_str [(4352, 4447), (9001, 9002)] lb_tiny_tables [65, 4400, 0]) =
      sum_list (map (unicode_wcwidth [(4352, 4447), (9001, 9002)] lb_tiny_tables) (takeWhile (\<lambda>c. c \<noteq> 0) [65, 4400, 0]))"
proof (rule unicode_width_correct)
  show "sorted_ranges [(4352 :: u32, 4447), (9001, 9002)] (length [(4352 :: u32, 4447 :: u32), (9001, 9002)])"
    unfolding sorted_ranges_def by code_simp
qed simp

section \<open>Case conversion\<close>

text \<open>
  The hash table: the modulus, the rows (a character with its upper, lower and title case) and for
  each residue the place of its first row.  A place outside of the table is \<open>None\<close>.
\<close>

record case_tables =
  unicode_case_hash :: nat
  unicode_case_tab :: "(u32 \<times> u32 \<times> u32 \<times> u32) list"
  unicode_case_offset :: "nat list"

definition case_key :: "case_tables \<Rightarrow> nat \<Rightarrow> u32" where
  "case_key T i = fst (unicode_case_tab T ! i)"

text \<open>The loop of \<open>find_case\<close>, at row \<open>i\<close>.\<close>

function find_case_loop :: "case_tables \<Rightarrow> u32 \<Rightarrow> nat \<Rightarrow> nat \<Rightarrow> nat option" where
  "find_case_loop T c idx i =
     (if length (unicode_case_tab T) \<le> i then None
      else if case_key T i = c then Some i
      else if unat (case_key T i) mod unicode_case_hash T = idx then find_case_loop T c idx (i + 1)
      else Some 0)"
  by pat_completeness auto
termination by (relation "measure (\<lambda>(T, c, idx, i). length (unicode_case_tab T) - i)") auto

declare find_case_loop.simps [simp del]

definition find_case :: "case_tables \<Rightarrow> u32 \<Rightarrow> nat option" where
  "find_case T c =
     (let idx = unat c mod unicode_case_hash T in
      if idx < length (unicode_case_offset T) then find_case_loop T c idx (unicode_case_offset T ! idx) else None)"

definition unicode_uc :: "case_tables \<Rightarrow> u32 \<Rightarrow> u32 option" where
  "unicode_uc T c = (case find_case T c of None \<Rightarrow> None
     | Some i \<Rightarrow> Some (if case_key T i \<noteq> c then c else fst (snd (unicode_case_tab T ! i))))"

definition unicode_lc :: "case_tables \<Rightarrow> u32 \<Rightarrow> u32 option" where
  "unicode_lc T c = (case find_case T c of None \<Rightarrow> None
     | Some i \<Rightarrow> Some (if case_key T i \<noteq> c then c else fst (snd (snd (unicode_case_tab T ! i)))))"

definition unicode_tc :: "case_tables \<Rightarrow> u32 \<Rightarrow> u32 option" where
  "unicode_tc T c = (case unicode_lc T c of None \<Rightarrow> None
     | Some l \<Rightarrow> (case find_case T l of None \<Rightarrow> None
        | Some i \<Rightarrow> Some (if case_key T i \<noteq> l then c else snd (snd (snd (unicode_case_tab T ! i))))))"

text \<open>
  The last row is a sentinel.  A table is well-formed if the rows of each residue before it follow each
  other from the offset of the residue on and are followed by a row of another residue, and if no
  character has two rows.
\<close>

definition case_rows :: "case_tables \<Rightarrow> nat" where
  "case_rows T = length (unicode_case_tab T) - 1"

definition case_residue :: "case_tables \<Rightarrow> nat \<Rightarrow> nat" where
  "case_residue T i = unat (case_key T i) mod unicode_case_hash T"

definition wf_case :: "case_tables \<Rightarrow> bool" where
  "wf_case T \<longleftrightarrow> 0 < unicode_case_hash T \<and> length (unicode_case_offset T) = unicode_case_hash T \<and>
     0 < case_rows T \<and> distinct (map fst (butlast (unicode_case_tab T))) \<and>
     (\<forall>idx<unicode_case_hash T. \<exists>e\<le>case_rows T. unicode_case_offset T ! idx \<le> e \<and> case_residue T e \<noteq> idx \<and>
        (\<forall>i<case_rows T. case_residue T i = idx \<longleftrightarrow> unicode_case_offset T ! idx \<le> i \<and> i < e))"

lemma find_case_loop_correct:
  assumes e: "e \<le> case_rows T" "0 < case_rows T" "case_residue T e \<noteq> idx"
    and block: "\<And>i. i < case_rows T \<Longrightarrow> case_residue T i = idx \<longleftrightarrow> s \<le> i \<and> i < e"
    and c: "unat c mod unicode_case_hash T = idx"
  shows "s \<le> i \<Longrightarrow> i \<le> e \<Longrightarrow> (\<forall>j<i. case_key T j \<noteq> c) \<Longrightarrow>
    (\<exists>j<case_rows T. case_key T j = c \<and> find_case_loop T c idx i = Some j) \<or>
    (\<forall>j<case_rows T. case_key T j \<noteq> c) \<and> find_case_loop T c idx i = Some 0"
proof (induction "e - i" arbitrary: i)
  case 0
  then have i: "i = e" by simp
  have none: "case_key T j \<noteq> c" if "j < case_rows T" for j
    using block[OF that] c "0.prems"(3) by (auto simp: i case_residue_def)
  have "case_key T e \<noteq> c" using e(3) c by (auto simp: case_residue_def)
  then have "find_case_loop T c idx e = Some 0"
    using e unfolding case_rows_def case_residue_def by (subst find_case_loop.simps) auto
  with none show ?case by (simp add: i)
next
  case (Suc n)
  then have i: "i < e" by simp
  then have len: "i < case_rows T" "i < length (unicode_case_tab T)" using e(1) by (simp_all add: case_rows_def)
  show ?case
  proof (cases "case_key T i = c")
    case True
    with len show ?thesis by (auto simp: find_case_loop.simps[of T c idx i])
  next
    case False
    with Suc.prems(3) have "\<forall>j<i + 1. case_key T j \<noteq> c" by (auto simp: less_Suc_eq)
    with Suc.hyps(1)[of "i + 1"] Suc.hyps(2) Suc.prems i
    have "(\<exists>j<case_rows T. case_key T j = c \<and> find_case_loop T c idx (i + 1) = Some j) \<or>
        (\<forall>j<case_rows T. case_key T j \<noteq> c) \<and> find_case_loop T c idx (i + 1) = Some 0" by simp
    moreover have "find_case_loop T c idx i = find_case_loop T c idx (i + 1)"
      using False i len block[OF len(1)] Suc.prems(1) by (subst find_case_loop.simps) (simp add: case_residue_def)
    ultimately show ?thesis by (simp only:)
  qed
qed

text \<open>The row of a character, from the association list of the rows.\<close>

definition case_row :: "case_tables \<Rightarrow> u32 \<Rightarrow> (u32 \<times> u32 \<times> u32) option" where
  "case_row T c = map_of (butlast (unicode_case_tab T)) c"

lemma case_row_nth:
  "wf_case T \<Longrightarrow> j < case_rows T \<Longrightarrow> case_row T (case_key T j) = Some (snd (unicode_case_tab T ! j))"
  "(\<forall>j<case_rows T. case_key T j \<noteq> c) \<Longrightarrow> case_row T c = None"
proof -
  assume wf: "wf_case T" and j: "j < case_rows T"
  have nth: "butlast (unicode_case_tab T) ! j = (case_key T j, snd (unicode_case_tab T ! j))"
    using j by (simp add: nth_butlast case_rows_def case_key_def)
  from j have "butlast (unicode_case_tab T) ! j \<in> set (butlast (unicode_case_tab T))"
    by (intro nth_mem) (simp add: case_rows_def)
  then show "case_row T (case_key T j) = Some (snd (unicode_case_tab T ! j))"
    using wf unfolding nth case_row_def wf_case_def by (intro map_of_is_SomeI) simp_all
next
  assume none: "\<forall>j<case_rows T. case_key T j \<noteq> c"
  have "c \<notin> fst ` set (butlast (unicode_case_tab T))"
  proof
    assume "c \<in> fst ` set (butlast (unicode_case_tab T))"
    then obtain j where "j < case_rows T" "fst (butlast (unicode_case_tab T) ! j) = c"
      by (auto simp: in_set_conv_nth case_rows_def)
    with none show False by (auto simp: nth_butlast case_rows_def case_key_def)
  qed
  then show "case_row T c = None" by (simp add: case_row_def map_of_eq_None_iff)
qed

lemma find_case_row:
  assumes "wf_case T"
  obtains i where "find_case T c = Some i"
    "case_row T c = (if case_key T i = c then Some (snd (unicode_case_tab T ! i)) else None)"
proof -
  define idx where "idx = unat c mod unicode_case_hash T"
  have idx: "idx < unicode_case_hash T" "idx < length (unicode_case_offset T)" and rows: "0 < case_rows T"
    using assms by (simp_all add: wf_case_def idx_def)
  then obtain e where e: "e \<le> case_rows T" "unicode_case_offset T ! idx \<le> e" "case_residue T e \<noteq> idx"
    "\<And>i. i < case_rows T \<Longrightarrow> case_residue T i = idx \<longleftrightarrow> unicode_case_offset T ! idx \<le> i \<and> i < e"
    using assms unfolding wf_case_def by blast
  have before: "case_key T j \<noteq> c" if "j < unicode_case_offset T ! idx" for j
    using e(4)[of j] that e(1,2) by (auto simp: idx_def case_residue_def)
  have found: "find_case T c = find_case_loop T c idx (unicode_case_offset T ! idx)"
    using idx by (simp add: find_case_def idx_def Let_def)
  from find_case_loop_correct[OF e(1) rows e(3,4) idx_def[symmetric] order_refl e(2)] before
  consider j where "j < case_rows T" "case_key T j = c" "find_case T c = Some j"
    | "\<forall>j<case_rows T. case_key T j \<noteq> c" "find_case T c = Some 0"
    unfolding found by blast
  then show ?thesis
  proof cases
    case (1 j)
    with case_row_nth(1)[OF assms, of j] show ?thesis by (intro that[of j]) auto
  next
    case 2
    with case_row_nth(2)[of T c] rows show ?thesis by (intro that[of 0]) auto
  qed
qed

text \<open>
  C40: On a well-formed table the conversions stay inside the table and return what the row of the
  character says, or the character itself when it has no row; the title case is the one of the row of
  the lower case character.
\<close>

theorem unicode_case_correct:
  assumes "wf_case T"
  shows "unicode_uc T c = Some (case case_row T c of None \<Rightarrow> c | Some r \<Rightarrow> fst r) \<and>
    unicode_lc T c = Some (case case_row T c of None \<Rightarrow> c | Some r \<Rightarrow> fst (snd r)) \<and>
    unicode_tc T c = Some (case case_row T (case case_row T c of None \<Rightarrow> c | Some r \<Rightarrow> fst (snd r)) of
      None \<Rightarrow> c | Some r \<Rightarrow> snd (snd r))"
proof -
  obtain i where i: "find_case T c = Some i"
    "case_row T c = (if case_key T i = c then Some (snd (unicode_case_tab T ! i)) else None)"
    by (rule find_case_row[OF assms])
  have uc: "unicode_uc T c = Some (case case_row T c of None \<Rightarrow> c | Some r \<Rightarrow> fst r)"
    by (simp add: unicode_uc_def i)
  have lc: "unicode_lc T c = Some (case case_row T c of None \<Rightarrow> c | Some r \<Rightarrow> fst (snd r))"
    by (simp add: unicode_lc_def i)
  define l where "l = (case case_row T c of None \<Rightarrow> c | Some r \<Rightarrow> fst (snd r))"
  obtain k where k: "find_case T l = Some k"
    "case_row T l = (if case_key T k = l then Some (snd (unicode_case_tab T ! k)) else None)"
    by (rule find_case_row[OF assms])
  have "unicode_tc T c = Some (case case_row T l of None \<Rightarrow> c | Some r \<Rightarrow> snd (snd r))"
    using lc unfolding l_def[symmetric] by (simp add: unicode_tc_def k)
  with uc lc show ?thesis by (simp add: l_def)
qed

definition case_tiny :: case_tables where
  "case_tiny = \<lparr>unicode_case_hash = 2, unicode_case_tab = [(66, 66, 98, 66), (98, 66, 98, 66), (65, 65, 97, 65), (97, 65, 97, 65), (0, 0, 0, 0)],
     unicode_case_offset = [0, 2]\<rparr>"

lemma wf_case_tiny: "wf_case case_tiny"
proof -
  have "\<exists>e\<le>case_rows case_tiny. unicode_case_offset case_tiny ! idx \<le> e \<and> case_residue case_tiny e \<noteq> idx \<and>
      (\<forall>i<case_rows case_tiny. case_residue case_tiny i = idx \<longleftrightarrow> unicode_case_offset case_tiny ! idx \<le> i \<and> i < e)"
    if "idx < 2" for idx
  proof -
    have "\<forall>idx<2. 2 * idx + 2 \<le> case_rows case_tiny \<and> unicode_case_offset case_tiny ! idx \<le> 2 * idx + 2 \<and>
        case_residue case_tiny (2 * idx + 2) \<noteq> idx \<and> (\<forall>i<case_rows case_tiny. case_residue case_tiny i = idx \<longleftrightarrow>
          unicode_case_offset case_tiny ! idx \<le> i \<and> i < 2 * idx + 2)" by code_simp
    with that show ?thesis by blast
  qed
  moreover have "unicode_case_hash case_tiny = 2" "length (unicode_case_offset case_tiny) = 2" "0 < case_rows case_tiny"
    "distinct (map fst (butlast (unicode_case_tab case_tiny)))" by code_simp+
  ultimately show ?thesis unfolding wf_case_def by auto
qed

theorem unicode_case_correct_witness:
  "unicode_uc case_tiny 97 = Some (case case_row case_tiny 97 of None \<Rightarrow> 97 | Some r \<Rightarrow> fst r) \<and>
    unicode_lc case_tiny 97 = Some (case case_row case_tiny 97 of None \<Rightarrow> 97 | Some r \<Rightarrow> fst (snd r)) \<and>
    unicode_tc case_tiny 97 = Some (case case_row case_tiny (case case_row case_tiny 97 of None \<Rightarrow> 97 | Some r \<Rightarrow> fst (snd r)) of
      None \<Rightarrow> 97 | Some r \<Rightarrow> snd (snd r))"
  by (rule unicode_case_correct[OF wf_case_tiny])

end
