(* ===== verification/Sha_Constants.thy ===== *)
theory Sha_Constants
  imports Sha1 Sha256 Sha512
begin

text \<open>
  Where the constant tables of sha1/sha256.c and sha1/sha512.c come from: FIPS 180 defines the
  initial values as the first bits of the fractional parts of the square roots of the first primes,
  and the additive constants as those of the cube roots.  The definition \<open>frac_root\<close> states this in
  integers, without real numbers.
\<close>

definition first_primes :: "int list" where
  "first_primes =
  [2, 3, 5, 7, 11, 13, 17, 19, 23, 29, 31, 37, 41, 43, 47, 53, 59, 61, 67, 71, 73, 79, 83, 89, 97, 101,
   103, 107, 109, 113, 127, 131, 137, 139, 149, 151, 157, 163, 167, 173, 179, 181, 191, 193, 197, 199,
   211, 223, 227, 229, 233, 239, 241, 251, 257, 263, 269, 271, 277, 281, 283, 293, 307, 311, 313, 317,
   331, 337, 347, 349, 353, 359, 367, 373, 379, 383, 389, 397, 401, 409]"

text \<open>
  \<open>w\<close> is the first \<open>LENGTH('a)\<close> bits after the point of the \<open>e\<close>-th root of \<open>p\<close>, whose integer
  part \<open>iroot e p\<close> is at most 7 for all entries.
\<close>

definition iroot :: "nat \<Rightarrow> int \<Rightarrow> int" where
  "iroot e p = sum_list (map (\<lambda>q. if q ^ e \<le> p then 1 else 0) [1, 2, 3, 4, 5, 6, 7])"

definition frac_root :: "nat \<Rightarrow> int \<Rightarrow> 'a::len word \<Rightarrow> bool" where
  "frac_root e p w =
     (let s = 2 ^ LENGTH('a); n = iroot e p * s + uint w
      in n ^ e \<le> p * s ^ e \<and> p * s ^ e < (n + 1) ^ e)"

text \<open>
  C22: The constants of SHA-256 are the ones the standard derives from the first primes: the table
  \<open>K\<close> from the cube roots of the first 64, the initial value from the square roots of the first 8.
\<close>

theorem sha256_constants:
  "list_all2 (frac_root 3) (take 64 first_primes) sha256_K \<and>
   list_all2 (frac_root 2) (take 8 first_primes) (sha256_H (sha256_context_init c))"
proof
  show "list_all2 (frac_root 3) (take 64 first_primes) sha256_K" by code_simp
  have "list_all2 (frac_root 2) (take 8 first_primes) sha256_iv" by code_simp
  then show "list_all2 (frac_root 2) (take 8 first_primes) (sha256_H (sha256_context_init c))"
    by (simp add: sha256_context_init_def sha256_iv_def)
qed

text \<open>
  The constants of SHA-512 likewise, from the cube roots of the first 80 primes and the square
  roots of the first 8, with 64 bits.
\<close>

theorem sha512_constants:
  "list_all2 (frac_root 3) first_primes sha512_K \<and>
   list_all2 (frac_root 2) (take 8 first_primes) (sha512_H (sha512_context_init c))"
proof
  show "list_all2 (frac_root 3) first_primes sha512_K" by code_simp
  have "list_all2 (frac_root 2) (take 8 first_primes) sha512_iv" by code_simp
  then show "list_all2 (frac_root 2) (take 8 first_primes) (sha512_H (sha512_context_init c))"
    by (simp add: sha512_context_init_def sha512_iv_def)
qed

end
