(* ===== verification/Rfc822_Tok.thy ===== *)
theory Rfc822_Tok
  imports Cdecode
begin

text \<open>
  The lexical part of rfc822/rfc822.c: \<open>tokenize\<close>, which runs twice over an address header, once to
  count the tokens and once to fill the array that was allocated for them, and \<open>rfc822tok_print\<close>.  A
  token points into the text by its offset.  Offsets and counts are natural numbers (they are of type
  \<open>int\<close>; the texts are headers of messages).
\<close>

section \<open>Tokens\<close>

abbreviation (input) QUOTE :: u8 where "QUOTE \<equiv> 34"
abbreviation (input) LPAREN :: u8 where "LPAREN \<equiv> 40"
abbreviation (input) RPAREN :: u8 where "RPAREN \<equiv> 41"
abbreviation (input) COMMA :: u8 where "COMMA \<equiv> 44"
abbreviation (input) COLON :: u8 where "COLON \<equiv> 58"
abbreviation (input) SEMI :: u8 where "SEMI \<equiv> 59"
abbreviation (input) LT :: u8 where "LT \<equiv> 60"
abbreviation (input) EQ :: u8 where "EQ \<equiv> 61"
abbreviation (input) GT :: u8 where "GT \<equiv> 62"
abbreviation (input) QMARK :: u8 where "QMARK \<equiv> 63"
abbreviation (input) BSLASH :: u8 where "BSLASH \<equiv> 92"
abbreviation (input) SPACE :: u8 where "SPACE \<equiv> 32"

text \<open>\<open>"<>@,;:.[]()%!\"\\?=/"\<close>, and \<open>"()<>[]:;@\\,.\""\<close> of rfc822.h.\<close>

definition SPECIALS :: bytes where
  "SPECIALS = [60, 62, 64, 44, 59, 58, 46, 91, 93, 40, 41, 37, 33, 34, 92, 63, 61, 47]"

definition RFC822_SPECIALS :: bytes where
  "RFC822_SPECIALS = [40, 41, 60, 62, 91, 93, 58, 59, 64, 92, 44, 46, 34]"

text \<open>The cases of the switch that end in a token of one character.\<close>

definition punctuation :: bytes where
  "punctuation = [61, 60, 62, 64, 44, 59, 58, 46, 91, 93, 37, 33, 63, 47]"

text \<open>
  The pointer of a token is null, an empty string literal, or points into the text, where it is the
  offset.  A \<open>next\<close> pointer, null or to another token of the array, is an index.
\<close>

datatype tok_pointer = Null | Empty | At nat

record rfc822token =
  token :: u8
  tok_ptr :: tok_pointer
  tok_len :: nat
  tok_next :: "nat option"

text \<open>The text is terminated by a zero byte.\<close>

definition chr_at :: "bytes \<Rightarrow> nat \<Rightarrow> u8" where
  "chr_at s i = (if i < length s then s ! i else 0)"

lemma chr_at_length [dest]: "chr_at s i \<noteq> 0 \<Longrightarrow> i < length s"
  by (simp add: chr_at_def split: if_splits)

section \<open>The tokenizer\<close>

text \<open>
  The loops return whether they ended regularly, the new offset and the length of the token.  The
  variable \<open>i\<close> of the source is always the offset of \<open>p\<close>, so there is one variable for both.
\<close>

function comment_loop :: "bytes \<Rightarrow> nat \<Rightarrow> int \<Rightarrow> nat \<Rightarrow> bool \<times> nat \<times> nat" where
  "comment_loop s i level len =
     (let c = chr_at s i in
      if c = 0 then (False, i, len)
      else let level = (if c = LPAREN then level + 1 else level);
               level = (if c = RPAREN then level - 1 else level) in
        if c = RPAREN \<and> level = 0 then (True, i + 1, len + 1)
        else if c = BSLASH \<and> chr_at s (i + 1) \<noteq> 0 then comment_loop s (i + 2) level (len + 2)
        else comment_loop s (i + 1) level (len + 1))"
  by pat_completeness auto
termination by (relation "measure (\<lambda>(s, i, level, len). length s - i)") (auto dest!: chr_at_length)

function quote_loop :: "bytes \<Rightarrow> nat \<Rightarrow> nat \<Rightarrow> bool \<times> nat \<times> nat" where
  "quote_loop s i len =
     (let c = chr_at s i in
      if c = QUOTE then (True, i, len)
      else if c = 0 then (False, i, len)
      else if c = BSLASH \<and> chr_at s (i + 1) \<noteq> 0 then quote_loop s (i + 2) (len + 2)
      else quote_loop s (i + 1) (len + 1))"
  by pat_completeness auto
termination by (relation "measure (\<lambda>(s, i, len). length s - i)") (auto dest!: chr_at_length)

text \<open>The search for the end of an encoded word; the offset where it stops.\<close>

function ew_scan :: "bytes \<Rightarrow> nat \<Rightarrow> nat" where
  "ew_scan s j =
     (let c = chr_at s j in
      if c = 0 then j
      else if c = QMARK \<and> chr_at s (j + 1) = EQ then j
      else if c = QMARK \<or> c = EQ then ew_scan s (j + 1)
      else if c \<in> set RFC822_SPECIALS \<or> isspace c then j
      else ew_scan s (j + 1))"
  by pat_completeness auto
termination by (relation "measure (\<lambda>(s, j). length s - j)") (auto dest!: chr_at_length)

function atom_loop :: "bytes \<Rightarrow> nat \<Rightarrow> nat \<Rightarrow> nat \<times> nat" where
  "atom_loop s i len =
     (let c = chr_at s i in
      if c \<noteq> 0 \<and> \<not> isspace c \<and> c \<notin> set SPECIALS then atom_loop s (i + 1) (len + 1) else (i, len))"
  by pat_completeness auto
termination by (relation "measure (\<lambda>(s, i, len). length s - i)") (auto dest!: chr_at_length)

declare comment_loop.simps [simp del] quote_loop.simps [simp del] ew_scan.simps [simp del] atom_loop.simps [simp del]

text \<open>
  What \<open>tokenize\<close> does to the world: the tokens written, the count, and the offsets at which it called
  the error function.  The array is only written if \<open>tokp\<close> is given (\<open>fill\<close>).
\<close>

record tok_state =
  tok_out :: "rfc822token list"
  toklen :: nat
  tok_errs :: "nat list"

definition put_token :: "bool \<Rightarrow> rfc822token \<Rightarrow> tok_state \<Rightarrow> tok_state" where
  "put_token fill t st = st\<lparr>tok_out := if fill then tok_out st @ [t] else tok_out st, toklen := toklen st + 1\<rparr>"

definition tok_error :: "nat \<Rightarrow> tok_state \<Rightarrow> tok_state" where
  "tok_error i st = st\<lparr>tok_errs := tok_errs st @ [i]\<rparr>"

lemma comment_loop_progress: "comment_loop s i level len = (ok, i', len') \<Longrightarrow> i + (if ok then 1 else 0) \<le> i'"
proof (induction s i level len rule: comment_loop.induct)
  case (1 s i level len)
  from "1.prems" show ?case
    by (subst (asm) comment_loop.simps) (use "1.IH" in \<open>force simp: Let_def split: if_splits\<close>)
qed

lemma quote_loop_progress: "quote_loop s i len = (ok, i', len') \<Longrightarrow> i \<le> i'"
proof (induction s i len rule: quote_loop.induct)
  case (1 s i len)
  from "1.prems" show ?case
    by (subst (asm) quote_loop.simps) (use "1.IH" in \<open>force simp: Let_def split: if_splits\<close>)
qed

lemma atom_loop_progress: "atom_loop s i len = (i', len') \<Longrightarrow> i \<le> i'"
proof (induction s i len rule: atom_loop.induct)
  case (1 s i len)
  from "1.prems" show ?case
    by (subst (asm) atom_loop.simps) (use "1.IH" in \<open>force simp: Let_def split: if_splits\<close>)
qed

lemma ew_scan_progress: "i \<le> ew_scan s i"
proof (induction s i rule: ew_scan.induct)
  case (1 s i)
  then show ?case by (subst ew_scan.simps) (force simp: Let_def)
qed

lemma atom_loop_first:
  "chr_at s i \<noteq> 0 \<Longrightarrow> \<not> isspace (chr_at s i) \<Longrightarrow> chr_at s i \<notin> set SPECIALS \<Longrightarrow> atom_loop s i len = (i', len') \<Longrightarrow> i < i'"
  by (subst (asm) atom_loop.simps) (auto dest: atom_loop_progress simp: Let_def)

lemma special_cases: "c \<in> set SPECIALS \<longleftrightarrow> c = LPAREN \<or> c = QUOTE \<or> c = BSLASH \<or> c = RPAREN \<or> c \<in> set punctuation"
  by (auto simp: SPECIALS_def punctuation_def)

function tok_loop :: "bool \<Rightarrow> bytes \<Rightarrow> nat \<Rightarrow> bool \<Rightarrow> tok_state \<Rightarrow> tok_state" where
  "tok_loop fill s i inbracket st =
     (let c = chr_at s i in
      if c = 0 then st
      else if isspace c then tok_loop fill s (i + 1) inbracket st
      else if c = LPAREN then
        (case comment_loop s i 0 0 of (ok, i', len) \<Rightarrow>
           if ok then tok_loop fill s i' inbracket (put_token fill \<lparr>token = LPAREN, tok_ptr = At i, tok_len = len, tok_next = None\<rparr> st)
           else put_token fill \<lparr>token = QUOTE, tok_ptr = At i, tok_len = len, tok_next = None\<rparr> (tok_error i' st))
      else if c = QUOTE then
        (case quote_loop s (i + 1) 0 of (ok, i', len) \<Rightarrow>
           let st = put_token fill \<lparr>token = QUOTE, tok_ptr = At (i + 1), tok_len = len, tok_next = None\<rparr> (if ok then st else tok_error i' st)
           in if ok then tok_loop fill s (i' + 1) inbracket st else st)
      else if c = BSLASH \<or> c = RPAREN then tok_loop fill s (i + 1) inbracket (tok_error i st)
      else let j = ew_scan s (i + 2) in
        if c = EQ \<and> chr_at s (i + 1) = QMARK \<and> chr_at s j = QMARK \<and> chr_at s (j + 1) = EQ then
          tok_loop fill s (j + 2) inbracket (put_token fill \<lparr>token = 0, tok_ptr = At i, tok_len = j + 2 - i, tok_next = None\<rparr> st)
        else if c \<in> set punctuation then
          (if c = LT \<and> inbracket \<or> c = GT \<and> \<not> inbracket then tok_loop fill s (i + 1) inbracket (tok_error i st)
           else
             let inbracket = (if c = LT then True else if c = GT then False else inbracket);
                 st = put_token fill \<lparr>token = c, tok_ptr = At i, tok_len = 1, tok_next = None\<rparr> st;
                 st = (if c = LT \<and> chr_at s (i + 1) = GT then put_token fill \<lparr>token = 0, tok_ptr = Empty, tok_len = 0, tok_next = None\<rparr> st else st)
             in tok_loop fill s (i + 1) inbracket st)
        else (case atom_loop s i 0 of (i', len) \<Rightarrow>
          if i' = 0 then
            tok_loop fill s (i' + 1) inbracket (put_token fill \<lparr>token = QUOTE, tok_ptr = At i', tok_len = 1, tok_next = None\<rparr> (tok_error i' st))
          else tok_loop fill s i' inbracket (put_token fill \<lparr>token = 0, tok_ptr = At i, tok_len = len, tok_next = None\<rparr> st)))"
  by pat_completeness auto
termination
proof (relation "measure (\<lambda>(fill, s, i, inbracket, st). length s - i)", goal_cases)
  case 1
  show ?case by simp
next
  case (2 fill s i inbracket st c)
  then show ?case by auto
next
  case (3 fill s i inbracket st c ok r i' len)
  then have "chr_at s i \<noteq> 0" by simp
  then have "i < length s" by (rule chr_at_length)
  with 3 comment_loop_progress[of s i 0 0 True i' len] show ?case by auto
next
  case (4 fill s i inbracket st c ok r i' len)
  then have "chr_at s i \<noteq> 0" by simp
  then have "i < length s" by (rule chr_at_length)
  with 4 quote_loop_progress[of s "i + 1" 0 True i' len] show ?case by auto
next
  case (5 fill s i inbracket st c)
  then show ?case by auto
next
  case (6 fill s i inbracket st c j)
  then have "chr_at s i \<noteq> 0" by simp
  then have "i < length s" by (rule chr_at_length)
  moreover have "i + 2 \<le> j" using 6 ew_scan_progress[of "i + 2" s] by simp
  ultimately show ?case by simp
next
  case (7 fill s i inbracket st c)
  then show ?case by auto
next
  case (8 fill s i inbracket st c)
  then show ?case by auto
next
  case (9 fill s i inbracket st c j i' len)
  then have "chr_at s i \<noteq> 0" by simp
  then have "i < length s" by (rule chr_at_length)
  with 9 atom_loop_progress[of s i 0 i' len] show ?case by auto
next
  case (10 fill s i inbracket st c j i' len)
  then have "chr_at s i \<noteq> 0" by simp
  then have "i < length s" by (rule chr_at_length)
  with 10 atom_loop_first[of s i 0 i' len] show ?case by (auto simp: special_cases)
qed

declare tok_loop.simps [simp del]

definition tok_init :: tok_state where
  "tok_init = \<lparr>tok_out = [], toklen = 0, tok_errs = []\<rparr>"

definition tokenize :: "bool \<Rightarrow> bytes \<Rightarrow> tok_state" where
  "tokenize fill p = tok_loop fill p 0 False tok_init"

text \<open>Counting first, then an array of that many tokens (zeroed by \<open>calloc\<close>) is filled.\<close>

record rfc822t =
  tokens :: "rfc822token list"
  ntokens :: nat

definition rfc822t_alloc_new :: "bytes \<Rightarrow> rfc822t \<times> nat list" where
  "rfc822t_alloc_new addr =
     (let st = tokenize False addr;
          arr = replicate (toklen st) \<lparr>token = 0, tok_ptr = Null, tok_len = 0, tok_next = None\<rparr>;
          st' = tokenize True addr
      in (\<lparr>tokens = memcpy_at arr 0 (tok_out st'), ntokens = toklen st'\<rparr>, tok_errs st))"

section \<open>A lexer on lists\<close>

text \<open>
  The reference: the text of a comment, of a quoted string and of an encoded word at the beginning of a
  text, with what follows it.
\<close>

fun comment_text :: "nat \<Rightarrow> bytes \<Rightarrow> (bytes \<times> bytes) option" where
  "comment_text d [] = None"
| "comment_text d [c] = (if c = RPAREN \<and> d = 1 then Some ([c], []) else None)"
| "comment_text d (c # e # cs) =
     (if c = RPAREN \<and> d = 1 then Some ([c], e # cs)
      else if c = BSLASH then map_option (\<lambda>(t, r). (c # e # t, r)) (comment_text d cs)
      else map_option (\<lambda>(t, r). (c # t, r))
        (comment_text (if c = LPAREN then d + 1 else if c = RPAREN then d - 1 else d) (e # cs)))"

fun quote_text :: "bytes \<Rightarrow> (bytes \<times> bytes) option" where
  "quote_text [] = None"
| "quote_text [c] = (if c = QUOTE then Some ([], []) else None)"
| "quote_text (c # e # cs) =
     (if c = QUOTE then Some ([], e # cs)
      else if c = BSLASH then map_option (\<lambda>(t, r). (c # e # t, r)) (quote_text cs)
      else map_option (\<lambda>(t, r). (c # t, r)) (quote_text (e # cs)))"

fun ew_text :: "bytes \<Rightarrow> (bytes \<times> bytes) option" where
  "ew_text [] = None"
| "ew_text (c # cs) =
     (if c = QMARK \<and> cs \<noteq> [] \<and> hd cs = EQ then Some ([c, EQ], tl cs)
      else if c \<noteq> QMARK \<and> c \<noteq> EQ \<and> (c \<in> set RFC822_SPECIALS \<or> isspace c) then None
      else map_option (\<lambda>(t, r). (c # t, r)) (ew_text cs))"

definition plain :: "u8 \<Rightarrow> bool" where
  "plain c \<longleftrightarrow> \<not> isspace c \<and> c \<notin> set SPECIALS"

lemma comment_text_split: "comment_text d s = Some (t, r) \<Longrightarrow> s = t @ r \<and> t \<noteq> []"
  by (induction d s arbitrary: t r rule: comment_text.induct) (auto split: if_splits)

lemma quote_text_split: "quote_text s = Some (t, r) \<Longrightarrow> s = t @ QUOTE # r"
  by (induction s arbitrary: t r rule: quote_text.induct) (auto split: if_splits)

lemma ew_text_split: "ew_text s = Some (t, r) \<Longrightarrow> s = t @ r"
proof (induction s arbitrary: t r)
  case (Cons c cs)
  then show ?case by (cases cs) (auto split: if_splits)
qed simp

lemma text_len:
  "comment_text d s = Some (t, r) \<Longrightarrow> length r < length s"
  "quote_text s = Some (t, r) \<Longrightarrow> length r < length s"
  "ew_text s = Some (t, r) \<Longrightarrow> length r \<le> length s"
  by (auto dest: comment_text_split quote_text_split ew_text_split)

text \<open>Tokens with their texts, and whether there was an error.\<close>

function (sequential) lex :: "bool \<Rightarrow> bytes \<Rightarrow> (u8 \<times> bytes) list \<times> bool" where
  "lex inb [] = ([], False)"
| "lex inb (c # cs) =
     (if isspace c then lex inb cs
      else if c = LPAREN then
        (case comment_text 0 (c # cs) of
           Some (t, r) \<Rightarrow> (case lex inb r of (ts, e) \<Rightarrow> ((LPAREN, t) # ts, e))
         | None \<Rightarrow> ([(QUOTE, c # cs)], True))
      else if c = QUOTE then
        (case quote_text cs of
           Some (t, r) \<Rightarrow> (case lex inb r of (ts, e) \<Rightarrow> ((QUOTE, t) # ts, e))
         | None \<Rightarrow> ([(QUOTE, cs)], True))
      else if c = BSLASH \<or> c = RPAREN then (case lex inb cs of (ts, e) \<Rightarrow> (ts, True))
      else case (if c = EQ \<and> cs \<noteq> [] \<and> hd cs = QMARK then ew_text (tl cs) else None) of
          Some (t, r) \<Rightarrow> (case lex inb r of (ts, e) \<Rightarrow> ((0, c # QMARK # t) # ts, e))
        | None \<Rightarrow>
            if c \<in> set punctuation then
              (if c = LT \<and> inb \<or> c = GT \<and> \<not> inb then (case lex inb cs of (ts, e) \<Rightarrow> (ts, True))
               else case lex (if c = LT then True else if c = GT then False else inb) cs of (ts, e) \<Rightarrow>
                 ((c, [c]) # (if c = LT \<and> cs \<noteq> [] \<and> hd cs = GT then [(0, [])] else []) @ ts, e))
            else (case lex inb (dropWhile plain cs) of (ts, e) \<Rightarrow> ((0, c # takeWhile plain cs) # ts, e)))"
  by pat_completeness auto
termination
  by (relation "measure (\<lambda>(inb, s). length s)")
    (auto dest!: text_len split: if_splits simp: less_Suc_eq_le length_dropWhile_le)

declare lex.simps(2) [simp del]

section \<open>The tokenizer is the lexer\<close>

definition tok_view :: "bytes \<Rightarrow> rfc822token \<Rightarrow> u8 \<times> bytes" where
  "tok_view s t = (token t, case tok_ptr t of At p \<Rightarrow> take (tok_len t) (drop p s) | _ \<Rightarrow> [])"

lemma tok_view_next [simp]: "tok_view s (t\<lparr>tok_next := p\<rparr>) = tok_view s t"
  by (simp add: tok_view_def split: tok_pointer.split)

text \<open>The text of a token lies inside the text.\<close>

definition in_text :: "bytes \<Rightarrow> rfc822token \<Rightarrow> bool" where
  "in_text s t \<longleftrightarrow> (case tok_ptr t of Null \<Rightarrow> False | Empty \<Rightarrow> tok_len t = 0 | At p \<Rightarrow> p + tok_len t \<le> length s)"

text \<open>The tokens lie between the offsets \<open>i\<close> and \<open>e\<close>, in order.\<close>

fun placed :: "nat \<Rightarrow> rfc822token list \<Rightarrow> nat \<Rightarrow> bool" where
  "placed i [] e \<longleftrightarrow> i \<le> e"
| "placed i (t # ts) e \<longleftrightarrow> (case tok_ptr t of Null \<Rightarrow> False | Empty \<Rightarrow> tok_len t = 0 \<and> placed i ts e
     | At p \<Rightarrow> i \<le> p \<and> placed (p + tok_len t) ts e)"

text \<open>A token with the empty literal is an atom, and only found after an opening angle bracket.\<close>

fun empty_ok :: "bool \<Rightarrow> rfc822token list \<Rightarrow> bool" where
  "empty_ok lt [] \<longleftrightarrow> True"
| "empty_ok lt (t # ts) \<longleftrightarrow> (tok_ptr t = Empty \<longrightarrow> lt \<and> token t = 0) \<and> empty_ok (token t = LT) ts"

lemma placed_mono: "placed i ts e \<Longrightarrow> i' \<le> i \<Longrightarrow> placed i' ts e"
  by (induction i ts e rule: placed.induct) (auto split: tok_pointer.splits)

lemma placed_append: "placed i ts k \<Longrightarrow> placed k ts' e \<Longrightarrow> placed i (ts @ ts') e"
  by (induction i ts k rule: placed.induct) (auto intro: placed_mono split: tok_pointer.splits)

lemma placed_le: "placed i ts e \<Longrightarrow> i \<le> e"
  by (induction i ts e rule: placed.induct) (auto split: tok_pointer.splits)

lemma placed_in_text: "placed i ts (length s) \<Longrightarrow> t \<in> set ts \<Longrightarrow> in_text s t"
proof (induction i ts "length s" rule: placed.induct)
  case (2 i u ts)
  then show ?case by (auto simp: in_text_def dest: placed_le split: tok_pointer.splits)
qed simp

lemma empty_ok_mono: "empty_ok False ts \<Longrightarrow> empty_ok lt ts"
  by (cases ts) auto

lemma empty_ok_append: "empty_ok lt ts \<Longrightarrow> empty_ok False ts' \<Longrightarrow> empty_ok lt (ts @ ts')"
  by (induction ts arbitrary: lt) (auto intro: empty_ok_mono)

lemma chr_at_drop: "i < length s \<Longrightarrow> drop i s = chr_at s i # drop (i + 1) s"
  by (simp add: chr_at_def takeWhile_drop_nth)

lemma chr_at_0: "0 \<notin> set s \<Longrightarrow> chr_at s i = 0 \<longleftrightarrow> length s \<le> i"
  by (auto simp: chr_at_def dest: nth_mem)

lemma drop_cases:
  assumes "i \<le> length s" "0 \<notin> set s"
  obtains (Nil) "i = length s" "drop i s = []" "chr_at s i = 0"
    | (single) "i + 1 = length s" "drop i s = [chr_at s i]" "chr_at s i \<noteq> 0" "chr_at s (i + 1) = 0"
    | (more) "i + 1 < length s" "drop i s = chr_at s i # chr_at s (i + 1) # drop (i + 2) s"
        "chr_at s i \<noteq> 0" "chr_at s (i + 1) \<noteq> 0"
proof -
  consider "i = length s" | "i + 1 = length s" | "i + 1 < length s" using assms(1) by linarith
  then show thesis
  proof cases
    case 1
    then show thesis using assms by (intro Nil) (simp_all add: chr_at_0)
  next
    case 2
    then show thesis using assms chr_at_drop[of i s] by (intro single) (simp_all add: chr_at_0)
  next
    case 3
    then show thesis using assms chr_at_drop[of i s] chr_at_drop[of "i + 1" s]
      by (intro more) (simp_all add: chr_at_0)
  qed
qed

lemma comment_loop_text:
  "i \<le> length s \<Longrightarrow> 0 \<notin> set s \<Longrightarrow> d = 0 \<longrightarrow> chr_at s i = LPAREN \<Longrightarrow>
   comment_loop s i (int d) len = (case comment_text d (drop i s) of
     Some (t, r) \<Rightarrow> (True, i + length t, len + length t)
   | None \<Rightarrow> (False, length s, len + (length s - i)))"
proof (induction "length s - i" arbitrary: i d len rule: less_induct)
  case less
  from less.prems(1,2) show ?case
  proof (cases rule: drop_cases)
    case Nil
    then show ?thesis by (subst comment_loop.simps) simp
  next
    case single
    have stop: "comment_loop s (i + 1) l n = (False, i + 1, n)" for l n
      using single by (subst comment_loop.simps) simp
    show ?thesis
      using single less.prems(3) stop by (subst comment_loop.simps) (auto simp: Let_def)
  next
    case more
    let ?c = "chr_at s i"
    define d' where "d' = (if ?c = LPAREN then d + 1 else if ?c = RPAREN then d - 1 else d)"
    show ?thesis
    proof (cases "?c = RPAREN \<and> d = 1")
      case True
      then show ?thesis using more by (subst comment_loop.simps) (simp add: Let_def)
    next
      case close: False
      show ?thesis
      proof (cases "?c = BSLASH")
        case True
        then have "comment_loop s i (int d) len = comment_loop s (i + 2) (int d) (len + 2)"
          using more by (subst comment_loop.simps) (simp add: Let_def)
        also have "\<dots> = (case comment_text d (drop (i + 2) s) of
            Some (t, r) \<Rightarrow> (True, i + 2 + length t, len + 2 + length t)
          | None \<Rightarrow> (False, length s, len + 2 + (length s - (i + 2))))"
          using more True less.prems by (intro less.hyps) auto
        finally show ?thesis using more True by (auto split: option.splits)
      next
        case False
        have pos: "0 < d'" "?c \<noteq> LPAREN \<longrightarrow> 0 < d" using close less.prems(3) by (auto simp: d'_def)
        have "comment_loop s i (int d) len = comment_loop s (i + 1) (int d') (len + 1)"
          using more close False pos by (subst comment_loop.simps) (auto simp: Let_def d'_def of_nat_diff add.commute)
        also have "\<dots> = (case comment_text d' (drop (i + 1) s) of
            Some (t, r) \<Rightarrow> (True, i + 1 + length t, len + 1 + length t)
          | None \<Rightarrow> (False, length s, len + 1 + (length s - (i + 1))))"
          using more less.prems pos by (intro less.hyps) auto
        finally show ?thesis using more close False chr_at_drop[of "i + 1" s]
          by (auto simp: d'_def split: option.splits)
      qed
    qed
  qed
qed

lemma quote_loop_text:
  "i \<le> length s \<Longrightarrow> 0 \<notin> set s \<Longrightarrow>
   quote_loop s i len = (case quote_text (drop i s) of
     Some (t, r) \<Rightarrow> (True, i + length t, len + length t)
   | None \<Rightarrow> (False, length s, len + (length s - i)))"
proof (induction "length s - i" arbitrary: i len rule: less_induct)
  case less
  from less.prems(1,2) show ?case
  proof (cases rule: drop_cases)
    case Nil
    then show ?thesis by (subst quote_loop.simps) simp
  next
    case single
    have stop: "quote_loop s (i + 1) n = (False, i + 1, n)" for n
      using single by (subst quote_loop.simps) simp
    show ?thesis
      using single stop by (subst quote_loop.simps) (auto simp: Let_def)
  next
    case more
    show ?thesis
    proof (cases "chr_at s i = BSLASH")
      case True
      then have "quote_loop s i len = quote_loop s (i + 2) (len + 2)"
        using more by (subst quote_loop.simps) (simp add: Let_def)
      also have "\<dots> = (case quote_text (drop (i + 2) s) of
          Some (t, r) \<Rightarrow> (True, i + 2 + length t, len + 2 + length t)
        | None \<Rightarrow> (False, length s, len + 2 + (length s - (i + 2))))"
        using more less.prems by (intro less.hyps) auto
      finally show ?thesis using more True by (auto split: option.splits)
    next
      case False
      show ?thesis
      proof (cases "chr_at s i = QUOTE")
        case True
        then show ?thesis using more by (subst quote_loop.simps) simp
      next
        case noq: False
        have "quote_loop s i len = quote_loop s (i + 1) (len + 1)"
          using more False noq by (subst quote_loop.simps) (simp add: Let_def)
        also have "\<dots> = (case quote_text (drop (i + 1) s) of
            Some (t, r) \<Rightarrow> (True, i + 1 + length t, len + 1 + length t)
          | None \<Rightarrow> (False, length s, len + 1 + (length s - (i + 1))))"
          using more less.prems by (intro less.hyps) auto
        finally show ?thesis using more False noq chr_at_drop[of "i + 1" s]
          by (auto split: option.splits)
      qed
    qed
  qed
qed

lemma ew_scan_text:
  "i \<le> length s \<Longrightarrow> 0 \<notin> set s \<Longrightarrow>
   (case ew_text (drop i s) of
      Some (t, r) \<Rightarrow> chr_at s (ew_scan s i) = QMARK \<and> chr_at s (ew_scan s i + 1) = EQ \<and> ew_scan s i + 2 = i + length t
    | None \<Rightarrow> \<not> (chr_at s (ew_scan s i) = QMARK \<and> chr_at s (ew_scan s i + 1) = EQ))"
proof (induction "length s - i" arbitrary: i rule: less_induct)
  case less
  show ?case
  proof (cases "i = length s")
    case True
    then have "ew_scan s i = i" using less.prems by (subst ew_scan.simps) (simp add: chr_at_0)
    with True less.prems show ?thesis by (simp add: chr_at_def)
  next
    case False
    then have i: "i < length s" using less.prems by simp
    let ?c = "chr_at s i"
    have d: "drop i s = ?c # drop (i + 1) s" "?c \<noteq> 0" using i less.prems(2) by (simp_all add: chr_at_drop chr_at_0)
    have nxt: "drop (i + 1) s \<noteq> [] \<and> hd (drop (i + 1) s) = EQ \<longleftrightarrow> chr_at s (i + 1) = EQ"
      by (auto simp: chr_at_def hd_drop_conv_nth)
    consider (ends) "?c = QMARK" "chr_at s (i + 1) = EQ"
      | (stops) "\<not> (?c = QMARK \<and> chr_at s (i + 1) = EQ)" "?c \<noteq> QMARK" "?c \<noteq> EQ" "?c \<in> set RFC822_SPECIALS \<or> isspace ?c"
      | (goes) "\<not> (?c = QMARK \<and> chr_at s (i + 1) = EQ)"
          "\<not> (?c \<noteq> QMARK \<and> ?c \<noteq> EQ \<and> (?c \<in> set RFC822_SPECIALS \<or> isspace ?c))" by blast
    then show ?thesis
    proof cases
      case ends
      then have "ew_scan s i = i" by (subst ew_scan.simps) simp
      moreover have "ew_text (drop i s) = Some ([QMARK, EQ], tl (drop (i + 1) s))" using ends d nxt by simp
      ultimately show ?thesis using ends by simp
    next
      case stops
      then have "ew_scan s i = i" using d(2) by (subst ew_scan.simps) (simp add: Let_def)
      moreover have "ew_text (drop i s) = None" using stops d by simp
      ultimately show ?thesis using stops by simp
    next
      case goes
      have e: "ew_scan s i = ew_scan s (i + 1)" using goes d(2) by (subst ew_scan.simps) (auto simp: Let_def)
      have t: "ew_text (drop i s) = map_option (\<lambda>(t, r). (?c # t, r)) (ew_text (drop (i + 1) s))"
        unfolding d(1) ew_text.simps using goes nxt by auto
      have "case ew_text (drop (i + 1) s) of
          Some (t, r) \<Rightarrow> chr_at s (ew_scan s (i + 1)) = QMARK \<and> chr_at s (ew_scan s (i + 1) + 1) = EQ \<and>
            ew_scan s (i + 1) + 2 = i + 1 + length t
        | None \<Rightarrow> \<not> (chr_at s (ew_scan s (i + 1)) = QMARK \<and> chr_at s (ew_scan s (i + 1) + 1) = EQ)"
        using i less.prems by (intro less.hyps) auto
      then show ?thesis unfolding e t by (auto split: option.splits)
    qed
  qed
qed

lemma atom_loop_text:
  "i \<le> length s \<Longrightarrow> 0 \<notin> set s \<Longrightarrow>
   atom_loop s i len = (i + length (takeWhile plain (drop i s)), len + length (takeWhile plain (drop i s)))"
proof (induction "length s - i" arbitrary: i len rule: less_induct)
  case less
  show ?case
  proof (cases "i < length s")
    case False
    then show ?thesis using less.prems by (subst atom_loop.simps) (simp add: chr_at_0)
  next
    case True
    then have d: "drop i s = chr_at s i # drop (i + 1) s" "chr_at s i \<noteq> 0"
      using less.prems(2) by (simp_all add: chr_at_drop chr_at_0)
    have "atom_loop s (i + 1) (len + 1) = (i + 1 + length (takeWhile plain (drop (i + 1) s)),
        len + 1 + length (takeWhile plain (drop (i + 1) s)))"
      using True less.prems by (intro less.hyps) auto
    with d show ?thesis by (subst atom_loop.simps) (auto simp: Let_def plain_def)
  qed
qed

text \<open>The state after the tokens \<open>ts\<close> and the errors \<open>es\<close>.\<close>

definition extend :: "bool \<Rightarrow> rfc822token list \<Rightarrow> nat list \<Rightarrow> tok_state \<Rightarrow> tok_state" where
  "extend fill ts es st = \<lparr>tok_out = tok_out st @ (if fill then ts else []), toklen = toklen st + length ts,
     tok_errs = tok_errs st @ es\<rparr>"

lemma extend_simps [simp]:
  "put_token fill t st = extend fill [t] [] st"
  "extend fill ts es (extend fill ts' es' st) = extend fill (ts' @ ts) (es' @ es) st"
  "extend fill [] [] st = st"
  by (simp_all add: extend_def put_token_def)

lemma tok_error_extend: "tok_error i st = extend fill [] [i] st"
  by (simp add: extend_def tok_error_def)

definition tok_good :: "bytes \<Rightarrow> nat \<Rightarrow> (u8 \<times> bytes) list \<times> bool \<Rightarrow> bool \<Rightarrow> tok_state \<Rightarrow> tok_state \<Rightarrow> bool" where
  "tok_good s i l fill st st' \<longleftrightarrow> (\<exists>ts es. st' = extend fill ts es st \<and> map (tok_view s) ts = fst l \<and>
     (es \<noteq> [] \<longleftrightarrow> snd l) \<and> placed i ts (length s) \<and> empty_ok False ts)"

lemma tok_good_step:
  assumes "tok_good s k l fill (extend fill ts es st) st'"
    and "fst l' = map (tok_view s) ts @ fst l" "snd l' \<longleftrightarrow> es \<noteq> [] \<or> snd l" "placed i ts k" "empty_ok False ts"
  shows "tok_good s i l' fill st st'"
proof -
  from assms(1) obtain ts' es' where *: "st' = extend fill ts' es' (extend fill ts es st)"
    "map (tok_view s) ts' = fst l" "es' \<noteq> [] \<longleftrightarrow> snd l" "placed k ts' (length s)" "empty_ok False ts'"
    by (auto simp: tok_good_def)
  then have "placed i (ts @ ts') (length s)" "empty_ok False (ts @ ts')"
    using assms(4,5) by (blast intro: placed_append empty_ok_append)+
  with * assms(2,3) show ?thesis
    unfolding tok_good_def by (intro exI[of _ "ts @ ts'"] exI[of _ "es @ es'"]) auto
qed

lemma tok_good_end:
  "fst l = map (tok_view s) ts \<Longrightarrow> (snd l \<longleftrightarrow> es \<noteq> []) \<Longrightarrow> placed i ts (length s) \<Longrightarrow> empty_ok False ts \<Longrightarrow>
   tok_good s i l fill st (extend fill ts es st)"
  by (auto simp: tok_good_def)

text \<open>One lemma for each way the loop goes on; \<open>tok_rest\<close> is the induction hypothesis.\<close>

definition tok_rest :: "bytes \<Rightarrow> nat \<Rightarrow> bool \<Rightarrow> bool" where
  "tok_rest s i fill \<longleftrightarrow> (\<forall>k b st. i < k \<and> k \<le> length s \<longrightarrow> tok_good s k (lex b (drop k s)) fill st (tok_loop fill s k b st))"

lemma tok_rest_step:
  assumes "tok_rest s i fill" "i < k" "k \<le> length s"
    and "fst l' = map (tok_view s) ts @ fst (lex b (drop k s))" "snd l' \<longleftrightarrow> es \<noteq> [] \<or> snd (lex b (drop k s))"
    and "placed i ts k" "empty_ok False ts"
  shows "tok_good s i l' fill st (tok_loop fill s k b (extend fill ts es st))"
  using assms tok_good_step[of s k "lex b (drop k s)" fill ts es st] by (simp add: tok_rest_def)

lemma drop_take_eq: "drop i s = t @ r \<Longrightarrow> i \<le> length s \<Longrightarrow>
    r = drop (i + length t) s \<and> i + length t \<le> length s \<and> t = take (length t) (drop i s)"
  by (metis add.commute append_eq_conv_conj drop_drop drop_append append_Nil2 length_append length_drop le_add1
      le_add_diff_inverse nat_add_left_cancel_le)

lemma tok_loop_comment:
  assumes "tok_rest s i fill" "i < length s" "0 \<notin> set s" "\<not> isspace (chr_at s i)" "chr_at s i = LPAREN"
  shows "tok_good s i (lex inb (drop i s)) fill st (tok_loop fill s i inb st)"
proof -
  note lx = chr_at_drop[OF assms(2)] lex.simps(2)
  note L = comment_loop_text[of i s 0 0, simplified]
  show ?thesis
  proof (cases "comment_text 0 (drop i s)")
    case None
    let ?t = "\<lparr>token = QUOTE, tok_ptr = At i, tok_len = length s - i, tok_next = None\<rparr>"
    have "tok_loop fill s i inb st = extend fill [?t] [length s] st"
      using assms L None by (subst tok_loop.simps) (simp add: tok_error_extend[of _ _ fill])
    moreover have "lex inb (drop i s) = ([(QUOTE, drop i s)], True)" using None assms unfolding lx by simp
    ultimately show ?thesis by (simp add: tok_good_end tok_view_def assms(2) less_imp_le)
  next
    case (Some tr)
    obtain t r where tr: "tr = (t, r)" by (cases tr)
    have split: "drop i s = t @ r" "t \<noteq> []" using comment_text_split[OF Some[unfolded tr]] by simp_all
    let ?t = "\<lparr>token = LPAREN, tok_ptr = At i, tok_len = length t, tok_next = None\<rparr>"
    have "tok_loop fill s i inb st = tok_loop fill s (i + length t) inb (extend fill [?t] [] st)"
      using assms L Some tr by (subst tok_loop.simps) simp
    moreover have "lex inb (drop i s) = (case lex inb r of (ts, e) \<Rightarrow> ((LPAREN, t) # ts, e))"
      using Some tr assms unfolding lx by simp
    ultimately show ?thesis
      using tok_rest_step[OF assms(1), of "i + length t" "lex inb (drop i s)" "[?t]" inb "[]"] drop_take_eq[OF split(1)] split(2) assms(2)
      by (simp add: tok_view_def split: prod.splits)
  qed
qed

lemma tok_loop_quote:
  assumes "tok_rest s i fill" "i < length s" "0 \<notin> set s" "\<not> isspace (chr_at s i)" "chr_at s i = QUOTE"
  shows "tok_good s i (lex inb (drop i s)) fill st (tok_loop fill s i inb st)"
proof -
  note lx = chr_at_drop[OF assms(2)] lex.simps(2)
  note L = quote_loop_text[of "i + 1" s 0, simplified]
  show ?thesis
  proof (cases "quote_text (drop (i + 1) s)")
    case None
    let ?t = "\<lparr>token = QUOTE, tok_ptr = At (i + 1), tok_len = length s - (i + 1), tok_next = None\<rparr>"
    have "tok_loop fill s i inb st = extend fill [?t] [length s] st"
      using assms L None by (subst tok_loop.simps) (simp add: tok_error_extend[of _ _ fill])
    moreover have "lex inb (drop i s) = ([(QUOTE, drop (i + 1) s)], True)" using None assms unfolding lx by simp
    ultimately show ?thesis using assms(2) by (simp add: tok_good_end tok_view_def)
  next
    case (Some tr)
    obtain t r where tr: "tr = (t, r)" by (cases tr)
    have split: "drop (i + 1) s = t @ QUOTE # r" using quote_text_split[OF Some[unfolded tr]] .
    let ?t = "\<lparr>token = QUOTE, tok_ptr = At (i + 1), tok_len = length t, tok_next = None\<rparr>" and ?k = "i + 1 + length t + 1"
    have t: "t = take (length t) (drop (i + 1) s)" using split by simp
    have k: "r = drop ?k s" "?k \<le> length s" using drop_take_eq[of "i + 1" s "t @ [QUOTE]" r] split assms(2) by simp_all
    have "tok_loop fill s i inb st = tok_loop fill s ?k inb (extend fill [?t] [] st)"
      using assms L Some tr by (subst tok_loop.simps) simp
    moreover have "lex inb (drop i s) = (case lex inb r of (ts, e) \<Rightarrow> ((QUOTE, t) # ts, e))"
      using Some tr assms unfolding lx by simp
    moreover have "tok_view s ?t = (QUOTE, t)" using t by (simp add: tok_view_def)
    ultimately show ?thesis
      using tok_rest_step[OF assms(1), of ?k "lex inb (drop i s)" "[?t]" inb "[]" st] k
      by (simp split: prod.splits)
  qed
qed

lemma tok_loop_other:
  assumes "tok_rest s i fill" "i < length s" "0 \<notin> set s" "\<not> isspace (chr_at s i)"
    and "chr_at s i \<noteq> LPAREN" "chr_at s i \<noteq> QUOTE" "chr_at s i \<noteq> BSLASH" "chr_at s i \<noteq> RPAREN"
  shows "tok_good s i (lex inb (drop i s)) fill st (tok_loop fill s i inb st)"
proof -
  let ?c = "chr_at s i" and ?cs = "drop (i + 1) s"
  note d = chr_at_drop[OF assms(2)]
  note lx = d lex.simps(2)
  have c: "?c \<noteq> 0" using assms(2,3) by (simp add: chr_at_0)
  have nxt: "?cs \<noteq> [] \<and> hd ?cs = x \<longleftrightarrow> chr_at s (i + 1) = x" if "x \<noteq> 0" for x
    using that by (auto simp: chr_at_def hd_drop_conv_nth)
  let ?ew = "?c = EQ \<and> chr_at s (i + 1) = QMARK \<and> chr_at s (ew_scan s (i + 2)) = QMARK \<and> chr_at s (ew_scan s (i + 2) + 1) = EQ"
  let ?et = "if ?c = EQ \<and> ?cs \<noteq> [] \<and> hd ?cs = QMARK then ew_text (tl ?cs) else None"
  have ew: "if ?ew then \<exists>t r. ?et = Some (t, r) \<and> ew_scan s (i + 2) + 2 = i + 2 + length t else ?et = None"
  proof (cases "?c = EQ \<and> chr_at s (i + 1) = QMARK")
    case True
    then have "i + 2 \<le> length s" using assms(2) by (auto simp: chr_at_def split: if_splits)
    then show ?thesis using True ew_scan_text[of "i + 2" s] assms(3) nxt[of QMARK]
      by (auto simp: drop_Suc tl_drop split: option.splits)
  next
    case False
    then show ?thesis using nxt[of QMARK] by auto
  qed
  show ?thesis
  proof (cases ?ew)
    case True
    with ew obtain t r where tr: "?et = Some (t, r)" "ew_scan s (i + 2) + 2 = i + 2 + length t" by auto
    have cs: "?cs = QMARK # drop (i + 2) s" using True chr_at_drop[of "i + 1" s] by (simp add: chr_at_def split: if_splits)
    have et: "ew_text (drop (i + 2) s) = Some (t, r)" using tr(1) True unfolding cs by simp
    have split: "drop i s = (EQ # QMARK # t) @ r" using d cs ew_text_split[OF et] True by simp
    let ?t = "\<lparr>token = 0, tok_ptr = At i, tok_len = 2 + length t, tok_next = None\<rparr>" and ?k = "i + (2 + length t)"
    have k: "r = drop ?k s" "?k \<le> length s" "EQ # QMARK # t = take (2 + length t) (drop i s)"
      using drop_take_eq[OF split] assms(2) by simp_all
    have "tok_loop fill s i inb st = tok_loop fill s ?k inb (extend fill [?t] [] st)"
      using assms c True tr(2) by (subst tok_loop.simps) (simp add: Let_def add.assoc)
    moreover have "lex inb (drop i s) = (case lex inb r of (ts, e) \<Rightarrow> ((0, EQ # QMARK # t) # ts, e))"
      unfolding lx using tr True assms(4-8) by simp
    moreover have "tok_view s ?t = (0, EQ # QMARK # t)" using k(3) by (simp add: tok_view_def)
    ultimately show ?thesis
      using tok_rest_step[OF assms(1), of ?k "lex inb (drop i s)" "[?t]" inb "[]" st] k(1,2)
      by (simp split: prod.splits)
  next
    case new: False
    then have et: "?et = None" using ew by presburger
    show ?thesis
    proof (cases "?c \<in> set punctuation")
      case False
      let ?n = "Suc (length (takeWhile plain ?cs))"
      let ?t = "\<lparr>token = 0, tok_ptr = At i, tok_len = ?n, tok_next = None\<rparr>" and ?k = "i + ?n"
      have "plain ?c" using assms False by (simp add: plain_def special_cases)
      then have L: "atom_loop s i 0 = (?k, ?n)" using atom_loop_text[of i s 0] assms(2,3) d by simp
      have split: "drop i s = (?c # takeWhile plain ?cs) @ dropWhile plain ?cs" using d by simp
      have k: "dropWhile plain ?cs = drop ?k s" "?k \<le> length s" "?c # takeWhile plain ?cs = take ?n (drop i s)"
        using drop_take_eq[OF split] assms(2) by simp_all
      have "tok_loop fill s i inb st = tok_loop fill s ?k inb (extend fill [?t] [] st)"
        using assms c new False L by (subst tok_loop.simps) (auto simp: Let_def)
      moreover have "lex inb (drop i s) = (case lex inb (dropWhile plain ?cs) of (ts, e) \<Rightarrow> ((0, ?c # takeWhile plain ?cs) # ts, e))"
        unfolding lx et using assms(4-8) False by simp
      moreover have "tok_view s ?t = (0, ?c # takeWhile plain ?cs)" using k(3) by (simp add: tok_view_def)
      ultimately show ?thesis
        using tok_rest_step[OF assms(1), of ?k "lex inb (drop i s)" "[?t]" inb "[]" st] k(1,2)
        by (simp split: prod.splits)
    next
      case punct: True
      show ?thesis
      proof (cases "?c = LT \<and> inb \<or> ?c = GT \<and> \<not> inb")
        case True
        then have "tok_loop fill s i inb st = tok_loop fill s (i + 1) inb (extend fill [] [i] st)"
          using assms c new punct by (subst tok_loop.simps) (auto simp: Let_def tok_error_extend[of _ _ fill])
        moreover have "lex inb (drop i s) = (fst (lex inb ?cs), True)"
          unfolding lx et using assms(4-8) punct True by (auto split: prod.splits)
        ultimately show ?thesis
          using tok_rest_step[OF assms(1), of "i + 1" "(fst (lex inb ?cs), True)" "[]" inb "[i]" st] assms(2) by simp
      next
        case False
        let ?b = "if ?c = LT then True else if ?c = GT then False else inb"
        let ?fake = "if ?c = LT \<and> chr_at s (i + 1) = GT then [\<lparr>token = 0, tok_ptr = Empty, tok_len = 0, tok_next = None\<rparr>] else []"
        let ?ts = "\<lparr>token = ?c, tok_ptr = At i, tok_len = 1, tok_next = None\<rparr> # ?fake"
        have "tok_loop fill s i inb st = tok_loop fill s (i + 1) ?b (extend fill ?ts [] st)"
          by (subst tok_loop.simps)
            (simp only: Let_def c assms(4-8) new punct False if_False if_True simp_thms, simp)
        moreover have "lex inb (drop i s) = (case lex ?b ?cs of (ts, e) \<Rightarrow>
            ((?c, [?c]) # (if ?c = LT \<and> ?cs \<noteq> [] \<and> hd ?cs = GT then [(0, [])] else []) @ ts, e))"
          unfolding lx et by (simp only: assms(4-8) punct False if_False if_True option.case simp_thms)
        moreover have "map (tok_view s) ?ts = (?c, [?c]) # (if ?c = LT \<and> ?cs \<noteq> [] \<and> hd ?cs = GT then [(0, [])] else [])"
          using d nxt[of GT] by (simp add: tok_view_def)
        moreover have "placed i ?ts (i + 1)" "empty_ok False ?ts" using assms(2) by simp_all
        ultimately show ?thesis
          using tok_rest_step[OF assms(1), of "i + 1" "lex inb (drop i s)" ?ts ?b "[]" st] assms(2)
          by (simp split: prod.splits)
      qed
    qed
  qed
qed

lemma tok_loop_lex:
  "i \<le> length s \<Longrightarrow> 0 \<notin> set s \<Longrightarrow> tok_good s i (lex inb (drop i s)) fill st (tok_loop fill s i inb st)"
proof (induction "length s - i" arbitrary: i inb st rule: less_induct)
  case less
  have rest: "tok_rest s i fill" unfolding tok_rest_def by (auto intro!: less.hyps less.prems(2))
  show ?case
  proof (cases "i < length s")
    case False
    with less.prems have "chr_at s i = 0" "drop i s = []" by (simp_all add: chr_at_0)
    moreover from this have "tok_loop fill s i inb st = st" by (subst tok_loop.simps) simp
    ultimately show ?thesis using tok_good_end[of "([], False)" s "[]" "[]" i fill st] less.prems by simp
  next
    case i: True
    let ?c = "chr_at s i" and ?cs = "drop (i + 1) s"
    note lx = chr_at_drop[OF i] lex.simps(2)
    have c: "?c \<noteq> 0" using i less.prems(2) by (simp add: chr_at_0)
    consider (space) "isspace ?c" | (bad) "\<not> isspace ?c" "?c = BSLASH \<or> ?c = RPAREN"
      | (comment) "\<not> isspace ?c" "?c = LPAREN" | (quote) "\<not> isspace ?c" "?c = QUOTE"
      | (other) "\<not> isspace ?c" "?c \<noteq> LPAREN" "?c \<noteq> QUOTE" "?c \<noteq> BSLASH" "?c \<noteq> RPAREN" by blast
    then show ?thesis
    proof cases
      case space
      then have "tok_loop fill s i inb st = tok_loop fill s (i + 1) inb st"
        using c by (subst tok_loop.simps) simp
      moreover have "lex inb (drop i s) = lex inb ?cs" unfolding lx using space by simp
      ultimately show ?thesis using tok_rest_step[OF rest, of "i + 1" _ "[]" inb "[]"] i by simp
    next
      case bad
      then have "tok_loop fill s i inb st = tok_loop fill s (i + 1) inb (extend fill [] [i] st)"
        using c by (subst tok_loop.simps) (auto simp: tok_error_extend[of _ _ fill])
      moreover have "lex inb (drop i s) = (fst (lex inb ?cs), True)" unfolding lx using bad by (auto split: prod.splits)
      ultimately show ?thesis
        using tok_rest_step[OF rest, of "i + 1" "(fst (lex inb ?cs), True)" "[]" inb "[i]"] i by simp
    qed (use rest i less.prems(2) in \<open>auto intro: tok_loop_comment tok_loop_quote tok_loop_other\<close>)
  qed
qed

lemma tokenize_lex: "0 \<notin> set s \<Longrightarrow> tok_good s 0 (lex False s) fill tok_init (tokenize fill s)"
  using tok_loop_lex[of 0 s False fill tok_init] by (simp add: tokenize_def)

lemma tok_good_count: "tok_good s i l False st st1 \<Longrightarrow> tok_good s i l True st st2 \<Longrightarrow> toklen st1 = toklen st2"
proof -
  assume *: "tok_good s i l False st st1" "tok_good s i l True st st2"
  obtain ts1 es1 where "st1 = extend False ts1 es1 st" "map (tok_view s) ts1 = fst l"
    using *(1) by (auto simp: tok_good_def)
  moreover obtain ts2 es2 where "st2 = extend True ts2 es2 st" "map (tok_view s) ts2 = fst l"
    using *(2) by (auto simp: tok_good_def)
  ultimately show ?thesis using map_eq_imp_length_eq[of "tok_view s" ts1 "tok_view s" ts2] by (simp add: extend_def)
qed

lemma alloc_new_lex:
  assumes "0 \<notin> set s"
  obtains ts es where "rfc822t_alloc_new s = (\<lparr>tokens = ts, ntokens = length ts\<rparr>, es)"
    "map (tok_view s) ts = fst (lex False s)" "es \<noteq> [] \<longleftrightarrow> snd (lex False s)" "placed 0 ts (length s)" "empty_ok False ts"
    "tokenize False s = \<lparr>tok_out = [], toklen = length ts, tok_errs = es\<rparr>" "tok_out (tokenize True s) = ts"
proof -
  note T = tokenize_lex[OF assms]
  obtain ts es where 1: "tokenize True s = extend True ts es tok_init" "map (tok_view s) ts = fst (lex False s)"
    "placed 0 ts (length s)" "empty_ok False ts" using T[of True] by (auto simp: tok_good_def)
  obtain ts' es' where 2: "tokenize False s = extend False ts' es' tok_init" "es' \<noteq> [] \<longleftrightarrow> snd (lex False s)"
    using T[of False] by (auto simp: tok_good_def)
  have "length ts' = length ts"
    using tok_good_count[OF T T] 1(1) 2(1) by (simp add: extend_def tok_init_def)
  with 1 2 show thesis
    by (intro that[of ts es']) (simp_all add: rfc822t_alloc_new_def extend_def tok_init_def Let_def memcpy_at_def)
qed

section \<open>Printing tokens\<close>

definition rfc822_is_atom :: "u8 \<Rightarrow> bool" where
  "rfc822_is_atom p \<longleftrightarrow> p = 0 \<or> p = QUOTE \<or> p = LPAREN"

fun print_quoted :: "bytes \<Rightarrow> bytes" where
  "print_quoted [] = []"
| "print_quoted [c] = (if c = QUOTE \<or> c = BSLASH then [BSLASH, c] else [c])"
| "print_quoted (c # e # cs) =
     (if c = BSLASH then BSLASH # e # print_quoted cs
      else (if c = QUOTE then [BSLASH, c] else [c]) @ print_quoted (e # cs))"

text \<open>The argument \<open>s\<close> is the memory that the tokens point into.\<close>

definition print_token :: "bytes \<Rightarrow> rfc822token \<Rightarrow> bytes" where
  "print_token s t =
     (if token t = 0 \<or> token t = LPAREN then snd (tok_view s t)
      else if token t \<noteq> QUOTE then [token t]
      else [QUOTE] @ print_quoted (snd (tok_view s t)) @ [QUOTE])"

text \<open>
  A list of tokens is a pointer to a token of the array \<open>arr\<close>.  The loop over a list that is circular or
  leaves the array has no result.
\<close>

partial_function (option) tok_print_loop :: "bytes \<Rightarrow> rfc822token list \<Rightarrow> bool \<Rightarrow> nat option \<Rightarrow> bytes option" where
  "tok_print_loop s arr prev_isatom p =
     (if p = None then Some []
      else if length arr \<le> the p then None
      else Option.bind (tok_print_loop s arr (rfc822_is_atom (token (arr ! the p))) (tok_next (arr ! the p)))
        (\<lambda>out. Some ((if prev_isatom \<and> rfc822_is_atom (token (arr ! the p)) then [SPACE] else []) @
          print_token s (arr ! the p) @ out)))"

definition rfc822tok_print :: "bytes \<Rightarrow> rfc822token list \<Rightarrow> nat option \<Rightarrow> bytes option" where
  "rfc822tok_print s arr p = tok_print_loop s arr False p"

declare tok_print_loop.simps [code]

text \<open>The list that begins at a pointer.\<close>

inductive chain :: "rfc822token list \<Rightarrow> nat option \<Rightarrow> nat list \<Rightarrow> bool" for arr where
  chain_end: "chain arr None []"
| chain_step: "i < length arr \<Longrightarrow> chain arr (tok_next (arr ! i)) is \<Longrightarrow> chain arr (Some i) (i # is)"

inductive_cases chain_NoneE: "chain arr None is"
inductive_cases chain_SomeE: "chain arr (Some i) is"

fun print_tokens :: "bytes \<Rightarrow> bool \<Rightarrow> rfc822token list \<Rightarrow> bytes" where
  "print_tokens s prev [] = []"
| "print_tokens s prev (t # ts) =
     (if prev \<and> rfc822_is_atom (token t) then [SPACE] else []) @ print_token s t @
     print_tokens s (rfc822_is_atom (token t)) ts"

lemma tok_print_chain:
  "chain arr p is \<Longrightarrow> tok_print_loop s arr prev p = Some (print_tokens s prev (map ((!) arr) is))"
  by (induction arbitrary: prev rule: chain.induct)
    (subst tok_print_loop.simps, simp add: Let_def)+

text \<open>The loop that links the \<open>n\<close> tokens at \<open>b\<close>, as in \<open>parseaddr\<close>.\<close>

fun link_loop :: "rfc822token list \<Rightarrow> nat \<Rightarrow> nat \<Rightarrow> rfc822token list" where
  "link_loop arr b 0 = arr"
| "link_loop arr b (Suc 0) = arr[b := (arr ! b)\<lparr>tok_next := None\<rparr>]"
| "link_loop arr b (Suc n) = link_loop (arr[b := (arr ! b)\<lparr>tok_next := Some (b + 1)\<rparr>]) (b + 1) n"

lemma length_link_loop [simp]: "length (link_loop arr b n) = length arr"
  by (induction arr b n rule: link_loop.induct) auto

lemma link_loop_other: "i < b \<or> b + n \<le> i \<Longrightarrow> link_loop arr b n ! i = arr ! i"
  by (induction arr b n rule: link_loop.induct) auto

lemma link_loop_nth:
  "b \<le> i \<Longrightarrow> i < b + n \<Longrightarrow> b + n \<le> length arr \<Longrightarrow>
   link_loop arr b n ! i = (arr ! i)\<lparr>tok_next := (if i + 1 < b + n then Some (i + 1) else None)\<rparr>"
proof (induction arr b n rule: link_loop.induct)
  case (2 arr b)
  then show ?case by (cases "i = b") auto
next
  case (3 arr b n)
  then show ?case by (cases "i = b") (auto simp: link_loop_other)
qed auto

lemma chain_links:
  assumes "b + n \<le> length arr" "0 < n"
    and "\<And>i. b \<le> i \<Longrightarrow> i < b + n \<Longrightarrow> tok_next (arr ! i) = (if i + 1 < b + n then Some (i + 1) else None)"
  shows "chain arr (Some b) [b ..< b + n]"
  using assms
proof (induction n arbitrary: b)
  case (Suc n)
  show ?case
  proof (cases "n = 0")
    case True
    then show ?thesis using Suc.prems(1) Suc.prems(3)[of b] by (auto intro!: chain.intros)
  next
    case False
    then have "chain arr (Some (Suc b)) [Suc b ..< Suc b + n]" using Suc.prems by (intro Suc.IH) auto
    then show ?thesis using Suc.prems(1) Suc.prems(3)[of b] False
      by (auto simp: upt_rec[of b] intro!: chain.intros)
  qed
qed simp

lemma chain_link_loop: "b + n \<le> length arr \<Longrightarrow> 0 < n \<Longrightarrow> chain (link_loop arr b n) (Some b) [b ..< b + n]"
  by (rule chain_links) (auto simp: link_loop_nth)

lemma set_print_quoted: "set (print_quoted t) \<subseteq> insert BSLASH (set t)"
  by (induction t rule: print_quoted.induct) auto

lemma print_tokens_nonzero:
  assumes "0 \<notin> set s"
  shows "0 \<notin> set (print_tokens s prev ts)"
proof -
  have "set (snd (tok_view s t)) \<subseteq> set s" for t
    using set_take_subset set_drop_subset by (fastforce simp: tok_view_def split: tok_pointer.splits)
  then have v: "0 \<notin> set (snd (tok_view s t))" for t using assms by blast
  moreover have "0 \<notin> set (print_quoted (snd (tok_view s t)))" for t
    using v[of t] subsetD[OF set_print_quoted, of 0 "snd (tok_view s t)"] by auto
  ultimately have "0 \<notin> set (print_token s t)" for t by (simp add: print_token_def)
  then show ?thesis by (induction ts arbitrary: prev) auto
qed

section \<open>Printed tokens read back\<close>

text \<open>Printing depends on the views only.\<close>

definition view_text :: "u8 \<times> bytes \<Rightarrow> bytes" where
  "view_text v = (if fst v = 0 \<or> fst v = LPAREN then snd v
     else if fst v \<noteq> QUOTE then [fst v] else QUOTE # print_quoted (snd v) @ [QUOTE])"

fun views_text :: "bool \<Rightarrow> (u8 \<times> bytes) list \<Rightarrow> bytes" where
  "views_text prev [] = []"
| "views_text prev (v # vs) = (if prev \<and> rfc822_is_atom (fst v) then [SPACE] else []) @ view_text v @
     views_text (rfc822_is_atom (fst v)) vs"

lemma print_tokens_views: "print_tokens s prev ts = views_text prev (map (tok_view s) ts)"
  by (induction ts arbitrary: prev) (simp_all add: print_token_def view_text_def tok_view_def Let_def)

text \<open>The tokens that an error-free text has.\<close>

definition atom_ok :: "u8 \<times> bytes \<Rightarrow> bool" where
  "atom_ok v \<longleftrightarrow> (case v of (c, t) \<Rightarrow>
     if c = LPAREN then t \<noteq> [] \<and> hd t = LPAREN \<and> comment_text 0 t = Some (t, [])
     else if c = QUOTE then quote_text (t @ [QUOTE]) = Some (t, [])
     else if c = 0 then t \<noteq> [] \<and> (list_all plain t \<or> (take 2 t = [EQ, QMARK] \<and> ew_text (drop 2 t) = Some (drop 2 t, [])))
     else c \<in> set punctuation \<and> c \<noteq> LT \<and> c \<noteq> GT \<and> t = [c])"

fun views_ok :: "bool \<Rightarrow> (u8 \<times> bytes) list \<Rightarrow> bool" where
  "views_ok inb [] \<longleftrightarrow> True"
| "views_ok inb (v # vs) \<longleftrightarrow>
     (if fst v = LT then \<not> inb \<and> snd v = [LT] \<and>
        views_ok True (if vs \<noteq> [] \<and> hd vs = (0, []) \<and> tl vs \<noteq> [] \<and> hd (tl vs) = (GT, [GT]) then tl vs else vs)
      else if fst v = GT then inb \<and> snd v = [GT] \<and> views_ok False vs
      else atom_ok v \<and> views_ok inb vs)"

lemma comment_text_app: "comment_text d s = Some (t, r) \<Longrightarrow> comment_text d (t @ r') = Some (t, r')"
proof (induction d s arbitrary: t r rule: comment_text.induct)
  case (2 d c)
  then show ?case by (cases r') (auto split: if_splits)
next
  case (3 d c e cs)
  let ?d = "if c = LPAREN then d + 1 else if c = RPAREN then d - 1 else d"
  consider (close) "c = RPAREN \<and> d = 1" | (escape) "\<not> (c = RPAREN \<and> d = 1)" "c = BSLASH"
    | (other) "\<not> (c = RPAREN \<and> d = 1)" "c \<noteq> BSLASH" by blast
  then show ?case
  proof cases
    case close
    then show ?thesis using "3.prems" by (cases r') auto
  next
    case escape
    then show ?thesis using "3.prems" "3.IH"(1)[OF escape] by auto
  next
    case other
    then obtain t' where t': "t = c # t'" "comment_text ?d (e # cs) = Some (t', r)" using "3.prems" by auto
    then obtain t'' where "t' = e # t''" using comment_text_split[OF t'(2)] by (cases t') auto
    then show ?thesis using t' "3.IH"(2)[OF other t'(2)] other by simp
  qed
qed simp

lemma quote_text_app: "quote_text s = Some (t, r) \<Longrightarrow> quote_text (t @ QUOTE # r') = Some (t, r')"
proof (induction s arbitrary: t r rule: quote_text.induct)
  case (2 c)
  then show ?case by (cases r') (auto split: if_splits)
next
  case (3 c e cs)
  consider (close) "c = QUOTE" | (escape) "c \<noteq> QUOTE" "c = BSLASH" | (other) "c \<noteq> QUOTE" "c \<noteq> BSLASH" by blast
  then show ?case
  proof cases
    case close
    then show ?thesis using "3.prems" by (cases r') auto
  next
    case escape
    then show ?thesis using "3.prems" "3.IH"(1)[OF escape] by auto
  next
    case other
    then obtain t' where t': "t = c # t'" "quote_text (e # cs) = Some (t', r)" using "3.prems" by auto
    have "quote_text (t' @ QUOTE # r') = Some (t', r')" using "3.IH"(2)[OF other t'(2)] .
    then show ?thesis using t'(1) other by (cases t') auto
  qed
qed simp

lemma ew_text_app: "ew_text s = Some (t, r) \<Longrightarrow> ew_text (t @ r') = Some (t, r')"
proof (induction s arbitrary: t r)
  case (Cons c cs)
  show ?case
  proof (cases "c = QMARK \<and> cs \<noteq> [] \<and> hd cs = EQ")
    case True
    then show ?thesis using Cons.prems by auto
  next
    case False
    then obtain t' where t': "t = c # t'" "ew_text cs = Some (t', r)"
      "\<not> (c \<noteq> QMARK \<and> c \<noteq> EQ \<and> (c \<in> set RFC822_SPECIALS \<or> isspace c))" using Cons.prems by (auto split: if_splits)
    have "t' \<noteq> []" using t'(2) by (cases cs) (auto split: if_splits)
    moreover have "cs = t' @ r" using ew_text_split[OF t'(2)] .
    ultimately have "hd (t' @ r') = hd cs" "t' @ r' \<noteq> []" by auto
    then show ?thesis using t' False Cons.IH[OF t'(2)] \<open>cs = t' @ r\<close> \<open>t' \<noteq> []\<close> by auto
  qed
qed simp

lemma print_quoted_id: "quote_text s = Some (t, r) \<Longrightarrow> print_quoted t = t"
proof (induction s arbitrary: t r rule: quote_text.induct)
  case (3 c e cs)
  consider (close) "c = QUOTE" | (escape) "c \<noteq> QUOTE" "c = BSLASH" | (other) "c \<noteq> QUOTE" "c \<noteq> BSLASH" by blast
  then show ?case
  proof cases
    case other
    then obtain t' where t': "t = c # t'" "quote_text (e # cs) = Some (t', r)" using "3.prems" by auto
    then show ?thesis using "3.IH"(2)[OF other t'(2)] other by (cases t') auto
  qed (use "3.prems" "3.IH"(1) in \<open>auto\<close>)
qed (auto split: if_splits)

lemma takeWhile_plain: "list_all plain (takeWhile plain s)"
  by (metis list_all_iff set_takeWhileD)

lemma lex_cases:
  obtains (Nil) "s = []" "lex inb s = ([], False)"
    | (skip) s' where "length s' < length s" "lex inb s = lex inb s'"
    | (error) "snd (lex inb s)"
    | (atom) v s' where "length s' < length s" "lex inb s = (v # fst (lex inb s'), snd (lex inb s'))" "atom_ok v"
    | (left) s' where "length s' < length s" "\<not> inb"
        "lex inb s = ((LT, [LT]) # (if s' \<noteq> [] \<and> hd s' = GT then [(0, [])] else []) @ fst (lex True s'), snd (lex True s'))"
    | (right) s' where "length s' < length s" "inb" "lex inb s = ((GT, [GT]) # fst (lex False s'), snd (lex False s'))"
proof (cases s)
  case Nil
  then show thesis using that(1) by simp
next
  case (Cons c cs)
  note lx = Cons lex.simps(2)
  consider (space) "isspace c" | (bad) "\<not> isspace c" "c = BSLASH \<or> c = RPAREN"
    | (comment) "\<not> isspace c" "c = LPAREN" | (quote) "\<not> isspace c" "c = QUOTE"
    | (other) "\<not> isspace c" "c \<noteq> LPAREN" "c \<noteq> QUOTE" "c \<noteq> BSLASH" "c \<noteq> RPAREN" by blast
  then show thesis
  proof cases
    case space
    then show thesis using that(2)[of cs] unfolding lx by simp
  next
    case bad
    then show thesis using that(3) unfolding lx by (auto split: prod.splits)
  next
    case comment
    show thesis
    proof (cases "comment_text 0 (c # cs)")
      case None
      then show thesis using that(3) comment unfolding lx by simp
    next
      case (Some tr)
      obtain t r where tr: "tr = (t, r)" by (cases tr)
      have "c # cs = t @ r" "t \<noteq> []" using comment_text_split[OF Some[unfolded tr]] by simp_all
      then have ok: "atom_ok (LPAREN, t)"
        using comment_text_app[OF Some[unfolded tr], of "[]"] comment by (cases t) (auto simp: atom_ok_def)
      have len: "length r < length (c # cs)" using text_len(1)[OF Some[unfolded tr]] .
      show thesis using that(4)[of r "(LPAREN, t)"] ok len comment Some tr unfolding lx by (simp split: prod.splits)
    qed
  next
    case quote
    show thesis
    proof (cases "quote_text cs")
      case None
      then show thesis using that(3) quote unfolding lx by simp
    next
      case (Some tr)
      obtain t r where tr: "tr = (t, r)" by (cases tr)
      have ok: "atom_ok (QUOTE, t)" using quote_text_app[OF Some[unfolded tr], of "[]"] by (simp add: atom_ok_def)
      have len: "length r < length (c # cs)" using text_len(2)[OF Some[unfolded tr]] by simp
      show thesis using that(4)[of r "(QUOTE, t)"] ok len quote Some tr unfolding lx by (simp split: prod.splits)
    qed
  next
    case other
    let ?et = "if c = EQ \<and> cs \<noteq> [] \<and> hd cs = QMARK then ew_text (tl cs) else None"
    show thesis
    proof (cases ?et)
      case (Some tr)
      obtain t r where tr: "tr = (t, r)" by (cases tr)
      have et: "c = EQ" "cs = QMARK # tl cs" "ew_text (tl cs) = Some (t, r)"
        using Some tr by (cases cs; auto split: if_splits)+
      have ok: "atom_ok (0, c # QMARK # t)" using ew_text_app[OF et(3), of "[]"] et(1) by (simp add: atom_ok_def)
      have len: "length r < length (c # cs)" using text_len(3)[OF et(3)] by simp
      show thesis using that(4)[of r "(0, c # QMARK # t)"] ok len other Some tr unfolding lx by (simp split: prod.splits)
    next
      case None
      note lx = lx None option.case
      consider (angle) "c \<in> set punctuation" "c = LT \<and> inb \<or> c = GT \<and> \<not> inb" | (lt) "c = LT" "\<not> inb"
        | (gt) "c = GT" "inb" | (punct) "c \<in> set punctuation" "c \<noteq> LT" "c \<noteq> GT" | (word) "c \<notin> set punctuation"
        by (auto simp: punctuation_def)
      then show thesis
      proof cases
        case angle
        then show thesis using that(3) other unfolding lx by (auto split: prod.splits)
      next
        case lt
        then show thesis using that(5)[of cs] other unfolding lx by (simp add: punctuation_def split: prod.splits)
      next
        case gt
        then show thesis using that(6)[of cs] other unfolding lx by (simp add: punctuation_def split: prod.splits)
      next
        case punct
        moreover from punct(1) have "c \<noteq> 0" by (auto simp: punctuation_def)
        ultimately show thesis using that(4)[of cs "(c, [c])"] other unfolding lx by (simp add: atom_ok_def split: prod.splits)
      next
        case word
        have "atom_ok (0, c # takeWhile plain cs)"
          using word other takeWhile_plain[of cs] by (simp add: atom_ok_def plain_def special_cases)
        then show thesis using that(4)[of "dropWhile plain cs" "(0, c # takeWhile plain cs)"] word other length_dropWhile_le[of plain cs]
          unfolding lx by (simp add: less_Suc_eq_le split: prod.splits)
      qed
    qed
  qed
qed

lemma lex_GT: "hd s = GT \<Longrightarrow> s \<noteq> [] \<Longrightarrow> lex True s = ((GT, [GT]) # fst (lex False (tl s)), snd (lex False (tl s)))"
  by (cases s) (auto simp: lex.simps(2) isspace_def punctuation_def split: prod.splits)

lemma views_ok_lex: "\<not> snd (lex inb s) \<Longrightarrow> views_ok inb (fst (lex inb s))"
proof (induction "length s" arbitrary: inb s rule: less_induct)
  case less
  show ?case
  proof (cases rule: lex_cases[of s inb])
    case (atom v s')
    have "fst v \<noteq> LT" "fst v \<noteq> GT" using atom(3) by (auto simp: atom_ok_def split: if_splits)
    with less atom show ?thesis by simp
  next
    case (left s')
    show ?thesis
    proof (cases "s' \<noteq> [] \<and> hd s' = GT")
      case True
      then show ?thesis using less left lex_GT[of s'] by simp
    next
      case False
      then have "views_ok True (fst (lex True s'))" using less left by auto
      moreover from this have "fst (lex True s') = [] \<or> hd (fst (lex True s')) \<noteq> (0, [])"
        by (cases "fst (lex True s')") (auto simp: atom_ok_def)
      ultimately show ?thesis using left False by auto
    qed
  qed (use less in auto)
qed

text \<open>The exceptions: tokens that, printed next to each other, read as an encoded word or a null address.\<close>

definition apart :: "u8 \<times> bytes \<Rightarrow> u8 \<times> bytes \<Rightarrow> bool" where
  "apart v w \<longleftrightarrow> \<not> (fst v = EQ \<and> fst w = QMARK) \<and> \<not> (fst v = LT \<and> fst w = GT)"

lemma atom_ok_cases:
  assumes "atom_ok v"
  obtains (comment) t where "v = (LPAREN, LPAREN # t)" "comment_text 0 (LPAREN # t) = Some (LPAREN # t, [])"
    | (quote) t where "v = (QUOTE, t)" "quote_text (t @ [QUOTE]) = Some (t, [])"
    | (word) c t where "v = (0, c # t)" "plain c" "list_all plain t"
    | (ew) u where "v = (0, EQ # QMARK # u)" "ew_text u = Some (u, [])"
    | (punct) c where "v = (c, [c])" "c \<in> set punctuation" "c \<noteq> LT" "c \<noteq> GT"
proof (cases v)
  case (Pair c t)
  from assms consider "c = LPAREN" "t \<noteq> [] \<and> hd t = LPAREN \<and> comment_text 0 t = Some (t, [])"
    | "c = QUOTE" "quote_text (t @ [QUOTE]) = Some (t, [])" | "c = 0" "t \<noteq> []" "list_all plain t"
    | "c = 0" "take 2 t = [EQ, QMARK]" "ew_text (drop 2 t) = Some (drop 2 t, [])"
    | "c \<in> set punctuation" "c \<noteq> LT" "c \<noteq> GT" "t = [c]"
    by (auto simp: atom_ok_def Pair split: if_splits)
  then show thesis
  proof cases
    case 4
    then have "t = EQ # QMARK # drop 2 t" using append_take_drop_id[of 2 t] by simp
    with 4 show thesis using that(4) unfolding Pair by metis
  qed (use that in \<open>unfold Pair, cases t; auto\<close>)+
qed

lemma views_ok_Cons:
  "views_ok inb (v # vs) \<Longrightarrow> fst v = LT \<or> fst v = GT \<or> atom_ok v"
  by (simp split: if_splits)

lemma punctuation_simps:
  "c \<in> set punctuation \<Longrightarrow> c \<noteq> 0 \<and> c \<noteq> LPAREN \<and> c \<noteq> QUOTE \<and> c \<noteq> BSLASH \<and> c \<noteq> RPAREN \<and> c \<noteq> SPACE \<and>
     \<not> rfc822_is_atom c \<and> \<not> isspace c \<and> \<not> plain c \<and> view_text (c, t) = [c]"
  by (auto simp: punctuation_def rfc822_is_atom_def isspace_def plain_def SPECIALS_def view_text_def)

lemma hd_views_text:
  assumes "views_ok inb vs" "x \<in> set punctuation" "x \<noteq> EQ"
  shows "views_text prev vs \<noteq> [] \<and> hd (views_text prev vs) = x \<longleftrightarrow> vs \<noteq> [] \<and> fst (hd vs) = x"
proof (cases vs)
  case (Cons v ws)
  note x = punctuation_simps[OF assms(2)]
  from assms(1) have "fst v = LT \<or> fst v = GT \<or> atom_ok v" unfolding Cons by (rule views_ok_Cons)
  then consider "fst v \<in> set punctuation" | "atom_ok v" "fst v \<notin> set punctuation"
    by (auto simp: punctuation_def)
  then show ?thesis
  proof cases
    case 1
    then show ?thesis using punctuation_simps[OF 1, of "snd v"] Cons by simp
  next
    case 2
    from 2(1) show ?thesis
    proof (cases rule: atom_ok_cases)
      case (word c t)
      with x assms(2) show ?thesis by (auto simp: Cons view_text_def rfc822_is_atom_def)
    next
      case (punct c)
      with 2 show ?thesis by simp
    qed (use x assms(3) in \<open>auto simp: Cons view_text_def rfc822_is_atom_def\<close>)
  qed
qed simp

lemma views_text_ne: "views_ok inb vs \<Longrightarrow> vs \<noteq> [] \<Longrightarrow> views_text prev vs \<noteq> []"
proof (cases vs)
  case (Cons v ws)
  assume "views_ok inb vs"
  then have "fst v = LT \<or> fst v = GT \<or> atom_ok v" unfolding Cons by (rule views_ok_Cons)
  then have "view_text v \<noteq> []" by (auto simp: view_text_def elim: atom_ok_cases)
  then show ?thesis by (simp add: Cons)
qed simp

lemma hd_not_plain: "views_ok inb vs \<Longrightarrow> views_text True vs = [] \<or> \<not> plain (hd (views_text True vs))"
proof (cases vs)
  case (Cons v ws)
  assume "views_ok inb vs"
  then have "fst v = LT \<or> fst v = GT \<or> atom_ok v" unfolding Cons by (rule views_ok_Cons)
  then consider "fst v \<in> set punctuation" | "rfc822_is_atom (fst v)"
    by (auto simp: punctuation_def rfc822_is_atom_def elim: atom_ok_cases)
  then show ?thesis
  proof cases
    case 1
    then show ?thesis using punctuation_simps[OF 1, of "snd v"] Cons by simp
  next
    case 2
    then show ?thesis by (simp add: Cons plain_def isspace_def)
  qed
qed simp

lemma lex_space: "lex inb (SPACE # s) = lex inb s"
  by (simp add: lex.simps(2) isspace_def)

lemma lex_atom:
  assumes "atom_ok v" "fst v = EQ \<Longrightarrow> \<not> (rest \<noteq> [] \<and> hd rest = QMARK)"
    and "fst v = 0 \<Longrightarrow> rest = [] \<or> \<not> plain (hd rest)"
  shows "lex inb (view_text v @ rest) = (v # fst (lex inb rest), snd (lex inb rest))"
  using assms(1)
proof (cases rule: atom_ok_cases)
  case (comment t)
  then show ?thesis using comment_text_app[OF comment(2), of rest]
    by (simp add: view_text_def lex.simps(2) isspace_def split: prod.splits)
next
  case (quote t)
  then show ?thesis using quote_text_app[OF quote(2), of rest] print_quoted_id[OF quote(2)]
    by (simp add: view_text_def lex.simps(2) isspace_def split: prod.splits)
next
  case (word c t)
  have "takeWhile plain (t @ rest) = t" "dropWhile plain (t @ rest) = rest"
    using word assms(3) by (cases rest; simp add: list_all_iff)+
  moreover have "\<not> isspace c" "c \<notin> set SPECIALS" using word(2) by (auto simp: plain_def)
  ultimately show ?thesis using word(1)
    by (auto simp: view_text_def lex.simps(2) special_cases punctuation_def split: prod.splits)
next
  case (ew u)
  then show ?thesis using ew_text_app[OF ew(2), of rest]
    by (simp add: view_text_def lex.simps(2) isspace_def split: prod.splits)
next
  case (punct c)
  then show ?thesis using punctuation_simps[OF punct(2), of "[c]"] assms(2)
    by (auto simp: lex.simps(2) split: prod.splits)
qed

lemma lex_LT: "lex False (LT # s) =
    ((LT, [LT]) # (if s \<noteq> [] \<and> hd s = GT then [(0, [])] else []) @ fst (lex True s), snd (lex True s))"
  by (simp add: lex.simps(2) isspace_def punctuation_def split: prod.splits)

lemma successively_tl: "successively P (x # xs) \<Longrightarrow> successively P xs"
  by (cases xs) auto

fun bracket_after :: "bool \<Rightarrow> (u8 \<times> bytes) list \<Rightarrow> bool" where
  "bracket_after inb [] = inb"
| "bracket_after inb (v # vs) = bracket_after (if fst v = LT then True else if fst v = GT then False else inb) vs"

text \<open>The printed tokens can be followed by a space or by punctuation.\<close>

lemma lex_views_app:
  "views_ok inb vs \<Longrightarrow> successively apart vs \<Longrightarrow> rest = [] \<or> \<not> plain (hd rest) \<and> hd rest \<noteq> QMARK \<Longrightarrow>
   rest = [] \<or> hd rest \<noteq> GT \<or> vs = [] \<or> fst (last vs) \<noteq> LT \<Longrightarrow>
   lex inb (views_text prev vs @ rest) = (vs @ fst (lex (bracket_after inb vs) rest), snd (lex (bracket_after inb vs) rest))"
proof (induction inb vs arbitrary: prev rule: views_ok.induct)
  case (2 inb v vs)
  note ap = successively_tl[OF "2.prems"(2)]
  have lst: "rest = [] \<or> hd rest \<noteq> GT \<or> vs = [] \<or> fst (last vs) \<noteq> LT" using "2.prems"(4) by (auto split: if_splits)
  consider (null) "fst v = LT" "vs \<noteq> []" "hd vs = (0, [])" "tl vs \<noteq> []" "hd (tl vs) = (GT, [GT])"
    | (left) "fst v = LT" "\<not> (vs \<noteq> [] \<and> hd vs = (0, []) \<and> tl vs \<noteq> [] \<and> hd (tl vs) = (GT, [GT]))"
    | (right) "fst v = GT" | (atom) "fst v \<noteq> LT" "fst v \<noteq> GT" by blast
  then show ?case
  proof cases
    case null
    then obtain ws where vs: "v = (LT, [LT])" "vs = (0, []) # (GT, [GT]) # ws" "\<not> inb"
      using "2.prems"(1) by (cases v; cases vs; cases "tl vs"; auto)
    let ?rest = "views_text False ws @ rest"
    have "lex True (views_text False ((GT, [GT]) # ws) @ rest) =
        ((GT, [GT]) # ws @ fst (lex (bracket_after False ws) rest), snd (lex (bracket_after False ws) rest))"
      using "2.IH"(1)[of False] "2.prems"(1,3) lst successively_tl[OF ap[unfolded vs(2)]] null by (simp add: vs)
    then show ?thesis by (simp add: vs view_text_def rfc822_is_atom_def lex_LT)
  next
    case left
    then have v: "v = (LT, [LT])" "\<not> inb" "views_ok True vs" using "2.prems"(1) by (cases v; auto)+
    have "lex True (views_text False vs @ rest) = (vs @ fst (lex (bracket_after True vs) rest), snd (lex (bracket_after True vs) rest))"
      using "2.IH"(1)[of False] v ap left "2.prems"(3) lst by simp
    moreover have "views_text False vs @ rest = [] \<or> hd (views_text False vs @ rest) \<noteq> GT"
    proof (cases "vs = []")
      case True
      then show ?thesis using "2.prems"(4) v(1) by simp
    next
      case False
      then have "fst (hd vs) \<noteq> GT" using "2.prems"(2) v(1) by (cases vs) (auto simp: apart_def)
      then have "hd (views_text False vs) \<noteq> GT"
        using hd_views_text[OF v(3), of GT False] views_text_ne[OF v(3) False, of False] by (simp add: punctuation_def)
      then show ?thesis using views_text_ne[OF v(3) False, of False] by simp
    qed
    ultimately show ?thesis using v by (auto simp: view_text_def rfc822_is_atom_def lex_LT)
  next
    case right
    then have v: "v = (GT, [GT])" "inb" "views_ok False vs" using "2.prems"(1) by (cases v; auto)+
    have "lex False (views_text False vs @ rest) = (vs @ fst (lex (bracket_after False vs) rest), snd (lex (bracket_after False vs) rest))"
      using "2.IH"(2)[of False] v ap "2.prems"(3) lst by simp
    then show ?thesis using v lex_GT[of "GT # views_text False vs @ rest"] by (simp add: view_text_def rfc822_is_atom_def)
  next
    case atom
    then have v: "atom_ok v" "views_ok inb vs" using "2.prems"(1) by simp_all
    let ?vt = "views_text (rfc822_is_atom (fst v)) vs"
    let ?rest = "?vt @ rest"
    have IH: "lex inb ?rest = (vs @ fst (lex (bracket_after inb vs) rest), snd (lex (bracket_after inb vs) rest))"
      using "2.IH"(3) atom v ap "2.prems"(3) lst by simp
    have "lex inb (view_text v @ ?rest) = (v # fst (lex inb ?rest), snd (lex inb ?rest))"
    proof (rule lex_atom[OF v(1)])
      show "\<not> (?rest \<noteq> [] \<and> hd ?rest = QMARK)" if "fst v = EQ"
        using hd_views_text[OF v(2), of QMARK "rfc822_is_atom (fst v)"] "2.prems"(2,3) that
        by (cases vs; cases ?vt) (auto simp: punctuation_def apart_def)
      show "?rest = [] \<or> \<not> plain (hd ?rest)" if "fst v = 0"
        using hd_not_plain[OF v(2)] that "2.prems"(3) by (cases ?vt) (auto simp: rfc822_is_atom_def)
    qed
    then show ?thesis using IH atom by (cases "rfc822_is_atom (fst v)") (simp_all add: lex_space)
  qed
qed simp

lemma lex_views_text:
  "views_ok inb vs \<Longrightarrow> successively apart vs \<Longrightarrow> lex inb (views_text prev vs) = (vs, False)"
  using lex_views_app[of inb vs "[]" prev] by simp

section \<open>Properties\<close>

text \<open>
  C5: tokenizing the text of an address header gives the tokens of the reference lexer, with their texts,
  and the error function is called exactly when the lexer finds an error.
\<close>

theorem tokens_are_lex:
  assumes "0 \<notin> set s"
  shows "map (tok_view s) (tokens (fst (rfc822t_alloc_new s))) = fst (lex False s) \<and>
    (snd (rfc822t_alloc_new s) = [] \<longleftrightarrow> \<not> snd (lex False s))"
  by (rule alloc_new_lex[OF assms]) auto

theorem tokens_are_lex_witness:
  "map (tok_view [97, 32, 60, 62]) (tokens (fst (rfc822t_alloc_new [97, 32, 60, 62]))) = fst (lex False [97, 32, 60, 62])"
  using tokens_are_lex[of "[97, 32, 60, 62]"] by simp

text \<open>
  C6: the counting pass and the filling pass agree, so that the array that is allocated for the tokens
  is filled to its end and not beyond it, and each token lies inside the text.
\<close>

theorem token_array_filled:
  assumes "0 \<notin> set s"
  shows "toklen (tokenize False s) = toklen (tokenize True s) \<and>
    tokens (fst (rfc822t_alloc_new s)) = tok_out (tokenize True s) \<and>
    length (tokens (fst (rfc822t_alloc_new s))) = ntokens (fst (rfc822t_alloc_new s)) \<and>
    (\<forall>t. t \<in> set (tokens (fst (rfc822t_alloc_new s))) \<longrightarrow> in_text s t)"
proof -
  have "toklen (tokenize False s) = toklen (tokenize True s)"
    by (rule tok_good_count[OF tokenize_lex[OF assms] tokenize_lex[OF assms]])
  then show ?thesis by (rule_tac alloc_new_lex[OF assms]) (auto intro: placed_in_text)
qed

theorem token_array_filled_witness:
  "toklen (tokenize False [97, 32, 40]) = toklen (tokenize True [97, 32, 40])"
  using token_array_filled[of "[97, 32, 40]"] by simp

text \<open>
  The tokens of a text without errors, linked and printed by \<open>rfc822tok_print\<close>, are read back as the
  same tokens without an error, unless an equals sign comes before a question mark or an opening angle
  bracket before a closing one, separated by space only.
\<close>

lemma print_tokens_roundtrip:
  assumes "0 \<notin> set s" "rfc822t_alloc_new s = (t, [])" "0 < ntokens t"
    and "successively apart (map (tok_view s) (tokens t))"
  shows "\<exists>s' t'. rfc822tok_print s (link_loop (tokens t) 0 (ntokens t)) (Some 0) = Some s' \<and>
    rfc822t_alloc_new s' = (t', []) \<and> map (tok_view s') (tokens t') = map (tok_view s) (tokens t)"
proof (rule alloc_new_lex[OF assms(1)])
  fix ts es
  assume a: "rfc822t_alloc_new s = (\<lparr>tokens = ts, ntokens = length ts\<rparr>, es)" "map (tok_view s) ts = fst (lex False s)"
    "es \<noteq> [] \<longleftrightarrow> snd (lex False s)"
  let ?vs = "map (tok_view s) ts" and ?arr = "link_loop ts 0 (length ts)"
  have t: "t = \<lparr>tokens = ts, ntokens = length ts\<rparr>" "es = []" using a(1) assms(2) by simp_all
  let ?s' = "print_tokens s False (map ((!) ?arr) [0 ..< length ts])"
  have p: "rfc822tok_print s ?arr (Some 0) = Some ?s'"
    using tok_print_chain[OF chain_link_loop[of 0 "length ts" ts]] assms(3) t by (simp add: rfc822tok_print_def)
  have vs: "map (tok_view s) (map ((!) ?arr) [0 ..< length ts]) = ?vs"
    by (rule nth_equalityI) (simp_all add: link_loop_nth)
  have "views_ok False ?vs" using a t views_ok_lex[of False s] by simp
  then have l: "lex False ?s' = (?vs, False)"
    using lex_views_text[of False ?vs False] assms(4) t unfolding print_tokens_views vs by simp
  have "0 \<notin> set ?s'" by (rule print_tokens_nonzero[OF assms(1)])
  then show ?thesis
    by (rule alloc_new_lex[of ?s']) (use p l t in auto)
qed

end
