(* ===== verification/Rfc822_Addr.thy ===== *)
theory Rfc822_Addr
  imports Rfc822_Tok
begin

text \<open>
  The address parser of rfc822/rfc822.c: \<open>parseaddr\<close> cuts the array of tokens into addresses, relinks and
  changes the tokens in place, and is run twice, to count and to fill.  A pointer into the array is an
  index \<open>b\<close>, and \<open>n\<close> is the number of tokens that are left.  A subtraction of pointers into different
  objects is undefined; then there is no result.
\<close>

section \<open>The parser\<close>

record rfc822addr =
  addr_tokens :: "nat option"
  addr_name :: "nat option"

text \<open>\<open>for (i=0; i<n && P(tokens[i].token); i++)\<close>\<close>

fun scan :: "(u8 \<Rightarrow> bool) \<Rightarrow> rfc822token list \<Rightarrow> nat \<Rightarrow> nat \<Rightarrow> nat" where
  "scan P arr b 0 = 0"
| "scan P arr b (Suc n) = (if P (token (arr ! b)) then Suc (scan P arr (b + 1) n) else 0)"

text \<open>The length from the beginning of the first token to the end of the last one.\<close>

definition span_len :: "rfc822token \<Rightarrow> rfc822token \<Rightarrow> nat option" where
  "span_len t u = (case (tok_ptr t, tok_ptr u) of
     (At p, At q) \<Rightarrow> if p \<le> q + tok_len u then Some (q + tok_len u - p) else None
   | _ \<Rightarrow> None)"

text \<open>The part before an opening angle bracket: the array, and the pointer to the name.\<close>

definition name_part :: "rfc822token list \<Rightarrow> nat \<Rightarrow> nat \<Rightarrow> (rfc822token list \<times> nat option) option" where
  "name_part arr b i =
     (if scan (\<lambda>c. c = 0 \<or> c = LPAREN) arr b i = i then Some (link_loop arr b i, if i = 0 then None else Some b)
      else case span_len (arr ! b) (arr ! (b + i - 1)) of
          None \<Rightarrow> None
        | Some len \<Rightarrow> Some (arr[b := (arr ! b)\<lparr>tok_len := len, token := QUOTE, tok_next := None\<rparr>], Some b))"

partial_function (option) comments_to_quotes :: "rfc822token list \<Rightarrow> nat option \<Rightarrow> rfc822token list option" where
  "comments_to_quotes arr t =
     (if t = None then Some arr
      else if length arr \<le> the t then None
      else comments_to_quotes
        (if token (arr ! the t) = LPAREN then arr[the t := (arr ! the t)\<lparr>token := QUOTE\<rparr>] else arr)
        (tok_next (arr ! the t)))"

declare comments_to_quotes.simps [code]

text \<open>The end of an old-style address: a comma, a semicolon or two consecutive atoms.\<close>

fun old_end :: "rfc822token list \<Rightarrow> nat \<Rightarrow> nat \<Rightarrow> bool \<Rightarrow> nat" where
  "old_end arr b 0 flag = 0"
| "old_end arr b (Suc n) flag =
     (let c = token (arr ! b) in
      if c = COMMA \<or> c = SEMI then 0
      else if c = LPAREN then Suc (old_end arr (b + 1) n flag)
      else if c = 0 \<or> c = QUOTE then (if flag then 0 else Suc (old_end arr (b + 1) n True))
      else Suc (old_end arr (b + 1) n False))"

text \<open>Comments are removed from the address; the last one is saved.\<close>

definition null_token :: rfc822token where
  "null_token = \<lparr>token = 0, tok_ptr = Null, tok_len = 0, tok_next = None\<rparr>"

fun compact_loop :: "rfc822token list \<Rightarrow> nat \<Rightarrow> nat \<Rightarrow> nat \<Rightarrow> rfc822token \<Rightarrow> rfc822token list \<times> nat \<times> rfc822token" where
  "compact_loop arr j k 0 save = (arr, k, save)"
| "compact_loop arr j k (Suc m) save =
     (if token (arr ! j) = LPAREN then compact_loop arr (j + 1) k m (arr ! j)
      else compact_loop (arr[k := arr ! j]) (j + 1) (k + 1) m save)"

text \<open>
  One iteration: the array, the address that is stored, the number of addresses that are counted and the
  number of tokens that are consumed.  Nothing is stored in the counting pass (\<open>fill\<close> is false).
\<close>

type_synonym parse_result = "rfc822token list \<times> rfc822addr list \<times> nat \<times> nat"

definition ptr_to :: "nat \<Rightarrow> nat \<Rightarrow> nat option" where
  "ptr_to b i = (if i = 0 then None else Some b)"

definition parse_group :: "bool \<Rightarrow> rfc822token list \<Rightarrow> nat \<Rightarrow> nat \<Rightarrow> parse_result" where
  "parse_group fill arr b i =
     (if fill then (link_loop arr b i, [\<lparr>addr_tokens = None, addr_name = ptr_to b i\<rparr>], 1, i) else (arr, [], 1, i))"

definition parse_fluff :: "bool \<Rightarrow> rfc822token list \<Rightarrow> nat \<Rightarrow> parse_result" where
  "parse_fluff fill arr b =
     (if token (arr ! b) = SEMI then
        if fill then (arr[b := (arr ! b)\<lparr>tok_next := None\<rparr>], [\<lparr>addr_tokens = None, addr_name = Some b\<rparr>], 1, 1)
        else (arr, [], 1, 1)
      else (arr, [], 0, 1))"

definition parse_route :: "bool \<Rightarrow> rfc822token list \<Rightarrow> nat \<Rightarrow> nat \<Rightarrow> nat \<Rightarrow> parse_result option" where
  "parse_route fill arr b n i =
     Option.bind (if fill then name_part arr b i else Some (arr, None)) (\<lambda>(arr, name).
     Option.bind (if fill then comments_to_quotes arr name else Some arr) (\<lambda>arr.
       let i = i + 1; b = b + i; n = n - i;
           k = scan (\<lambda>c. c \<noteq> GT) arr b n;
           arr = (if fill then link_loop arr b k else arr)
       in Some (arr, if fill then [\<lparr>addr_tokens = ptr_to b k, addr_name = name\<rparr>] else [], 1,
            i + k + (if n - k = 0 then 0 else 1))))"

definition parse_old :: "bool \<Rightarrow> rfc822token list \<Rightarrow> nat \<Rightarrow> nat \<Rightarrow> parse_result" where
  "parse_old fill arr b n =
     (let i = old_end arr b n False in
      if i = 0 then (arr, [], 0, 1)
      else if fill then
        (case compact_loop arr b b i null_token of (arr, e, save) \<Rightarrow>
           let k = e - b;
               (arr, name) = (if tok_ptr save \<noteq> Null then (arr[b + i - 1 := save\<lparr>tok_next := None\<rparr>], Some (b + i - 1))
                              else (arr, None))
           in (link_loop arr b k, [\<lparr>addr_tokens = ptr_to b k, addr_name = name\<rparr>], 1, i))
      else (arr, [], 1, i))"

definition parse_step :: "bool \<Rightarrow> rfc822token list \<Rightarrow> nat \<Rightarrow> nat \<Rightarrow> parse_result option" where
  "parse_step fill arr b n =
     (let i = scan (\<lambda>c. c = 0 \<or> c = QUOTE) arr b n in
      if i < n \<and> token (arr ! (b + i)) = COLON then Some (parse_group fill arr b (i + 1))
      else if token (arr ! b) = COMMA \<or> token (arr ! b) = SEMI then Some (parse_fluff fill arr b)
      else
        let i = scan (\<lambda>c. c \<noteq> SEMI \<and> c \<noteq> COMMA \<and> c \<noteq> LT) arr b n in
        if i < n \<and> token (arr ! (b + i)) = LT then parse_route fill arr b n i
        else Some (parse_old fill arr b n))"

lemma parse_step_used: "parse_step fill arr b n = Some (arr', new, cnt, used) \<Longrightarrow> 0 < used"
  by (auto simp: parse_step_def parse_group_def parse_fluff_def parse_route_def parse_old_def Let_def
      split: if_splits bind_splits prod.splits)

function parseaddr_loop ::
  "bool \<Rightarrow> rfc822token list \<Rightarrow> nat \<Rightarrow> nat \<Rightarrow> rfc822addr list \<Rightarrow> nat \<Rightarrow> (rfc822token list \<times> rfc822addr list \<times> nat) option" where
  "parseaddr_loop fill arr b n addrs naddrs =
     (if n = 0 then Some (arr, addrs, naddrs)
      else case parse_step fill arr b n of
          None \<Rightarrow> None
        | Some (arr', new, cnt, used) \<Rightarrow> parseaddr_loop fill arr' (b + used) (n - used) (addrs @ new) (naddrs + cnt))"
  by pat_completeness auto
termination by (relation "measure (\<lambda>(fill, arr, b, n, addrs, naddrs). n)") (auto dest!: parse_step_used)

declare parseaddr_loop.simps [simp del]

definition parseaddr :: "bool \<Rightarrow> rfc822token list \<Rightarrow> nat \<Rightarrow> (rfc822token list \<times> rfc822addr list \<times> nat) option" where
  "parseaddr fill arr ntoks = parseaddr_loop fill arr 0 ntoks [] 0"

record rfc822a =
  addrs :: "rfc822addr list"
  naddrs :: nat

text \<open>Also the array of tokens is returned, which is changed.\<close>

definition rfc822a_alloc :: "rfc822t \<Rightarrow> (rfc822token list \<times> rfc822a) option" where
  "rfc822a_alloc t =
     Option.bind (parseaddr False (tokens t) (ntokens t)) (\<lambda>(arr, _, n).
     Option.bind (parseaddr True arr (ntokens t)) (\<lambda>(arr, as, n').
       Some (arr, \<lparr>addrs = memcpy_at (replicate n \<lparr>addr_tokens = None, addr_name = None\<rparr>) 0 as, naddrs = n'\<rparr>)))"

text \<open>The entries above the index move down; the last one is not used any more.\<close>

definition rfc822_deladdr :: "rfc822a \<Rightarrow> int \<Rightarrow> rfc822a" where
  "rfc822_deladdr rfcp index =
     (if index < 0 \<or> int (naddrs rfcp) \<le> index then rfcp
      else
        let moved = fold (\<lambda>i as. as[i - 1 := as ! i]) [nat index + 1 ..< naddrs rfcp] (addrs rfcp);
            n = naddrs rfcp - 1
        in rfcp\<lparr>addrs := if n = 0 then [] else moved, naddrs := n\<rparr>)"

section \<open>The addresses of a list of tokens\<close>

definition bare :: "rfc822token \<Rightarrow> rfc822token" where
  "bare t = t\<lparr>tok_next := None\<rparr>"

definition name_of :: "rfc822token list \<Rightarrow> rfc822token list" where
  "name_of ts =
     (if list_all (\<lambda>t. token t = 0 \<or> token t = LPAREN) ts
      then map (\<lambda>t. if token t = LPAREN then t\<lparr>token := QUOTE\<rparr> else t) ts
      else [(hd ts)\<lparr>token := QUOTE, tok_len := the (span_len (hd ts) (last ts))\<rparr>])"

fun old_length :: "bool \<Rightarrow> rfc822token list \<Rightarrow> nat" where
  "old_length flag [] = 0"
| "old_length flag (t # ts) =
     (if token t = COMMA \<or> token t = SEMI then 0
      else if token t = LPAREN then Suc (old_length flag ts)
      else if token t = 0 \<or> token t = QUOTE then (if flag then 0 else Suc (old_length True ts))
      else Suc (old_length False ts))"

definition cut :: "(u8 \<Rightarrow> bool) \<Rightarrow> rfc822token list \<Rightarrow> rfc822token list \<times> rfc822token list" where
  "cut P ts = (takeWhile (\<lambda>t. P (token t)) ts, dropWhile (\<lambda>t. P (token t)) ts)"

definition starts :: "u8 \<Rightarrow> rfc822token list \<Rightarrow> bool" where
  "starts c ts \<longleftrightarrow> ts \<noteq> [] \<and> token (hd ts) = c"

text \<open>An address without angle brackets: what is not a comment, and the last comment as the name.\<close>

definition old_address :: "rfc822token list \<Rightarrow> rfc822token list \<times> rfc822token list" where
  "old_address ts = (filter (\<lambda>t. token t \<noteq> LPAREN) ts,
     let cs = filter (\<lambda>t. token t = LPAREN) ts in if cs = [] then [] else [last cs])"

text \<open>The address at the beginning, as the tokens of the address and of the name, and what follows it.\<close>

definition first_address ::
  "rfc822token list \<Rightarrow> (rfc822token list \<times> rfc822token list) option \<times> rfc822token list" where
  "first_address ts =
     (let (phrase, colon) = cut (\<lambda>c. c = 0 \<or> c = QUOTE) ts;
          (before, angle) = cut (\<lambda>c. c \<noteq> SEMI \<and> c \<noteq> COMMA \<and> c \<noteq> LT) ts
      in if starts COLON colon then (Some ([], phrase @ [hd colon]), tl colon)
         else if starts COMMA ts then (None, tl ts)
         else if starts SEMI ts then (Some ([], [hd ts]), tl ts)
         else if starts LT angle then
           (case cut (\<lambda>c. c \<noteq> GT) (tl angle) of (route, rest) \<Rightarrow> (Some (route, name_of before), drop 1 rest))
         else (Some (old_address (take (old_length False ts) ts)), drop (old_length False ts) ts))"

lemma cut_take: "cut P ts = (take (length (fst (cut P ts))) ts, drop (length (fst (cut P ts))) ts)"
  by (simp add: cut_def takeWhile_eq_take[symmetric] dropWhile_eq_drop[symmetric])

lemma starts_drop: "starts c (drop k ts) \<Longrightarrow>
    k < length ts \<and> token (ts ! k) = c \<and> take k ts @ [hd (drop k ts)] = take (k + 1) ts"
  by (auto simp: starts_def hd_drop_conv_nth take_Suc_conv_app_nth)

lemma cut_fst: "x \<in> set (fst (cut P ts)) \<Longrightarrow> P (token x)"
  by (auto simp: cut_def dest: set_takeWhileD)

lemma cut_snd: "cut P ts = (u, v) \<Longrightarrow> length v \<le> length ts \<and> (v \<noteq> [] \<longrightarrow> \<not> P (token (hd v)))"
  using hd_dropWhile[of "\<lambda>t. P (token t)" ts] by (auto simp: cut_def length_dropWhile_le)

lemma old_length_pos: "ts \<noteq> [] \<Longrightarrow> \<not> starts COMMA ts \<Longrightarrow> \<not> starts SEMI ts \<Longrightarrow> 0 < old_length False ts"
  by (cases ts) (auto simp: starts_def)

abbreviation (input) is_phrase :: "u8 \<Rightarrow> bool" where "is_phrase \<equiv> \<lambda>c. c = 0 \<or> c = QUOTE"
abbreviation (input) no_angle :: "u8 \<Rightarrow> bool" where "no_angle \<equiv> \<lambda>c. c \<noteq> SEMI \<and> c \<noteq> COMMA \<and> c \<noteq> LT"

lemma first_address_group:
  "starts COLON (snd (cut is_phrase ts)) \<Longrightarrow> first_address ts =
     (Some ([], fst (cut is_phrase ts) @ [hd (snd (cut is_phrase ts))]), tl (snd (cut is_phrase ts)))"
  by (simp add: first_address_def case_prod_beta)

lemma first_address_comma:
  "\<not> starts COLON (snd (cut is_phrase ts)) \<Longrightarrow> starts COMMA ts \<Longrightarrow> first_address ts = (None, tl ts)"
  by (simp add: first_address_def case_prod_beta)

lemma first_address_semi:
  "\<not> starts COLON (snd (cut is_phrase ts)) \<Longrightarrow> \<not> starts COMMA ts \<Longrightarrow> starts SEMI ts \<Longrightarrow>
   first_address ts = (Some ([], [hd ts]), tl ts)"
  by (simp add: first_address_def case_prod_beta)

lemma first_address_route:
  "\<not> starts COLON (snd (cut is_phrase ts)) \<Longrightarrow> \<not> starts COMMA ts \<Longrightarrow> \<not> starts SEMI ts \<Longrightarrow>
   starts LT (snd (cut no_angle ts)) \<Longrightarrow> first_address ts =
     (Some (fst (cut (\<lambda>c. c \<noteq> GT) (tl (snd (cut no_angle ts)))), name_of (fst (cut no_angle ts))),
      drop 1 (snd (cut (\<lambda>c. c \<noteq> GT) (tl (snd (cut no_angle ts))))))"
  by (simp add: first_address_def case_prod_beta)

lemma first_address_old:
  "\<not> starts COLON (snd (cut is_phrase ts)) \<Longrightarrow> \<not> starts COMMA ts \<Longrightarrow> \<not> starts SEMI ts \<Longrightarrow>
   \<not> starts LT (snd (cut no_angle ts)) \<Longrightarrow>
   first_address ts = (Some (old_address (take (old_length False ts) ts)), drop (old_length False ts) ts)"
  by (simp add: first_address_def case_prod_beta)

lemma starts_nonempty: "starts c ts \<Longrightarrow> ts \<noteq> []"
  by (simp add: starts_def)

lemma tl_shorter: "starts c v \<Longrightarrow> length v \<le> n \<Longrightarrow> length (tl v) < n"
  by (cases v) (auto simp: starts_def)

lemma cut_snd_length: "length (snd (cut P ts)) \<le> length ts"
  by (simp add: cut_def length_dropWhile_le)

lemma address_cases:
  obtains (group) "starts COLON (snd (cut is_phrase ts))"
    | (comma) "\<not> starts COLON (snd (cut is_phrase ts))" "starts COMMA ts"
    | (semi) "\<not> starts COLON (snd (cut is_phrase ts))" "\<not> starts COMMA ts" "starts SEMI ts"
    | (route) "\<not> starts COLON (snd (cut is_phrase ts))" "\<not> starts COMMA ts" "\<not> starts SEMI ts" "starts LT (snd (cut no_angle ts))"
    | (old) "\<not> starts COLON (snd (cut is_phrase ts))" "\<not> starts COMMA ts" "\<not> starts SEMI ts" "\<not> starts LT (snd (cut no_angle ts))"
  by blast

lemma first_address_length:
  assumes "ts \<noteq> []"
  shows "length (snd (first_address ts)) < length ts"
proof (cases rule: address_cases[of ts])
  case group
  then show ?thesis unfolding first_address_group[OF group]
    using tl_shorter[OF group cut_snd_length] by simp
next
  case comma
  then show ?thesis unfolding first_address_comma[OF comma] using assms by simp
next
  case semi
  then show ?thesis unfolding first_address_semi[OF semi] using assms by simp
next
  case route
  then show ?thesis unfolding first_address_route[OF route]
    using tl_shorter[OF route(4) cut_snd_length] cut_snd_length[of "\<lambda>c. c \<noteq> GT" "tl (snd (cut no_angle ts))"] by simp
next
  case old
  then show ?thesis unfolding first_address_old[OF old] using assms old_length_pos[OF assms] by simp
qed

function addresses :: "rfc822token list \<Rightarrow> (rfc822token list \<times> rfc822token list) list" where
  "addresses ts =
     (if ts = [] then []
      else case first_address ts of
          (None, rest) \<Rightarrow> addresses rest
        | (Some a, rest) \<Rightarrow> a # addresses rest)"
  by pat_completeness auto
termination
proof (relation "measure length")
  fix ts x y
  assume "ts \<noteq> []" "(x, y) = first_address ts" "x = None"
  then show "(y, ts) \<in> measure length" using first_address_length[of ts] by (metis in_measure snd_conv)
next
  fix ts x y a
  assume "ts \<noteq> []" "(x, y) = first_address ts" "x = Some a"
  then show "(y, ts) \<in> measure length" using first_address_length[of ts] by (metis in_measure snd_conv)
qed simp

declare addresses.simps [simp del]

lemma addresses_step:
  "ts \<noteq> [] \<Longrightarrow> addresses ts = (case fst (first_address ts) of None \<Rightarrow> [] | Some a \<Rightarrow> [a]) @ addresses (snd (first_address ts))"
  by (subst addresses.simps) (simp split: prod.splits option.splits)

section \<open>The parser computes the addresses\<close>

text \<open>A pointer leads to a linked list, inside a part of the array, of the given tokens.\<close>

definition linked :: "nat \<Rightarrow> nat \<Rightarrow> rfc822token list \<Rightarrow> nat option \<Rightarrow> rfc822token list \<Rightarrow> bool" where
  "linked lo hi arr p ts \<longleftrightarrow> (\<exists>is. chain arr p is \<and> set is \<subseteq> {lo ..< hi} \<and> map (\<lambda>i. bare (arr ! i)) is = ts)"

definition stored :: "nat \<Rightarrow> nat \<Rightarrow> rfc822token list \<Rightarrow> rfc822addr \<Rightarrow> rfc822token list \<times> rfc822token list \<Rightarrow> bool" where
  "stored lo hi arr a x \<longleftrightarrow> linked lo hi arr (addr_tokens a) (fst x) \<and> linked lo hi arr (addr_name a) (snd x)"

definition untouched :: "nat \<Rightarrow> nat \<Rightarrow> rfc822token list \<Rightarrow> rfc822token list \<Rightarrow> bool" where
  "untouched lo hi arr arr' \<longleftrightarrow> length arr' = length arr \<and> (\<forall>i. i < lo \<or> hi \<le> i \<longrightarrow> arr' ! i = arr ! i)"

text \<open>What one iteration does, in both passes.\<close>

definition step_good :: "rfc822token list \<Rightarrow> nat \<Rightarrow> nat \<Rightarrow> bool" where
  "step_good arr b n \<longleftrightarrow>
     (\<exists>arr' new used. parse_step True arr b n = Some (arr', new, length new, used) \<and>
        parse_step False arr b n = Some (arr, [], length new, used) \<and> used \<le> n \<and> untouched b (b + used) arr arr' \<and>
        snd (first_address (map bare (drop b arr))) = map bare (drop (b + used) arr) \<and>
        list_all2 (stored b (b + used) arr') new
          (case fst (first_address (map bare (drop b arr))) of None \<Rightarrow> [] | Some x \<Rightarrow> [x]))"

lemma chain_next:
  "chain arr p is \<Longrightarrow> \<forall>i \<in> set is. tok_next (arr' ! i) = tok_next (arr ! i) \<Longrightarrow> length arr' = length arr \<Longrightarrow>
   chain arr' p is"
  by (induction rule: chain.induct) (auto intro: chain.intros)

lemma linked_untouched:
  assumes "linked lo hi arr p ts" "untouched lo' hi' arr arr'" "hi \<le> lo' \<or> hi' \<le> lo"
  shows "linked lo hi arr' p ts"
proof -
  obtain ps where ps: "chain arr p ps" "set ps \<subseteq> {lo ..< hi}" "map (\<lambda>i. bare (arr ! i)) ps = ts"
    using assms(1) by (auto simp: linked_def)
  have same: "arr' ! i = arr ! i" if "i \<in> set ps" for i
  proof -
    have "lo \<le> i" "i < hi" using ps(2) that by auto
    then show ?thesis using assms(2,3) by (auto simp: untouched_def)
  qed
  then have "chain arr' p ps" using chain_next[OF ps(1)] assms(2) by (simp add: untouched_def)
  moreover have "map (\<lambda>i. bare (arr' ! i)) ps = ts" using ps(3) same by auto
  ultimately show ?thesis using ps(2) unfolding linked_def by blast
qed

lemma linked_mono: "linked lo hi arr p ts \<Longrightarrow> lo' \<le> lo \<Longrightarrow> hi \<le> hi' \<Longrightarrow> linked lo' hi' arr p ts"
  unfolding linked_def by (elim exE conjE, intro exI conjI, assumption) auto

lemma linked_nil [simp]: "linked lo hi arr None []"
  by (auto simp: linked_def intro: chain.intros)

lemma linked_one: "lo \<le> i \<Longrightarrow> i < hi \<Longrightarrow> i < length arr \<Longrightarrow> tok_next (arr ! i) = None \<Longrightarrow> linked lo hi arr (Some i) [bare (arr ! i)]"
  unfolding linked_def by (intro exI[of _ "[i]"]) (auto intro!: chain.intros)

lemma map_upt_take: "b + n \<le> length arr \<Longrightarrow> map (\<lambda>i. f (arr ! i)) [b ..< b + n] = map f (take n (drop b arr))"
  by (rule nth_equalityI) auto

lemma linked_link:
  assumes "b + n \<le> length arr" "lo \<le> b" "b + n \<le> hi"
  shows "linked lo hi (link_loop arr b n) (ptr_to b n) (map bare (take n (drop b arr)))"
proof (cases "n = 0")
  case False
  have "map (\<lambda>i. bare (link_loop arr b n ! i)) [b ..< b + n] = map (\<lambda>i. bare (arr ! i)) [b ..< b + n]"
    using assms(1) by (auto simp: link_loop_nth bare_def)
  then show ?thesis using chain_link_loop[OF assms(1)] False assms
    unfolding linked_def by (intro exI[of _ "[b ..< b + n]"]) (auto simp: ptr_to_def map_upt_take)
qed (simp add: ptr_to_def)

lemma untouched_link: "untouched b (b + n) arr (link_loop arr b n)"
  by (auto simp: untouched_def link_loop_other)

lemma untouched_refl [simp]: "untouched lo hi arr arr"
  by (simp add: untouched_def)

lemma untouched_trans:
  "untouched lo hi arr arr' \<Longrightarrow> untouched lo' hi' arr' arr'' \<Longrightarrow> l \<le> lo \<Longrightarrow> l \<le> lo' \<Longrightarrow> hi \<le> h \<Longrightarrow> hi' \<le> h \<Longrightarrow>
   untouched l h arr arr''"
  by (simp add: untouched_def)

lemma untouched_drop: "untouched lo hi arr arr' \<Longrightarrow> hi \<le> k \<Longrightarrow> drop k arr' = drop k arr"
  by (rule nth_equalityI) (auto simp: untouched_def)

lemma scan_takeWhile:
  "b + n \<le> length arr \<Longrightarrow> scan P arr b n = length (takeWhile (\<lambda>t. P (token t)) (take n (drop b arr)))"
proof (induction n arbitrary: b)
  case (Suc n)
  then have "take (Suc n) (drop b arr) = arr ! b # take n (drop (b + 1) arr)" by (simp add: Cons_nth_drop_Suc[symmetric])
  then show ?case using Suc.IH[of "b + 1"] Suc.prems by simp
qed simp

lemma bare_simps [simp]:
  "token (bare t) = token t" "tok_ptr (bare t) = tok_ptr t" "tok_len (bare t) = tok_len t"
  "span_len (bare t) (bare u) = span_len t u" "bare (t\<lparr>token := c\<rparr>) = (bare t)\<lparr>token := c\<rparr>" "bare (bare t) = bare t"
  by (simp_all add: bare_def span_len_def split: tok_pointer.split)

text \<open>Comments of a name become quoted strings.\<close>

lemma comments_to_quotes_chain:
  "chain arr p ps \<Longrightarrow> distinct ps \<Longrightarrow>
   \<exists>arr'. comments_to_quotes arr p = Some arr' \<and> length arr' = length arr \<and>
     (\<forall>i. arr' ! i = (if i \<in> set ps \<and> token (arr ! i) = LPAREN then (arr ! i)\<lparr>token := QUOTE\<rparr> else arr ! i))"
proof (induction ps arbitrary: arr p)
  case Nil
  then have "p = None" by (cases rule: chain.cases) auto
  then show ?case by (subst comments_to_quotes.simps) simp
next
  case (Cons i ps)
  then have i: "p = Some i" "i < length arr" "chain arr (tok_next (arr ! i)) ps"
    by (auto elim: chain.cases)
  define arr1 where "arr1 = (if token (arr ! i) = LPAREN then arr[i := (arr ! i)\<lparr>token := QUOTE\<rparr>] else arr)"
  have len1: "length arr1 = length arr" by (simp add: arr1_def)
  have c1: "chain arr1 (tok_next (arr ! i)) ps"
    by (rule chain_next[OF i(3)]) (use i(2) in \<open>auto simp: arr1_def nth_list_update\<close>)
  obtain arr' where "comments_to_quotes arr1 (tok_next (arr ! i)) = Some arr'" "length arr' = length arr"
    "\<forall>j. arr' ! j = (if j \<in> set ps \<and> token (arr1 ! j) = LPAREN then (arr1 ! j)\<lparr>token := QUOTE\<rparr> else arr1 ! j)"
    using Cons.IH[OF c1] Cons.prems(2) len1 by auto
  moreover have "comments_to_quotes arr p = comments_to_quotes arr1 (tok_next (arr ! i))"
    unfolding i(1) using i(2) by (subst comments_to_quotes.simps) (simp add: arr1_def nth_list_update)
  ultimately show ?case using Cons.prems(2) i(2)
    by (auto simp: arr1_def nth_list_update)
qed

lemma span_len_ok:
  assumes "ts \<noteq> []" "placed i ts e" "\<forall>t \<in> set ts. tok_ptr t \<noteq> Empty"
  shows "span_len (hd ts) (last ts) \<noteq> None"
proof -
  have *: "\<exists>p. tok_ptr (last ts) = At p \<and> i \<le> p" if "ts \<noteq> []" "placed i ts e" "\<forall>t \<in> set ts. tok_ptr t \<noteq> Empty" for ts i
    using that
  proof (induction i ts e rule: placed.induct)
    case (2 i t ts e)
    then show ?case by (cases "ts = []") (fastforce split: tok_pointer.splits)+
  qed simp
  obtain t us where ts: "ts = t # us" using assms(1) by (cases ts) auto
  obtain p where p: "tok_ptr t = At p" "placed (p + tok_len t) us e"
    using assms(2,3) unfolding ts by (auto split: tok_pointer.splits)
  show ?thesis
  proof (cases "us = []")
    case True
    then show ?thesis using p by (simp add: ts span_len_def)
  next
    case False
    then obtain q where "tok_ptr (last us) = At q" "p + tok_len t \<le> q" using *[OF False p(2)] assms(3) ts by auto
    then show ?thesis using p False by (simp add: ts span_len_def)
  qed
qed

lemma length_takeWhile_all: "length (takeWhile P xs) = length xs \<longleftrightarrow> list_all P xs"
  by (induction xs) auto

lemma name_part_ok:
  assumes "b + i \<le> length arr" "placed e0 (take i (drop b arr)) e" "\<forall>t \<in> set (take i (drop b arr)). tok_ptr t \<noteq> Empty"
  shows "\<exists>arr1 name arr2. name_part arr b i = Some (arr1, name) \<and> comments_to_quotes arr1 name = Some arr2 \<and>
    untouched b (b + i) arr arr2 \<and> linked b (b + i) arr2 name (name_of (map bare (take i (drop b arr))))"
proof -
  let ?seg = "take i (drop b arr)"
  let ?P = "\<lambda>c. c = 0 \<or> c = LPAREN"
  have len: "length ?seg = i" using assms(1) by simp
  have all: "scan ?P arr b i = i \<longleftrightarrow> list_all (\<lambda>t. ?P (token t)) ?seg"
    unfolding scan_takeWhile[OF assms(1)] using len length_takeWhile_all[of "\<lambda>t. ?P (token t)" ?seg] by simp
  show ?thesis
  proof (cases "list_all (\<lambda>t. ?P (token t)) ?seg")
    case True
    let ?arr1 = "link_loop arr b i"
    have c: "chain ?arr1 (ptr_to b i) [b ..< b + i]"
      using chain_link_loop[OF assms(1)] by (cases "i = 0") (auto simp: ptr_to_def intro: chain.intros)
    obtain arr2 where a2: "comments_to_quotes ?arr1 (ptr_to b i) = Some arr2" "length arr2 = length arr"
      "\<forall>j. arr2 ! j = (if j \<in> set [b ..< b + i] \<and> token (?arr1 ! j) = LPAREN then (?arr1 ! j)\<lparr>token := QUOTE\<rparr> else ?arr1 ! j)"
      using comments_to_quotes_chain[OF c] by auto
    let ?q = "\<lambda>t. if token t = LPAREN then t\<lparr>token := QUOTE\<rparr> else t"
    have nth: "bare (arr2 ! j) = ?q (bare (arr ! j))" if "j \<in> set [b ..< b + i]" for j
      using a2(3) that assms(1) by (auto simp: link_loop_nth bare_def)
    have "chain arr2 (ptr_to b i) [b ..< b + i]" by (rule chain_next[OF c]) (use a2 in auto)
    moreover have "map (\<lambda>j. bare (arr2 ! j)) [b ..< b + i] = map ?q (map bare ?seg)"
    proof -
      have "map (\<lambda>j. bare (arr2 ! j)) [b ..< b + i] = map (\<lambda>j. ?q (bare (arr ! j))) [b ..< b + i]"
        by (rule map_cong[OF refl]) (rule nth)
      also have "\<dots> = map (\<lambda>t. ?q (bare t)) ?seg" by (rule map_upt_take[OF assms(1)])
      finally show ?thesis by simp
    qed
    ultimately have "linked b (b + i) arr2 (ptr_to b i) (name_of (map bare ?seg))"
      using True unfolding linked_def name_of_def by (intro exI[of _ "[b ..< b + i]"]) (auto simp: list_all_iff)
    moreover have "untouched b (b + i) arr arr2" using a2 by (auto simp: untouched_def link_loop_other)
    ultimately show ?thesis using True all a2(1) by (auto simp: name_part_def ptr_to_def)
  next
    case False
    then have i: "0 < i" "?seg \<noteq> []" using len by (auto intro: gr0I)
    then have ends: "hd ?seg = arr ! b" "last ?seg = arr ! (b + i - 1)"
      using assms(1) len by (simp_all add: hd_drop_conv_nth last_conv_nth)
    obtain l where l: "span_len (arr ! b) (arr ! (b + i - 1)) = Some l"
      using span_len_ok[OF i(2) assms(2,3)] ends by auto
    let ?arr1 = "arr[b := (arr ! b)\<lparr>tok_len := l, token := QUOTE, tok_next := None\<rparr>]"
    have b: "b < length arr" using i assms(1) by simp
    have "comments_to_quotes ?arr1 (Some b) = Some ?arr1"
      using b by (subst comments_to_quotes.simps) (simp, subst comments_to_quotes.simps, simp)
    moreover have "name_of (map bare ?seg) = [bare (?arr1 ! b)]"
    proof -
      have "name_of (map bare ?seg) = [(bare (arr ! b))\<lparr>token := QUOTE, tok_len := l\<rparr>]"
        using False i(2) ends l by (auto simp: name_of_def list_all_iff hd_map last_map)
      then show ?thesis using b by (simp add: bare_def)
    qed
    moreover have "linked b (b + i) ?arr1 (Some b) [bare (?arr1 ! b)]" using b i(1) by (intro linked_one) auto
    moreover have "untouched b (b + i) arr ?arr1" using i(1) by (simp add: untouched_def)
    moreover have "name_part arr b i = Some (?arr1, Some b)" using False all l by (simp add: name_part_def)
    ultimately show ?thesis by auto
  qed
qed

text \<open>The comments of an old-style address are squeezed out.\<close>

lemma compact_loop_ok:
  "compact_loop arr j k m save = (arr', e, save') \<Longrightarrow> k \<le> j \<Longrightarrow> j + m \<le> length arr \<Longrightarrow>
   (let kept = filter (\<lambda>t. token t \<noteq> LPAREN) (take m (drop j arr)) in
    e = k + length kept \<and> take (length kept) (drop k arr') = kept \<and> untouched k e arr arr' \<and>
    save' = last (save # filter (\<lambda>t. token t = LPAREN) (take m (drop j arr))))"
proof (induction arr j k m save rule: compact_loop.induct)
  case (2 arr j k m save)
  have seg: "take (Suc m) (drop j arr) = arr ! j # take m (drop (j + 1) arr)"
    using "2.prems" by (simp add: Cons_nth_drop_Suc[symmetric])
  show ?case
  proof (cases "token (arr ! j) = LPAREN")
    case True
    let ?kept = "filter (\<lambda>t. token t \<noteq> LPAREN) (take m (drop (j + 1) arr))"
    have "e = k + length ?kept" "take (length ?kept) (drop k arr') = ?kept" "untouched k e arr arr'"
      "save' = last (arr ! j # filter (\<lambda>t. token t = LPAREN) (take m (drop (j + 1) arr)))"
      using "2.IH"(1)[OF True] "2.prems" True by (auto simp: Let_def)
    then show ?thesis using True unfolding seg by (simp add: Let_def)
  next
    case False
    let ?arr = "arr[k := arr ! j]"
    have seg': "take m (drop (j + 1) ?arr) = take m (drop (j + 1) arr)" using "2.prems"(2) by simp
    let ?kept = "filter (\<lambda>t. token t \<noteq> LPAREN) (take m (drop (j + 1) arr))"
    have IH: "e = k + 1 + length ?kept" "take (length ?kept) (drop (k + 1) arr') = ?kept" "untouched (k + 1) e ?arr arr'"
      "save' = last (save # filter (\<lambda>t. token t = LPAREN) (take m (drop (j + 1) arr)))"
      using "2.IH"(2)[OF False] "2.prems" False unfolding seg' by (auto simp: Let_def)
    have k: "k < length arr" "length arr' = length arr" "arr' ! k = arr ! j"
      using IH(3) "2.prems" by (auto simp: untouched_def)
    then have "drop k arr' = arr ! j # drop (k + 1) arr'" by (simp add: Cons_nth_drop_Suc[symmetric])
    moreover have "untouched k e arr arr'" using IH(1,3) by (auto simp: untouched_def)
    ultimately show ?thesis using IH False unfolding seg by (simp add: Let_def)
  qed
qed simp

lemma cut_bare: "cut P (map bare ts) = (map bare (fst (cut P ts)), map bare (snd (cut P ts)))"
  by (simp add: cut_def takeWhile_map dropWhile_map comp_def)

lemma starts_bare: "starts c (map bare ts) = starts c ts"
  by (auto simp: starts_def hd_map)

lemma old_length_bare: "old_length flag (map bare ts) = old_length flag ts"
  by (induction flag ts rule: old_length.induct) auto

lemma old_length_le: "old_length flag ts \<le> length ts"
  by (induction flag ts rule: old_length.induct) auto

lemma scan_cut: "b + n = length arr \<Longrightarrow> scan P arr b n = length (fst (cut P (drop b arr)))"
  using scan_takeWhile[of b n arr P] by (simp add: cut_def)

lemma cut_snd_drop: "snd (cut P ts) = drop (length (fst (cut P ts))) ts"
  using cut_take[of P ts] by (metis snd_conv)

lemma cut_fst_take: "fst (cut P ts) = take (length (fst (cut P ts))) ts"
  using cut_take[of P ts] by (metis fst_conv)

lemma scan_starts:
  assumes "b + n = length arr"
  shows "scan P arr b n < n \<and> token (arr ! (b + scan P arr b n)) = c \<longleftrightarrow> starts c (snd (cut P (drop b arr)))"
proof -
  let ?k = "length (fst (cut P (drop b arr)))"
  have "starts c (drop ?k (drop b arr)) \<longleftrightarrow> ?k < n \<and> token (arr ! (b + ?k)) = c"
    using assms by (auto simp: starts_def hd_drop_conv_nth add.commute)
  then show ?thesis unfolding scan_cut[OF assms] cut_snd_drop[symmetric] by simp
qed

lemma old_end_length: "b + n = length arr \<Longrightarrow> old_end arr b n flag = old_length flag (drop b arr)"
proof (induction n arbitrary: b flag)
  case (Suc n)
  then have "drop b arr = arr ! b # drop (b + 1) arr" by (simp add: Cons_nth_drop_Suc)
  then show ?case using Suc.IH[of "b + 1"] Suc.prems by (simp add: Let_def)
qed simp

lemma parse_step_cut:
  assumes "b + n = length arr" "0 < n"
  shows "parse_step fill arr b n =
    (let ts = drop b arr in
     if starts COLON (snd (cut is_phrase ts)) then Some (parse_group fill arr b (length (fst (cut is_phrase ts)) + 1))
     else if starts COMMA ts \<or> starts SEMI ts then Some (parse_fluff fill arr b)
     else if starts LT (snd (cut no_angle ts)) then parse_route fill arr b n (length (fst (cut no_angle ts)))
     else Some (parse_old fill arr b n))"
proof -
  have "token (arr ! b) = c \<longleftrightarrow> starts c (drop b arr)" for c
    using assms by (simp add: starts_def hd_drop_conv_nth)
  then show ?thesis
    unfolding parse_step_def Let_def scan_starts[OF assms(1)] by (simp add: scan_cut[OF assms(1)])
qed

lemma step_group:
  assumes "b + n = length arr" "0 < n" "starts COLON (snd (cut is_phrase (drop b arr)))"
  shows "step_good arr b n"
proof -
  let ?ts = "drop b arr" and ?k = "length (fst (cut is_phrase (drop b arr)))"
  have d: "starts COLON (drop ?k ?ts)" using assms(3) unfolding cut_snd_drop[symmetric] .
  note k = starts_drop[OF d]
  have f: "fst (first_address (map bare ?ts)) = Some ([], map bare (take (?k + 1) ?ts))"
    "snd (first_address (map bare ?ts)) = map bare (drop (b + (?k + 1)) arr)"
  proof -
    have *: "first_address (map bare ?ts) = (Some ([], map bare (fst (cut is_phrase ?ts) @ [hd (snd (cut is_phrase ?ts))])),
        map bare (tl (snd (cut is_phrase ?ts))))"
      using first_address_group[of "map bare ?ts"] starts_nonempty[OF assms(3)] assms(3)
      by (simp add: cut_bare starts_bare hd_map map_tl)
    show "fst (first_address (map bare ?ts)) = Some ([], map bare (take (?k + 1) ?ts))"
      using k * cut_fst_take[of is_phrase ?ts] cut_snd_drop[of is_phrase ?ts] by simp
    show "snd (first_address (map bare ?ts)) = map bare (drop (b + (?k + 1)) arr)"
      using * cut_snd_drop[of is_phrase ?ts] by (simp add: tl_drop drop_Suc add.commute)
  qed
  have "linked b (b + (?k + 1)) (link_loop arr b (?k + 1)) (ptr_to b (?k + 1)) (map bare (take (?k + 1) ?ts))"
    using k assms(1) by (intro linked_link) auto
  moreover have "parse_step fill arr b n = Some (parse_group fill arr b (?k + 1))" for fill
    using assms(3) by (simp add: parse_step_cut[OF assms(1,2)])
  moreover have "?k + 1 \<le> n" using conjunct1[OF k] assms(1) by simp
  ultimately show ?thesis
    unfolding step_good_def f using untouched_link[of b "?k + 1" arr] by (simp add: parse_group_def stored_def)
qed

lemma step_fluff:
  assumes "b + n = length arr" "0 < n" "\<not> starts COLON (snd (cut is_phrase (drop b arr)))"
    and "starts COMMA (drop b arr) \<or> starts SEMI (drop b arr)"
  shows "step_good arr b n"
proof -
  have b: "b < length arr" "drop b arr = arr ! b # drop (b + 1) arr" using assms by (simp_all add: Cons_nth_drop_Suc)
  have g: "\<not> starts COLON (snd (cut is_phrase (map bare (drop b arr))))"
    using assms(3) by (simp add: cut_bare starts_bare)
  have p: "parse_step fill arr b n = Some (parse_fluff fill arr b)" for fill
    using assms(3,4) by (simp add: parse_step_cut[OF assms(1,2)])
  show ?thesis
  proof (cases "starts COMMA (drop b arr)")
    case True
    then have "first_address (map bare (drop b arr)) = (None, map bare (drop (b + 1) arr))"
      using first_address_comma[OF g] by (simp add: starts_bare map_tl[symmetric] tl_drop drop_Suc)
    moreover have "token (arr ! b) = COMMA" using True b by (simp add: starts_def)
    ultimately show ?thesis using assms(2) unfolding step_good_def p by (simp add: parse_fluff_def)
  next
    case False
    then have s: "token (arr ! b) = SEMI" using assms(4) b by (simp add: starts_def)
    then have "starts SEMI (map bare (drop b arr))" using b(2) by (simp add: starts_def)
    then have f: "first_address (map bare (drop b arr)) = (Some ([], [bare (arr ! b)]), map bare (drop (b + 1) arr))"
      using first_address_semi[OF g] False b(1)
      by (simp add: starts_bare map_tl[symmetric] tl_drop drop_Suc hd_map hd_drop_conv_nth)
    let ?arr = "arr[b := (arr ! b)\<lparr>tok_next := None\<rparr>]"
    have "linked b (b + 1) ?arr (Some b) [bare (?arr ! b)]" using b by (intro linked_one) auto
    then have "linked b (b + 1) ?arr (Some b) [bare (arr ! b)]" using b by (simp add: bare_def)
    moreover have "untouched b (b + 1) arr ?arr" by (simp add: untouched_def)
    ultimately show ?thesis
      using assms(2) s unfolding step_good_def p f by (simp add: parse_fluff_def stored_def)
  qed
qed

lemma placed_take: "placed i ts e \<Longrightarrow> placed i (take k ts) e"
proof (induction i ts e arbitrary: k rule: placed.induct)
  case (2 i t ts e)
  then show ?case by (cases k) (auto split: tok_pointer.splits dest: placed_le)
qed simp

lemma no_empty: "empty_ok False ts \<Longrightarrow> \<forall>t \<in> set (take k ts). token t \<noteq> LT \<Longrightarrow> \<forall>t \<in> set (take k ts). tok_ptr t \<noteq> Empty"
proof (induction ts arbitrary: k)
  case (Cons t ts)
  then show ?case by (cases k) auto
qed simp

lemma placed_not_null: "placed i ts e \<Longrightarrow> t \<in> set ts \<Longrightarrow> tok_ptr t \<noteq> Null"
  by (induction i ts e rule: placed.induct) (auto split: tok_pointer.splits)

lemma step_route:
  assumes "b + n = length arr" "0 < n" "\<not> starts COLON (snd (cut is_phrase (drop b arr)))"
    and "\<not> starts COMMA (drop b arr)" "\<not> starts SEMI (drop b arr)" "starts LT (snd (cut no_angle (drop b arr)))"
    and "placed e0 (drop b arr) e" "empty_ok False (drop b arr)"
  shows "step_good arr b n"
proof -
  let ?ts = "drop b arr"
  define i where "i = length (fst (cut no_angle ?ts))"
  have d: "starts LT (drop i ?ts)" using assms(6) unfolding i_def cut_snd_drop[symmetric] .
  have i: "i < n" using conjunct1[OF starts_drop[OF d]] assms(1) by simp
  let ?b = "b + (i + 1)"
  define k where "k = length (fst (cut (\<lambda>c. c \<noteq> GT) (drop ?b arr)))"
  have before: "fst (cut no_angle ?ts) = take i ?ts" unfolding i_def by (rule cut_fst_take)
  have angle: "tl (snd (cut no_angle ?ts)) = drop ?b arr"
    unfolding cut_snd_drop i_def[symmetric] by (simp add: tl_drop drop_Suc add.commute)
  have "k \<le> length (drop ?b arr)" unfolding k_def cut_def by (simp add: length_takeWhile_le del: length_drop)
  then have k: "k \<le> n - (i + 1)" "fst (cut (\<lambda>c. c \<noteq> GT) (drop ?b arr)) = take k (drop ?b arr)"
    "snd (cut (\<lambda>c. c \<noteq> GT) (drop ?b arr)) = drop (?b + k) arr"
    using assms(1) cut_snd_drop[of "\<lambda>c. c \<noteq> GT" "drop ?b arr"] cut_fst_take[of "\<lambda>c. c \<noteq> GT" "drop ?b arr"]
    unfolding k_def[symmetric] by (simp_all add: add.commute)
  obtain arr1 name arr2 where np: "name_part arr b i = Some (arr1, name)" "comments_to_quotes arr1 name = Some arr2"
    "untouched b (b + i) arr arr2" "linked b (b + i) arr2 name (name_of (map bare (take i ?ts)))"
    using name_part_ok[of b i arr e0 e] placed_take[OF assms(7), of i] no_empty[OF assms(8), of i] cut_fst[of _ no_angle ?ts]
      i assms(1) unfolding before by auto
  have d2: "drop ?b arr2 = drop ?b arr" "length arr2 = length arr"
    using untouched_drop[OF np(3)] np(3) by (simp_all add: untouched_def)
  have scans: "scan (\<lambda>c. c \<noteq> GT) arr2 ?b (n - (i + 1)) = k" "scan (\<lambda>c. c \<noteq> GT) arr ?b (n - (i + 1)) = k"
    using assms(1) i d2 scan_cut[of ?b "n - (i + 1)"] by (simp_all add: k_def)
  define used where "used = i + 1 + k + (if n - (i + 1) - k = 0 then 0 else 1)"
  let ?arr = "link_loop arr2 ?b k" and ?new = "[\<lparr>addr_tokens = ptr_to ?b k, addr_name = name\<rparr>]"
  have p: "parse_step True arr b n = Some (?arr, ?new, 1, used)" "parse_step False arr b n = Some (arr, [], 1, used)"
    using assms(3-6) np(1,2) scans
    by (simp_all add: parse_step_cut[OF assms(1,2)] i_def[symmetric] parse_route_def Let_def used_def le_diff_conv)
  have rest: "drop 1 (drop (?b + k) arr) = drop (b + used) arr"
    using assms(1) by (auto simp: used_def add.assoc)
  have f: "first_address (map bare ?ts) = (Some (map bare (take k (drop ?b arr)), name_of (map bare (take i ?ts))), map bare (drop (b + used) arr))"
    using first_address_route[of "map bare ?ts"] assms(3-6)
    by (simp only: starts_bare cut_bare fst_conv snd_conv map_tl[symmetric] angle k before rest drop_map not_False_eq_True)
  have "linked b (b + used) ?arr (ptr_to ?b k) (map bare (take k (drop ?b arr2)))"
    by (intro linked_link) (use k(1) i assms(1) d2 in \<open>auto simp: used_def\<close>)
  then have "linked b (b + used) ?arr (ptr_to ?b k) (map bare (take k (drop ?b arr)))" unfolding d2(1) .
  moreover have "linked b (b + used) ?arr name (name_of (map bare (take i ?ts)))"
    by (rule linked_mono[OF linked_untouched[OF np(4) untouched_link]]) (auto simp: used_def)
  moreover have "untouched b (b + used) arr ?arr"
    by (rule untouched_trans[OF np(3) untouched_link]) (auto simp: used_def)
  moreover have "used \<le> n" using k(1) i by (auto simp: used_def)
  ultimately show ?thesis unfolding step_good_def p f by (simp add: stored_def)
qed

lemma step_old:
  assumes "b + n = length arr" "0 < n" "\<not> starts COLON (snd (cut is_phrase (drop b arr)))"
    and "\<not> starts COMMA (drop b arr)" "\<not> starts SEMI (drop b arr)" "\<not> starts LT (snd (cut no_angle (drop b arr)))"
    and "placed e0 (drop b arr) e"
  shows "step_good arr b n"
proof -
  let ?ts = "drop b arr"
  define i where "i = old_length False ?ts"
  let ?old = "take i ?ts"
  let ?kept = "filter (\<lambda>t. token t \<noteq> LPAREN) ?old" and ?com = "filter (\<lambda>t. token t = LPAREN) ?old"
  have i: "0 < i" "b + i \<le> length arr"
    using old_length_pos[of ?ts] old_length_le[of False ?ts] assms(1,2,4,5) by (auto simp: i_def)
  obtain arr1 e1 save where c: "compact_loop arr b b i null_token = (arr1, e1, save)" by (cases "compact_loop arr b b i null_token")
  define k where "k = length ?kept"
  have cl: "e1 = b + k" "take k (drop b arr1) = ?kept" "untouched b (b + k) arr arr1" "save = last (null_token # ?com)"
    using compact_loop_ok[OF c] i(2) by (auto simp: Let_def k_def)
  have kc: "k + length ?com = i"
    using sum_length_filter_compl[of "\<lambda>t. token t = LPAREN" ?old] i(2) by (simp add: k_def)
  have oe: "old_end arr b n False = i" using old_end_length[OF assms(1)] by (simp add: i_def)
  have old: "parse_step fill arr b n = Some (parse_old fill arr b n)" for fill
    using assms(3-6) by (simp add: parse_step_cut[OF assms(1,2)])
  have f: "first_address (map bare ?ts) = (Some (map bare ?kept, if ?com = [] then [] else [bare (last ?com)]), map bare (drop (b + i) arr))"
  proof -
    have "first_address (map bare ?ts) = (Some (old_address (map bare ?old)), map bare (drop i ?ts))"
      using first_address_old[of "map bare ?ts"] assms(3-6)
      by (simp add: starts_bare cut_bare old_length_bare i_def[symmetric] take_map drop_map)
    then show ?thesis by (simp add: old_address_def filter_map comp_def last_map Let_def add.commute)
  qed
  define arr2 name where "arr2 = (if ?com = [] then arr1 else arr1[b + i - 1 := (last ?com)\<lparr>tok_next := None\<rparr>])"
    and "name = (if ?com = [] then None else Some (b + i - 1))"
  have save: "tok_ptr save \<noteq> Null \<longleftrightarrow> ?com \<noteq> []"
  proof (cases "?com = []")
    case False
    then have "save \<in> set ?com" using cl(4) last_in_set[of ?com] by simp
    then have "save \<in> set ?ts" by (auto dest: in_set_takeD)
    then show ?thesis using placed_not_null[OF assms(7)] False by blast
  qed (use cl(4) in \<open>simp add: null_token_def\<close>)
  let ?arr = "link_loop arr2 b k" and ?new = "[\<lparr>addr_tokens = ptr_to b k, addr_name = name\<rparr>]"
  have p: "parse_step True arr b n = Some (?arr, ?new, 1, i)" "parse_step False arr b n = Some (arr, [], 1, i)"
    unfolding old parse_old_def oe using i(1) c cl(1,4) save
    by (auto simp: Let_def arr2_def name_def split: if_splits)
  have com: "?com \<noteq> [] \<Longrightarrow> k < i" using kc by (cases ?com) auto
  have len: "length arr2 = length arr" using cl(3) by (simp add: arr2_def untouched_def)
  have "take k (drop b arr2) = take k (drop b arr1)"
    using com cl(3) by (intro nth_equalityI) (auto simp: arr2_def untouched_def)
  then have len: "length arr2 = length arr" "take k (drop b arr2) = ?kept" using len cl(2) by simp_all
  have "linked b (b + i) ?arr (ptr_to b k) (map bare ?kept)"
    using linked_link[of b k arr2 b "b + i"] kc i(2) len by simp
  moreover have "linked b (b + i) ?arr name (if ?com = [] then [] else [bare (last ?com)])"
  proof (cases "?com = []")
    case False
    then have k: "k < i" by (rule com)
    then have "?arr ! (b + i - 1) = arr2 ! (b + i - 1)" by (intro link_loop_other) auto
    then have nth: "?arr ! (b + i - 1) = (last ?com)\<lparr>tok_next := None\<rparr>"
      using False i cl(3) by (simp add: arr2_def untouched_def)
    have "linked b (b + i) ?arr (Some (b + i - 1)) [bare (?arr ! (b + i - 1))]"
      using i len(1) nth by (intro linked_one) auto
    then show ?thesis using False unfolding nth name_def by (simp add: bare_def)
  qed (simp add: name_def)
  moreover have "untouched b (b + i) arr ?arr"
  proof (rule untouched_trans[OF _ untouched_link])
    show "untouched b (b + i) arr arr2" using cl(3) kc i by (auto simp: untouched_def arr2_def)
  qed (use kc in auto)
  ultimately show ?thesis
    using i assms(1) unfolding step_good_def p f by (auto simp: stored_def)
qed

lemma step_is_good:
  assumes "b + n = length arr" "0 < n" "placed e0 (drop b arr) e" "empty_ok False (drop b arr)"
  shows "step_good arr b n"
  using step_group[OF assms(1,2)] step_fluff[OF assms(1,2)] step_route[OF assms(1,2)] step_old[OF assms(1,2)] assms(3,4)
  by blast

text \<open>What follows an address is placed and has no stray empty token again.\<close>

lemma placed_drop: "placed i ts e \<Longrightarrow> \<exists>i'. placed i' (drop k ts) e"
proof (induction i ts e arbitrary: k rule: placed.induct)
  case (2 i t ts e)
  then show ?case by (cases k) (auto split: tok_pointer.splits)
qed auto

lemma empty_ok_drop: "empty_ok lt ts \<Longrightarrow> \<not> starts LT (drop k ts) \<Longrightarrow> empty_ok False (drop (k + 1) ts)"
proof (induction ts arbitrary: k lt)
  case (Cons t ts)
  then show ?case by (cases k) (auto simp: starts_def)
qed simp

lemma empty_ok_bare: "empty_ok lt (map bare ts) = empty_ok lt ts"
  by (induction ts arbitrary: lt) auto

lemma old_length_no_LT:
  "\<not> starts LT (snd (cut no_angle ts)) \<Longrightarrow> \<forall>t \<in> set (take (old_length flag ts) ts). token t \<noteq> LT"
proof (induction flag ts rule: old_length.induct)
  case (2 flag t ts)
  show ?case
  proof (cases "token t = COMMA \<or> token t = SEMI")
    case False
    then have t: "token t \<noteq> LT" using "2.prems" by (auto simp: cut_def starts_def)
    then have "\<not> starts LT (snd (cut no_angle ts))" using "2.prems" False by (simp add: cut_def)
    then show ?thesis using "2.IH" False t by simp
  qed simp
qed simp

lemma first_address_empty_ok:
  assumes "ts \<noteq> []" "empty_ok False ts"
  shows "empty_ok False (snd (first_address ts))"
proof -
  have d: "empty_ok False (drop (k + 1) ts)" if "\<not> starts LT (drop k ts)" for k
    using empty_ok_drop[OF assms(2) that] .
  show ?thesis
  proof (cases rule: address_cases[of ts])
    case group
    then have "\<not> starts LT (snd (cut is_phrase ts))" by (auto simp: starts_def)
    then show ?thesis using d[of "length (fst (cut is_phrase ts))"]
      unfolding first_address_group[OF group] cut_snd_drop by (simp add: tl_drop drop_Suc)
  next
    case comma
    then have "\<not> starts LT (drop 0 ts)" by (auto simp: starts_def)
    then show ?thesis using d[of 0] unfolding first_address_comma[OF comma] by (simp add: drop_Suc)
  next
    case semi
    then have "\<not> starts LT (drop 0 ts)" by (auto simp: starts_def)
    then show ?thesis using d[of 0] unfolding first_address_semi[OF semi] by (simp add: drop_Suc)
  next
    case route
    let ?w = "tl (snd (cut no_angle ts))" and ?G = "\<lambda>c. c \<noteq> GT"
    let ?k = "length (fst (cut no_angle ts)) + 1 + length (fst (cut ?G ?w))"
    have w: "snd (cut ?G ?w) = drop ?k ts"
      using cut_snd_drop[of no_angle ts] cut_snd_drop[of ?G ?w] by (simp add: tl_drop drop_Suc add.commute)
    have "\<not> starts LT (snd (cut ?G ?w))" using cut_snd[of ?G ?w] by (cases "cut ?G ?w") (auto simp: starts_def)
    then have "\<not> starts LT (drop ?k ts)" unfolding w .
    then show ?thesis using d[of ?k] unfolding first_address_route[OF route] w by simp
  next
    case old
    let ?k = "old_length False ts"
    have k: "0 < ?k" "?k \<le> length ts" using old_length_pos[OF assms(1) old(2,3)] old_length_le by blast+
    then have "ts ! (?k - 1) \<in> set (take ?k ts)" by (auto simp: set_conv_nth intro: exI[of _ "?k - 1"])
    then have "\<not> starts LT (drop (?k - 1) ts)"
      using old_length_no_LT[OF old(4)] k by (auto simp: starts_def hd_drop_conv_nth)
    then show ?thesis using d[of "?k - 1"] k unfolding first_address_old[OF old] by simp
  qed
qed

lemma parseaddr_count:
  "b + n = length arr \<Longrightarrow> placed e0 (drop b arr) e \<Longrightarrow> empty_ok False (drop b arr) \<Longrightarrow>
   parseaddr_loop False arr b n as c = Some (arr, as, c + length (addresses (map bare (drop b arr))))"
proof (induction n arbitrary: b e0 as c rule: less_induct)
  case (less n)
  show ?case
  proof (cases "n = 0")
    case True
    then show ?thesis using less.prems(1) by (subst parseaddr_loop.simps) (simp add: addresses.simps)
  next
    case False
    let ?ts = "map bare (drop b arr)"
    have ne: "?ts \<noteq> []" using False less.prems(1) by simp
    obtain arr' new used where g: "parse_step False arr b n = Some (arr, [], length new, used)" "used \<le> n"
      "snd (first_address ?ts) = map bare (drop (b + used) arr)"
      "list_all2 (stored b (b + used) arr') new (case fst (first_address ?ts) of None \<Rightarrow> [] | Some x \<Rightarrow> [x])"
      using step_is_good[of b n arr] False less.prems unfolding step_good_def by blast
    have u: "0 < used" using parse_step_used[OF g(1)] .
    have e: "empty_ok False (drop (b + used) arr)"
      using first_address_empty_ok[OF ne] less.prems(3) g(3) by (simp add: empty_ok_bare)
    obtain e1 where p: "placed e1 (drop (b + used) arr) e"
      using placed_drop[OF less.prems(2), of used] by (auto simp: add.commute)
    have "parseaddr_loop False arr b n as c = parseaddr_loop False arr (b + used) (n - used) as (c + length new)"
      using False g(1) by (subst parseaddr_loop.simps) simp
    also have "\<dots> = Some (arr, as, c + length new + length (addresses (map bare (drop (b + used) arr))))"
      using u g(2) less.prems(1) e p False by (intro less.IH) auto
    finally have "parseaddr_loop False arr b n as c =
        Some (arr, as, c + (length new + length (addresses (map bare (drop (b + used) arr)))))" by (simp add: add.assoc)
    also have "length new + length (addresses (map bare (drop (b + used) arr))) = length (addresses ?ts)"
      using list_all2_lengthD[OF g(4)] unfolding addresses_step[OF ne] g(3) by (simp split: option.splits)
    finally show ?thesis .
  qed
qed

lemma parseaddr_fill:
  "b + n = length arr \<Longrightarrow> placed e0 (drop b arr) e \<Longrightarrow> empty_ok False (drop b arr) \<Longrightarrow>
   \<exists>arr' new. parseaddr_loop True arr b n as c = Some (arr', as @ new, c + length new) \<and> untouched b (b + n) arr arr' \<and>
     list_all2 (stored b (b + n) arr') new (addresses (map bare (drop b arr)))"
proof (induction n arbitrary: b arr e0 as c rule: less_induct)
  case (less n)
  show ?case
  proof (cases "n = 0")
    case True
    then show ?thesis using less.prems(1) by (subst parseaddr_loop.simps) (simp add: addresses.simps)
  next
    case False
    let ?ts = "map bare (drop b arr)"
    have ne: "?ts \<noteq> []" using False less.prems(1) by simp
    obtain arr1 new used where g: "parse_step True arr b n = Some (arr1, new, length new, used)" "used \<le> n"
      "untouched b (b + used) arr arr1" "snd (first_address ?ts) = map bare (drop (b + used) arr)"
      "list_all2 (stored b (b + used) arr1) new (case fst (first_address ?ts) of None \<Rightarrow> [] | Some x \<Rightarrow> [x])"
      using step_is_good[of b n arr] False less.prems unfolding step_good_def by blast
    have u: "0 < used" using parse_step_used[OF g(1)] .
    have d: "drop (b + used) arr1 = drop (b + used) arr" "length arr1 = length arr"
      using untouched_drop[OF g(3)] g(3) by (simp_all add: untouched_def)
    have e: "empty_ok False (drop (b + used) arr1)"
      using first_address_empty_ok[OF ne] less.prems(3) g(4) d by (simp add: empty_ok_bare)
    obtain e1 where p: "placed e1 (drop (b + used) arr1) e"
      using placed_drop[OF less.prems(2), of used] d by (auto simp: add.commute)
    have "\<exists>arr' new'. parseaddr_loop True arr1 (b + used) (n - used) (as @ new) (c + length new) =
        Some (arr', (as @ new) @ new', c + length new + length new') \<and> untouched (b + used) (b + used + (n - used)) arr1 arr' \<and>
        list_all2 (stored (b + used) (b + used + (n - used)) arr') new' (addresses (map bare (drop (b + used) arr1)))"
      using u g(2) less.prems(1) e p False d(2) by (intro less.IH) auto
    then obtain arr' new' where r:
      "parseaddr_loop True arr1 (b + used) (n - used) (as @ new) (c + length new) = Some (arr', as @ new @ new', c + length (new @ new'))"
      "untouched (b + used) (b + n) arr1 arr'"
      "list_all2 (stored (b + used) (b + n) arr') new' (addresses (map bare (drop (b + used) arr)))"
      using g(2) d(1) by (auto simp: add.assoc)
    have "parseaddr_loop True arr b n as c = Some (arr', as @ new @ new', c + length (new @ new'))"
      using False g(1) r(1) by (subst parseaddr_loop.simps) simp
    moreover have "untouched b (b + n) arr arr'" by (rule untouched_trans[OF g(3) r(2)]) (use g(2) in auto)
    moreover have "list_all2 (stored b (b + n) arr') (new @ new') (addresses ?ts)"
      unfolding addresses_step[OF ne] g(4)
    proof (rule list_all2_appendI)
      show "list_all2 (stored b (b + n) arr') new (case fst (first_address ?ts) of None \<Rightarrow> [] | Some x \<Rightarrow> [x])"
        by (rule list_all2_mono[OF g(5)])
          (use r(2) g(2) in \<open>auto simp: stored_def intro: linked_mono[OF linked_untouched[OF _ r(2)]]\<close>)
      show "list_all2 (stored b (b + n) arr') new' (addresses (map bare (drop (b + used) arr)))"
        by (rule list_all2_mono[OF r(3)]) (auto simp: stored_def intro: linked_mono)
    qed
    ultimately show ?thesis by blast
  qed
qed

text \<open>Both passes on an array from the tokenizer.\<close>

lemma empty_ok_atom: "empty_ok lt ts \<Longrightarrow> t \<in> set ts \<Longrightarrow> tok_ptr t = Empty \<Longrightarrow> token t = 0"
  by (induction ts arbitrary: lt) auto

lemma tok_view_bare [simp]: "tok_view s (bare t) = tok_view s t"
  by (simp add: bare_def)

lemma rfc822a_alloc_ok:
  assumes "0 \<notin> set s"
  obtains ts es arr as where "rfc822t_alloc_new s = (\<lparr>tokens = ts, ntokens = length ts\<rparr>, es)" "length arr = length ts"
    "rfc822a_alloc \<lparr>tokens = ts, ntokens = length ts\<rparr> = Some (arr, \<lparr>addrs = as, naddrs = length as\<rparr>)"
    "list_all2 (stored 0 (length ts) arr) as (addresses (map bare ts))" "map (tok_view s) ts = fst (lex False s)"
    "es \<noteq> [] \<longleftrightarrow> snd (lex False s)" "\<forall>t \<in> set ts. token t = 0 \<or> (\<exists>p. tok_ptr t = At p)"
proof (rule alloc_new_lex[OF assms])
  fix ts es
  assume t: "rfc822t_alloc_new s = (\<lparr>tokens = ts, ntokens = length ts\<rparr>, es)" "placed 0 ts (length s)" "empty_ok False ts"
    "map (tok_view s) ts = fst (lex False s)" "es \<noteq> [] \<longleftrightarrow> snd (lex False s)"
  let ?n = "length (addresses (map bare ts))"
  have c: "parseaddr False ts (length ts) = Some (ts, [], ?n)"
    using parseaddr_count[of 0 "length ts" ts] t by (simp add: parseaddr_def)
  obtain arr as where f: "parseaddr True ts (length ts) = Some (arr, as, length as)" "untouched 0 (length ts) ts arr"
    "list_all2 (stored 0 (length ts) arr) as (addresses (map bare ts))"
    using parseaddr_fill[of 0 "length ts" ts 0 "length s" "[]" 0] t by (auto simp: parseaddr_def)
  have "length as = ?n" using list_all2_lengthD[OF f(3)] .
  then have "rfc822a_alloc \<lparr>tokens = ts, ntokens = length ts\<rparr> = Some (arr, \<lparr>addrs = as, naddrs = length as\<rparr>)"
    using c f(1) by (simp add: rfc822a_alloc_def memcpy_at_def)
  moreover have "\<forall>t \<in> set ts. token t = 0 \<or> (\<exists>p. tok_ptr t = At p)"
    using empty_ok_atom[OF t(3)] placed_not_null[OF t(2)] by (metis tok_pointer.exhaust)
  ultimately show thesis using that t(1,4,5) f(2,3) by (auto simp: untouched_def)
qed

section \<open>Properties\<close>



text \<open>The loop of \<open>rfc822_deladdr\<close> removes one entry.\<close>

lemma move_down:
  "0 < k \<Longrightarrow> n \<le> length as \<Longrightarrow>
   length (fold (\<lambda>i as. as[i - 1 := as ! i]) [k ..< n] as) = length as \<and>
   (\<forall>j. fold (\<lambda>i as. as[i - 1 := as ! i]) [k ..< n] as ! j = (if k \<le> j + 1 \<and> j + 1 < n then as ! (j + 1) else as ! j))"
proof (induction n)
  case (Suc n)
  show ?case
  proof (cases "k \<le> n")
    case True
    then show ?thesis using Suc by (auto simp: nth_list_update)
  qed auto
qed simp

lemma deladdr_removes:
  assumes "naddrs a = length (addrs a)" "i < naddrs a"
  shows "take (naddrs (rfc822_deladdr a (int i))) (addrs (rfc822_deladdr a (int i))) = take i (addrs a) @ drop (i + 1) (addrs a)"
proof -
  let ?n = "length (addrs a)"
  let ?moved = "fold (\<lambda>i as. as[i - 1 := as ! i]) [i + 1 ..< ?n] (addrs a)"
  have m: "length ?moved = ?n" "\<And>j. ?moved ! j = (if i \<le> j \<and> j + 1 < ?n then addrs a ! (j + 1) else addrs a ! j)"
    using move_down[of "i + 1" ?n "addrs a"] by simp_all
  have "take (?n - 1) ?moved = take i (addrs a) @ drop (i + 1) (addrs a)"
    using assms m(1) by (intro nth_equalityI) (auto simp: m(2)[simplified] nth_append)
  then show ?thesis using assms by (auto simp: rfc822_deladdr_def Let_def)
qed

end
