(* ===== verification/Rfc822_Print.thy ===== *)
theory Rfc822_Print
  imports Rfc822_Addr
begin

text \<open>
  Printing parsed addresses: the printing half of rfc822/rfc822.c, rfc822/rfc822_getaddr.c and
  rfc822/rfc822_getaddrs.c.  The functions that the caller passes are called with one character
  (\<open>print_func\<close>) or with a string (\<open>print_separator\<close>); the model lists the calls.
\<close>

section \<open>Printing\<close>

datatype print_call = PChar u8 | PSep bytes

text \<open>The loops over a list that only read it collect its tokens first.\<close>

partial_function (option) chain_tokens :: "rfc822token list \<Rightarrow> nat option \<Rightarrow> rfc822token list option" where
  "chain_tokens arr p =
     (if p = None then Some []
      else if length arr \<le> the p then None
      else Option.bind (chain_tokens arr (tok_next (arr ! the p))) (\<lambda>ts. Some (arr ! the p # ts)))"

declare chain_tokens.simps [code]

fun unescape :: "bytes \<Rightarrow> bytes" where
  "unescape [] = []"
| "unescape [c] = [c]"
| "unescape (c # e # cs) = (if c = BSLASH then e # unescape cs else c # unescape (e # cs))"

fun prname_tokens :: "bytes \<Rightarrow> bool \<Rightarrow> rfc822token list \<Rightarrow> bytes" where
  "prname_tokens s prev_isatom [] = []"
| "prname_tokens s prev_isatom (t # ts) =
     (let isatom = rfc822_is_atom (token t); v = snd (tok_view s t) in
      (if isatom \<and> prev_isatom then [SPACE] else []) @
      (if token t = QUOTE then unescape v
       else if token t \<noteq> LPAREN then print_token s t
       else butlast (drop 1 v)) @
      prname_tokens s isatom ts)"

definition rfc822_prname_int :: "bytes \<Rightarrow> rfc822token list \<Rightarrow> rfc822addr \<Rightarrow> bytes option" where
  "rfc822_prname_int s arr a = map_option (prname_tokens s False) (chain_tokens arr (addr_name a))"

text \<open>
  \<open>decode_func\<close> gets the text and whether it is an address; it returns null on an error.  The result
  says whether the function returned 0, after what it printed.
\<close>

type_synonym decoder = "bytes \<Rightarrow> bool \<Rightarrow> bytes option"

definition rfc822_print_common_nameaddr ::
  "bytes \<Rightarrow> rfc822token list \<Rightarrow> decoder \<Rightarrow> rfc822addr \<Rightarrow> (print_call list \<times> bool) option" where
  "rfc822_print_common_nameaddr s arr decode a =
     Option.bind (rfc822tok_print s arr (addr_tokens a)) (\<lambda>addrbuf.
     Option.bind (rfc822_prname_int s arr a) (\<lambda>namebuf.
       Some (case decode namebuf False of
           None \<Rightarrow> ([], False)
         | Some name \<Rightarrow>
             let out = map PChar name; print_braces = name \<noteq> [] in
             (case decode addrbuf True of
                None \<Rightarrow> (out, False)
              | Some addr \<Rightarrow>
                  let out = out @ (if print_braces then [PChar SPACE] else []);
                      print_braces = (print_braces \<or> list_ex (\<lambda>q. q \<noteq> ch CHR ''.'' \<and> q \<noteq> ch CHR ''@'' \<and> q \<in> set RFC822_SPECIALS) addr)
                  in (out @ (if print_braces then [PChar LT] else []) @ map PChar addr @ (if print_braces then [PChar GT] else []), True)))))"

fun adjacent_atoms :: "rfc822token list \<Rightarrow> bool" where
  "adjacent_atoms (t # u # ts) \<longleftrightarrow> rfc822_is_atom (token t) \<and> rfc822_is_atom (token u) \<or> adjacent_atoms (u # ts)"
| "adjacent_atoms _ \<longleftrightarrow> False"

text \<open>An address that is not syntactical fluff.\<close>

definition print_address ::
  "bytes \<Rightarrow> rfc822token list \<Rightarrow> decoder option \<Rightarrow> rfc822addr \<Rightarrow> (print_call list \<times> bool) option" where
  "print_address s arr decode a =
     (case decode of
        Some f \<Rightarrow> rfc822_print_common_nameaddr s arr f a
      | None \<Rightarrow>
          Option.bind (chain_tokens arr (addr_name a)) (\<lambda>name.
          Option.bind (chain_tokens arr (addr_tokens a)) (\<lambda>addr.
          Option.bind (rfc822tok_print s arr (addr_name a)) (\<lambda>nametext.
          Option.bind (rfc822tok_print s arr (addr_tokens a)) (\<lambda>addrtext.
            if name \<noteq> [] \<and> token (hd name) = LPAREN then
              Some (map PChar addrtext @ [PChar SPACE] @ map PChar nametext, True)
            else
              let print_braces = (if name \<noteq> [] then True else adjacent_atoms addr) in
              Some ((if name \<noteq> [] then map PChar nametext @ [PChar SPACE] else []) @
                (if print_braces then [PChar LT] else []) @ map PChar addrtext @
                (if print_braces then [PChar GT] else []), True))))))"

fun rfc822_print_loop ::
  "bytes \<Rightarrow> rfc822token list \<Rightarrow> decoder option \<Rightarrow> rfc822addr list \<Rightarrow> (print_call list \<times> bool) option" where
  "rfc822_print_loop s arr decode [] = Some ([], True)"
| "rfc822_print_loop s arr decode (a # as) =
     (if addr_tokens a = None then
        Option.bind (rfc822tok_print s arr (addr_name a)) (\<lambda>text.
        Option.bind (chain_tokens arr (addr_name a)) (\<lambda>name.
          let sep = (if name \<noteq> [] \<and> as \<noteq> [] \<and> (token (last name) = COLON \<or> token (last name) = SEMI)
                     then [PSep [SPACE]] else [])
          in map_option (\<lambda>(out, ok). (map PChar text @ sep @ out, ok)) (rfc822_print_loop s arr decode as)))
      else
        Option.bind (print_address s arr decode a) (\<lambda>(text, ok).
          if \<not> ok then Some (text, False)
          else
            let sep = (if as \<noteq> [] \<and> (addr_tokens (hd as) \<noteq> None \<or>
                         addr_name (hd as) \<noteq> None \<and> rfc822_is_atom (token (arr ! the (addr_name (hd as)))))
                       then [PSep [COMMA, SPACE]] else [])
            in map_option (\<lambda>(out, ok). (text @ sep @ out, ok)) (rfc822_print_loop s arr decode as)))"

definition rfc822_print_common ::
  "bytes \<Rightarrow> rfc822token list \<Rightarrow> decoder option \<Rightarrow> rfc822a \<Rightarrow> (print_call list \<times> bool) option" where
  "rfc822_print_common s arr decode rfcp = rfc822_print_loop s arr decode (take (naddrs rfcp) (addrs rfcp))"

definition rfc822_print :: "bytes \<Rightarrow> rfc822token list \<Rightarrow> rfc822a \<Rightarrow> (print_call list \<times> bool) option" where
  "rfc822_print s arr rfcp = rfc822_print_common s arr None rfcp"

section \<open>Printing to a buffer\<close>

text \<open>rfc822_getaddr.c: \<open>cntlen\<close> and \<open>saveaddr\<close> leave out newlines.\<close>

definition rfc822_gettok :: "bytes \<Rightarrow> rfc822token list \<Rightarrow> nat option \<Rightarrow> bytes option" where
  "rfc822_gettok s arr t = map_option (filter (\<lambda>c. c \<noteq> 10)) (rfc822tok_print s arr t)"

text \<open>rfc822_getaddrs.c, where \<open>cntlensep\<close> and \<open>saveaddrsep\<close> go through the separator.\<close>

fun cntlen :: "print_call list \<Rightarrow> nat" where
  "cntlen [] = 0"
| "cntlen (PChar c # cs) = 1 + cntlen cs"
| "cntlen (PSep p # cs) = length p + cntlen cs"

fun saveaddr :: "(u8 \<Rightarrow> u8) \<Rightarrow> bytes \<Rightarrow> nat \<Rightarrow> print_call list \<Rightarrow> bytes" where
  "saveaddr sepchar buf ptr [] = buf"
| "saveaddr sepchar buf ptr (PChar c # cs) = saveaddr sepchar (buf[ptr := c]) (ptr + 1) cs"
| "saveaddr sepchar buf ptr (PSep p # cs) = saveaddr sepchar (memcpy_at buf ptr (map sepchar p)) (ptr + length p) cs"

definition keep_sep :: "u8 \<Rightarrow> u8" where
  "keep_sep c = c"

definition rfc822_getaddrs :: "bytes \<Rightarrow> rfc822token list \<Rightarrow> rfc822a \<Rightarrow> bytes option" where
  "rfc822_getaddrs s arr rfc =
     Option.bind (rfc822_print s arr rfc) (\<lambda>(calls, ok).
       let addrbuflen = cntlen calls in
       if ok then Some ((saveaddr keep_sep (replicate (addrbuflen + 1) 0) 0 calls)[addrbuflen := 0]) else None)"

text \<open>The separators are written with newlines for spaces; then lines are joined as long as they fit.\<close>

definition newline_sep :: "u8 \<Rightarrow> u8" where
  "newline_sep c = (if c = SPACE then 10 else c)"

function next_newline :: "bytes \<Rightarrow> nat \<Rightarrow> nat" where
  "next_newline buf ptr = (if chr_at buf ptr \<noteq> 0 \<and> chr_at buf ptr \<noteq> 10 then next_newline buf (ptr + 1) else ptr)"
  by pat_completeness auto
termination by (relation "measure (\<lambda>(buf, ptr). length buf - ptr)") (auto dest!: chr_at_length)

declare next_newline.simps [simp del]

lemma next_newline_le: "ptr \<le> next_newline buf ptr"
  by (induction buf ptr rule: next_newline.induct) (subst next_newline.simps, force)

lemma next_newline_end: "chr_at buf (next_newline buf ptr) = 0 \<Longrightarrow> chr_at buf ptr \<noteq> 0 \<Longrightarrow> ptr < next_newline buf ptr"
  using next_newline_le[of ptr buf] by (cases "ptr = next_newline buf ptr") auto

function wrap_loop :: "int \<Rightarrow> bytes \<Rightarrow> nat \<Rightarrow> nat \<Rightarrow> nat option \<Rightarrow> bytes" where
  "wrap_loop w buf start ptr lastnl =
     (if chr_at buf ptr = 0 then buf
      else
        let ptr = next_newline buf ptr;
            nextptr = (if chr_at buf ptr \<noteq> 0 then ptr + 1 else ptr)
        in if int ptr - int start < w then
             wrap_loop w (case lastnl of Some l \<Rightarrow> buf[l := SPACE] | None \<Rightarrow> buf) start nextptr (Some ptr)
           else (case lastnl of
               Some l \<Rightarrow> wrap_loop w buf (l + 1) ptr None
             | None \<Rightarrow> wrap_loop w buf (ptr + 1) nextptr None))"
  by pat_completeness auto
termination
proof (relation "measure (\<lambda>(w, buf, start, ptr, lastnl). 2 * (length buf - ptr) + (if lastnl = None then 0 else 1))", goal_cases)
  case 1
  show ?case by simp
next
  case (2 w buf start ptr lastnl ptr' nextptr)
  have "ptr < length buf" using 2(1) by (rule chr_at_length)
  then have "2 * (length buf - nextptr) + 1 < 2 * (length buf - ptr)"
    using 2 next_newline_le[of ptr buf] next_newline_end[of buf ptr] by auto
  then show ?case by (simp split: option.split)
next
  case (3 w buf start ptr lastnl ptr' nextptr)
  have "ptr < length buf" using 3(1) by (rule chr_at_length)
  then show ?case using 3 next_newline_le[of ptr buf] next_newline_end[of buf ptr] by auto
next
  case (4 w buf start ptr lastnl ptr' nextptr l)
  then show ?case using next_newline_le[of ptr buf] by auto
qed

declare wrap_loop.simps [simp del]

definition rfc822_getaddrs_wrap :: "bytes \<Rightarrow> rfc822token list \<Rightarrow> rfc822a \<Rightarrow> int \<Rightarrow> bytes option" where
  "rfc822_getaddrs_wrap s arr rfc w =
     Option.bind (rfc822_print s arr rfc) (\<lambda>(calls, ok).
       let addrbuflen = cntlen calls;
           addrbuf = (saveaddr newline_sep (replicate (addrbuflen + 1) 0) 0 calls)[addrbuflen := 0]
       in if ok then Some (wrap_loop w addrbuf 0 0 None) else None)"

section \<open>The buffers are filled exactly\<close>

fun printed :: "(u8 \<Rightarrow> u8) \<Rightarrow> print_call list \<Rightarrow> bytes" where
  "printed f [] = []"
| "printed f (PChar c # cs) = c # printed f cs"
| "printed f (PSep p # cs) = map f p @ printed f cs"

lemma length_printed [simp]: "length (printed f cs) = cntlen cs"
  by (induction f cs rule: printed.induct) auto

lemma saveaddr_printed:
  "ptr + cntlen cs \<le> length buf \<Longrightarrow> saveaddr f buf ptr cs = take ptr buf @ printed f cs @ drop (ptr + cntlen cs) buf"
proof (induction f buf ptr cs rule: saveaddr.induct)
  case (2 f buf ptr c cs)
  then show ?case by (simp add: take_Suc_conv_app_nth)
next
  case (3 f buf ptr p cs)
  let ?buf = "memcpy_at buf ptr (map f p)"
  have "length ?buf = length buf" using "3.prems" by simp
  moreover have "take (ptr + length p) ?buf = take ptr buf @ map f p"
    using take_memcpy_at[of ptr buf "map f p"] "3.prems" by simp
  moreover have "drop (ptr + length p + cntlen cs) ?buf = drop (ptr + length p + cntlen cs) buf"
    using "3.prems" by (simp add: memcpy_at_def add.commute)
  ultimately show ?case using "3.IH" "3.prems" by (simp add: add.assoc)
qed simp

lemma printed_to_buffer:
  "(saveaddr f (replicate (cntlen cs + 1) 0) 0 cs)[cntlen cs := 0] = printed f cs @ [0]"
  by (simp add: saveaddr_printed list_update_append drop_replicate[of "cntlen cs" "Suc (cntlen cs)", simplified])

section \<open>Filling lines\<close>

text \<open>Items are joined to lines that stay below the width.\<close>

fun fill_lines :: "int \<Rightarrow> bytes \<Rightarrow> bytes list \<Rightarrow> bytes list" where
  "fill_lines w line [] = [line]"
| "fill_lines w line (x # xs) =
     (if int (length line) + 1 + int (length x) < w then fill_lines w (line @ [SPACE] @ x) xs
      else line # fill_lines w x xs)"

fun join_lines :: "bytes list \<Rightarrow> bytes" where
  "join_lines [] = []"
| "join_lines [x] = x"
| "join_lines (x # y # xs) = x @ [10] @ join_lines (y # xs)"

lemma fill_lines_ne: "fill_lines w x xs \<noteq> []"
  by (induction w x xs rule: fill_lines.induct) auto

lemma join_Cons: "xs \<noteq> [] \<Longrightarrow> join_lines (x # xs) = x @ [10] @ join_lines xs"
  by (cases xs) auto

definition item :: "bytes \<Rightarrow> bool" where
  "item x \<longleftrightarrow> 0 \<notin> set x \<and> 10 \<notin> set x"

lemma next_newline_item:
  "item x \<Longrightarrow> start \<le> ptr \<Longrightarrow> ptr \<le> start + length x \<Longrightarrow> length pre = start \<Longrightarrow> rest \<noteq> [] \<Longrightarrow> hd rest = 0 \<or> hd rest = 10 \<Longrightarrow>
   next_newline (pre @ x @ rest) ptr = start + length x"
proof (induction "start + length x - ptr" arbitrary: ptr)
  case 0
  then have "ptr = start + length x" by simp
  then have "chr_at (pre @ x @ rest) ptr = hd rest" using 0 by (simp add: chr_at_def nth_append hd_conv_nth)
  with 0 show ?case by (subst next_newline.simps) auto
next
  case (Suc n)
  then have "chr_at (pre @ x @ rest) ptr \<in> set x" by (auto simp: chr_at_def nth_append)
  then have "next_newline (pre @ x @ rest) ptr = next_newline (pre @ x @ rest) (ptr + 1)"
    using Suc.prems(1) by (subst next_newline.simps) (auto simp: item_def)
  with Suc show ?case by simp
qed

text \<open>
  The loop at a line \<open>x\<close> followed by more items: before a line end was seen (\<open>lastnl\<close> is null), and
  after the line, that fits, was passed.
\<close>

definition wrap_open :: "int \<Rightarrow> bytes \<Rightarrow> bytes list \<Rightarrow> bool" where
  "wrap_open w x xs \<longleftrightarrow> (\<forall>pre ptr. length pre \<le> ptr \<and> ptr \<le> length pre + length x \<longrightarrow>
     wrap_loop w (pre @ join_lines (x # xs) @ [0]) (length pre) ptr None = pre @ join_lines (fill_lines w x xs) @ [0])"

definition wrap_passed :: "int \<Rightarrow> bytes \<Rightarrow> bytes list \<Rightarrow> bool" where
  "wrap_passed w x xs \<longleftrightarrow> (\<forall>pre.
     wrap_loop w (pre @ join_lines (x # xs) @ [0]) (length pre) (length pre + length x + (if xs = [] then 0 else 1))
       (Some (length pre + length x)) = pre @ join_lines (fill_lines w x xs) @ [0])"

lemma join_hd: "join_lines (x # xs) @ [0] = x @ (if xs = [] then [0] else 10 # join_lines xs @ [0])"
  by (cases xs) auto

lemma wrap_passed_step:
  assumes "list_all item (y # ys)" "ys = [] \<longrightarrow> y \<noteq> []" "item x"
    and "wrap_open w y ys" "wrap_passed w (x @ [SPACE] @ y) ys"
  shows "wrap_passed w x (y # ys)"
  unfolding wrap_passed_def
proof
  fix pre :: bytes
  let ?p = "length pre + length x"
  let ?buf = "pre @ join_lines (x # y # ys) @ [0]" and ?rest = "if ys = [] then [0] else 10 # join_lines ys @ [0]"
  have buf: "?buf = (pre @ x @ [10]) @ y @ ?rest" "?buf = (pre @ x @ [10]) @ join_lines (y # ys) @ [0]"
    using join_hd[of y ys] by simp_all
  have y: "item y" using assms(1) by simp
  have at: "chr_at ?buf (?p + 1) \<noteq> 0"
    using y assms(2) unfolding buf(1) by (cases y; cases ys) (auto simp: chr_at_def nth_append item_def)
  have nl: "next_newline ?buf (?p + 1) = ?p + 1 + length y"
    unfolding buf(1) using next_newline_item[OF y, of "?p + 1" "?p + 1" "pre @ x @ [10]" ?rest] by simp
  have fin: "chr_at ?buf (?p + 1 + length y) \<noteq> 0 \<longleftrightarrow> ys \<noteq> []"
    unfolding buf(1) by (simp add: chr_at_def nth_append)
  show "wrap_loop w ?buf (length pre) (?p + (if y # ys = [] then 0 else 1)) (Some ?p) = pre @ join_lines (fill_lines w x (y # ys)) @ [0]"
  proof (cases "int (length x) + 1 + int (length y) < w")
    case True
    have "?buf[?p := SPACE] = pre @ join_lines ((x @ [SPACE] @ y) # ys) @ [0]"
      unfolding buf(1) join_hd by (simp add: list_update_append)
    then have "wrap_loop w ?buf (length pre) (?p + 1) (Some ?p) = wrap_loop w (pre @ join_lines ((x @ [SPACE] @ y) # ys) @ [0])
        (length pre) (length pre + length (x @ [SPACE] @ y) + (if ys = [] then 0 else 1)) (Some (length pre + length (x @ [SPACE] @ y)))"
      using True at nl fin by (subst wrap_loop.simps) (auto simp: Let_def add.assoc)
    then show ?thesis using assms(5) True by (simp add: wrap_passed_def)
  next
    case False
    have "wrap_loop w ?buf (length pre) (?p + 1) (Some ?p) = wrap_loop w ?buf (?p + 1) (?p + 1 + length y) None"
      using False at nl by (subst wrap_loop.simps) (simp add: Let_def)
    also have "\<dots> = (pre @ x @ [10]) @ join_lines (fill_lines w y ys) @ [0]"
      using assms(4) unfolding wrap_open_def buf(2) by (elim allE[of _ "pre @ x @ [10]"] allE[of _ "?p + 1 + length y"]) simp
    finally show ?thesis using False by (simp add: join_Cons fill_lines_ne)
  qed
qed

lemma wrap_open_step:
  assumes "item x" "xs \<noteq> [] \<longrightarrow> wrap_open w (hd xs) (tl xs)" "wrap_passed w x xs"
  shows "wrap_open w x xs"
  unfolding wrap_open_def
proof (intro allI impI)
  fix pre :: bytes and ptr
  assume ptr: "length pre \<le> ptr \<and> ptr \<le> length pre + length x"
  let ?p = "length pre + length x" and ?rest = "if xs = [] then [0] else 10 # join_lines xs @ [0]"
  let ?buf = "pre @ join_lines (x # xs) @ [0]"
  have buf: "?buf = pre @ x @ ?rest" using join_hd[of x xs] by simp
  have fin: "chr_at ?buf ?p \<noteq> 0 \<longleftrightarrow> xs \<noteq> []" unfolding buf by (simp add: chr_at_def nth_append)
  show "wrap_loop w ?buf (length pre) ptr None = pre @ join_lines (fill_lines w x xs) @ [0]"
  proof (cases "ptr = ?p \<and> xs = []")
    case True
    then show ?thesis using fin by (subst wrap_loop.simps) simp
  next
    case False
    have "chr_at ?buf ptr \<noteq> 0"
    proof (cases "ptr = ?p")
      case inside: False
      then have "chr_at ?buf ptr \<in> set x" unfolding buf using ptr by (auto simp: chr_at_def nth_append)
      then show ?thesis using assms(1) by (auto simp: item_def)
    qed (use False fin in simp)
    moreover have nl: "next_newline ?buf ptr = ?p"
      unfolding buf using next_newline_item[OF assms(1), of "length pre" ptr pre ?rest] ptr by simp
    ultimately have step: "wrap_loop w ?buf (length pre) ptr None =
        (if int (length x) < w then wrap_loop w ?buf (length pre) (?p + (if xs = [] then 0 else 1)) (Some ?p)
         else wrap_loop w ?buf (?p + 1) (?p + (if xs = [] then 0 else 1)) None)"
      using fin by (subst wrap_loop.simps) (auto simp: Let_def)
    show ?thesis
    proof (cases "int (length x) < w")
      case True
      then show ?thesis using step assms(3) by (simp add: wrap_passed_def)
    next
      case wide: False
      show ?thesis
      proof (cases xs)
        case Nil
        then show ?thesis using step wide fin by (simp add: wrap_loop.simps[of w _ _ "?p"])
      next
        case (Cons y ys)
        have "wrap_loop w ((pre @ x @ [10]) @ join_lines (y # ys) @ [0]) (length (pre @ x @ [10])) (length (pre @ x @ [10])) None =
            (pre @ x @ [10]) @ join_lines (fill_lines w y ys) @ [0]"
          using assms(2) Cons unfolding wrap_open_def list.sel
          by (elim impE allE[of _ "pre @ x @ [10]"] allE[of _ "length (pre @ x @ [10])"]) simp_all
        then show ?thesis using step wide Cons by (simp add: join_Cons fill_lines_ne)
      qed
    qed
  qed
qed

lemma wrap_fills:
  "item x \<Longrightarrow> list_all item xs \<Longrightarrow> xs = [] \<or> last xs \<noteq> [] \<Longrightarrow> wrap_open w x xs \<and> wrap_passed w x xs"
proof (induction xs arbitrary: x)
  case Nil
  have "chr_at (pre @ x @ [0]) (length pre + length x) = 0" for pre by (simp add: chr_at_def nth_append)
  then have "wrap_passed w x []" unfolding wrap_passed_def by (subst wrap_loop.simps) simp
  then show ?case using wrap_open_step[OF Nil(1), of "[]"] by simp
next
  case (Cons y ys)
  have last: "ys = [] \<or> last ys \<noteq> []" "ys = [] \<longrightarrow> y \<noteq> []" using Cons.prems(3) by (auto split: if_splits)
  have "item (x @ [SPACE] @ y)" using Cons.prems(1,2) by (auto simp: item_def)
  then have "wrap_open w y ys" "wrap_passed w (x @ [SPACE] @ y) ys" using Cons.IH Cons.prems(2) last(1) by simp_all
  then have "wrap_passed w x (y # ys)" using wrap_passed_step[OF Cons.prems(2) last(2) Cons.prems(1)] by simp
  then show ?case using wrap_open_step[OF Cons.prems(1), of "y # ys"] \<open>wrap_open w y ys\<close> by simp
qed

fun split_lines :: "bytes \<Rightarrow> bytes list" where
  "split_lines [] = [[]]"
| "split_lines (c # cs) = (if c = 10 then [] # split_lines cs else (c # hd (split_lines cs)) # tl (split_lines cs))"

lemma split_lines_ne: "split_lines t \<noteq> []"
  by (induction t) auto

lemma join_split: "join_lines (split_lines t) = t"
proof (induction t)
  case (Cons c cs)
  obtain x xs where "split_lines cs = x # xs" using split_lines_ne[of cs] by (cases "split_lines cs") auto
  then show ?case using Cons by (cases xs) auto
qed simp

lemma split_items: "0 \<notin> set t \<Longrightarrow> list_all item (split_lines t)"
proof (induction t)
  case (Cons c cs)
  obtain x xs where "split_lines cs = x # xs" using split_lines_ne[of cs] by (cases "split_lines cs") auto
  then show ?case using Cons by (auto simp: item_def)
qed (simp add: item_def)

lemma split_last: "t \<noteq> [] \<Longrightarrow> last t \<noteq> 10 \<Longrightarrow> last (split_lines t) \<noteq> []"
proof (induction t)
  case (Cons c cs)
  obtain x xs where "split_lines cs = x # xs" using split_lines_ne[of cs] by (cases "split_lines cs") auto
  then show ?case using Cons by (cases "cs = []") auto
qed simp

text \<open>A line is below the width or is one item.\<close>

lemma fill_lines_width:
  "l \<in> set (fill_lines w x xs) \<Longrightarrow> int (length l) < w \<or> l \<in> set (x # xs)"
proof (induction w x xs rule: fill_lines.induct)
  case (2 w line x xs)
  then show ?case by (auto split: if_splits)
qed simp

lemma wrap_loop_fills:
  assumes "0 \<notin> set t" "t = [] \<or> last t \<noteq> 10"
  shows "wrap_loop w (t @ [0]) 0 0 None = join_lines (fill_lines w (hd (split_lines t)) (tl (split_lines t))) @ [0]"
proof -
  obtain x xs where x: "split_lines t = x # xs" using split_lines_ne[of t] by (cases "split_lines t") auto
  have "xs = [] \<or> last xs \<noteq> []" using split_last[of t] assms(2) x by (cases "t = []") (auto split: if_splits)
  then have "wrap_open w x xs" using wrap_fills[of x xs w] split_items[OF assms(1)] x by simp
  then show ?thesis using join_split[of t] x unfolding wrap_open_def by (elim allE[of _ "[]"] allE[of _ 0]) simp
qed

section \<open>Chains and collected tokens\<close>

lemma chain_tokens_chain: "chain arr p ps \<Longrightarrow> chain_tokens arr p = Some (map ((!) arr) ps)"
  by (induction rule: chain.induct) (subst chain_tokens.simps, simp)+

lemma tokens_chain: "chain_tokens arr p = Some ts \<Longrightarrow> \<exists>ps. chain arr p ps \<and> ts = map ((!) arr) ps"
proof (induction ts arbitrary: p)
  case Nil
  then have "p = None" by (subst (asm) chain_tokens.simps) (auto split: if_splits bind_splits)
  then show ?case by (auto intro: chain.intros)
next
  case (Cons t ts)
  then obtain i where "p = Some i" "i < length arr" "t = arr ! i" "chain_tokens arr (tok_next (arr ! i)) = Some ts"
    by (subst (asm) chain_tokens.simps) (auto split: if_splits bind_splits)
  moreover from Cons.IH[OF this(4)] obtain ps where "chain arr (tok_next (arr ! i)) ps" "ts = map ((!) arr) ps" by blast
  ultimately show ?case by (auto intro!: exI[of _ "i # ps"] chain.intros)
qed

lemma print_chain_tokens: "chain_tokens arr p = Some ts \<Longrightarrow> rfc822tok_print s arr p = Some (print_tokens s False ts)"
  using tokens_chain[of arr p ts] tok_print_chain[of arr p _ s False] by (auto simp: rfc822tok_print_def)

lemma linked_tokens: "linked lo hi arr p ts \<Longrightarrow> \<exists>us. chain_tokens arr p = Some us \<and> map bare us = ts"
  by (auto simp: linked_def comp_def dest!: chain_tokens_chain)

text \<open>An address list whose chains end can be printed.\<close>

definition walkable :: "rfc822token list \<Rightarrow> rfc822addr \<Rightarrow> bool" where
  "walkable arr a \<longleftrightarrow> chain_tokens arr (addr_tokens a) \<noteq> None \<and> chain_tokens arr (addr_name a) \<noteq> None"

lemma stored_walkable: "stored lo hi arr a x \<Longrightarrow> walkable arr a"
  unfolding stored_def walkable_def by (auto dest!: linked_tokens)

lemma print_walkable: "list_all (walkable arr) as \<Longrightarrow> \<exists>calls. rfc822_print_loop s arr None as = Some (calls, True)"
proof (induction as)
  case (Cons a as)
  then obtain calls ts nm where *: "rfc822_print_loop s arr None as = Some (calls, True)"
    "chain_tokens arr (addr_tokens a) = Some ts" "chain_tokens arr (addr_name a) = Some nm" by (auto simp: walkable_def)
  show ?case using * print_chain_tokens[OF *(2)] print_chain_tokens[OF *(3)]
    by (simp add: print_address_def Let_def)
qed simp

section \<open>Printed mailboxes read back\<close>

text \<open>
  A mailbox, as the views of the tokens of the address and of the name: the address is free of comments
  and of adjacent atoms, and the name is a list of atoms, or one quoted string, or one comment.
\<close>

type_synonym views = "(u8 \<times> bytes) list"

definition mailbox_ok :: "views \<times> views \<Rightarrow> bool" where
  "mailbox_ok x \<longleftrightarrow> (case x of (tv, nv) \<Rightarrow>
     tv \<noteq> [] \<and> list_all (\<lambda>v. atom_ok v \<and> fst v \<noteq> COMMA \<and> fst v \<noteq> SEMI \<and> fst v \<noteq> COLON \<and> fst v \<noteq> LPAREN) tv \<and>
     successively (\<lambda>v w. \<not> (rfc822_is_atom (fst v) \<and> rfc822_is_atom (fst w))) tv \<and> successively apart tv \<and>
     list_all atom_ok nv \<and>
     (list_all (\<lambda>v. fst v = 0) nv \<or> (length nv = 1 \<and> (fst (hd nv) = QUOTE \<or> fst (hd nv) = LPAREN))))"

abbreviation (input) V :: "views \<Rightarrow> bytes" where "V \<equiv> views_text False"

definition mailbox_text :: "views \<times> views \<Rightarrow> bytes" where
  "mailbox_text x = (case x of (tv, nv) \<Rightarrow>
     if nv = [] then V tv
     else if fst (hd nv) = LPAREN then V tv @ [SPACE] @ V nv
     else V nv @ [SPACE, LT] @ V tv @ [GT])"

definition mailbox_views :: "views \<times> views \<Rightarrow> views" where
  "mailbox_views x = (case x of (tv, nv) \<Rightarrow>
     if nv = [] then tv else if fst (hd nv) = LPAREN then tv @ nv else nv @ [(LT, [LT])] @ tv @ [(GT, [GT])])"

fun list_text :: "(views \<times> views) list \<Rightarrow> bytes" where
  "list_text [] = []"
| "list_text [x] = mailbox_text x"
| "list_text (x # y # xs) = mailbox_text x @ [COMMA, SPACE] @ list_text (y # xs)"

fun list_views :: "(views \<times> views) list \<Rightarrow> views" where
  "list_views [] = []"
| "list_views [x] = mailbox_views x"
| "list_views (x # y # xs) = mailbox_views x @ [(COMMA, [COMMA])] @ list_views (y # xs)"

text \<open>Reading the text of one mailbox.\<close>

lemma atom_ok_angle: "atom_ok v \<Longrightarrow> fst v \<noteq> LT \<and> fst v \<noteq> GT"
  by (erule atom_ok_cases) simp_all

lemma views_ok_atoms: "list_all atom_ok vs \<Longrightarrow> views_ok inb vs"
  by (induction vs) (simp_all add: atom_ok_angle)

lemma bracket_after_atoms: "list_all atom_ok vs \<Longrightarrow> bracket_after inb vs = inb"
  by (induction vs) (simp_all add: atom_ok_angle)

lemma lex_atoms:
  assumes "list_all atom_ok vs" "successively apart vs" "rest = [] \<or> \<not> plain (hd rest) \<and> hd rest \<noteq> QMARK"
  shows "lex inb (V vs @ rest) = (vs @ fst (lex inb rest), snd (lex inb rest))"
proof -
  have "vs = [] \<or> fst (last vs) \<noteq> LT"
    using assms(1) by (cases vs rule: rev_cases) (simp_all add: atom_ok_angle)
  then show ?thesis
    using lex_views_app[OF views_ok_atoms[OF assms(1)] assms(2,3)] by (simp add: bracket_after_atoms[OF assms(1)])
qed

lemma not_plain: "\<not> plain SPACE" "\<not> plain COMMA" "\<not> plain GT" "\<not> plain LT"
  by (simp_all add: plain_def isspace_def SPECIALS_def)

lemma apart_zero: "list_all (\<lambda>v. fst v = 0) vs \<Longrightarrow> successively apart vs"
  by (induction vs rule: induct_list012) (auto simp: apart_def)

lemma mailbox_okD:
  assumes "mailbox_ok (tv, nv)"
  shows "tv \<noteq> []" "list_all atom_ok tv" "list_all atom_ok nv" "successively apart tv" "successively apart nv"
    "nv = [] \<or> fst (hd nv) = LPAREN \<and> length nv = 1 \<or> fst (hd nv) \<noteq> LPAREN"
    "fst (hd tv) \<noteq> GT"
proof -
  have nv: "list_all (\<lambda>v. fst v = 0) nv \<or> length nv = 1" using assms by (auto simp: mailbox_ok_def)
  show "successively apart nv" using nv by (cases nv) (auto intro: apart_zero)
  show "tv \<noteq> []" "list_all atom_ok tv" "list_all atom_ok nv" "successively apart tv"
    using assms by (auto simp: mailbox_ok_def list_all_iff)
  then show "fst (hd tv) \<noteq> GT" by (cases tv) (simp_all add: atom_ok_angle)
  show "nv = [] \<or> fst (hd nv) = LPAREN \<and> length nv = 1 \<or> fst (hd nv) \<noteq> LPAREN"
    using nv by (cases nv) auto
qed

lemma lex_mailbox:
  assumes "mailbox_ok x" "rest = [] \<or> hd rest = COMMA"
  shows "lex False (mailbox_text x @ rest) = (mailbox_views x @ fst (lex False rest), snd (lex False rest))"
proof -
  obtain tv nv where x: "x = (tv, nv)" by (cases x)
  note ok = mailbox_okD[OF assms(1)[unfolded x]]
  have rest: "rest = [] \<or> \<not> plain (hd rest) \<and> hd rest \<noteq> QMARK" using assms(2) by (auto simp: not_plain)
  consider "nv = []" | "nv \<noteq> []" "fst (hd nv) = LPAREN" | "nv \<noteq> []" "fst (hd nv) \<noteq> LPAREN" by blast
  then show ?thesis
  proof cases
    case 1
    then show ?thesis using lex_atoms[OF ok(2,4) rest, of False] by (simp add: x mailbox_text_def mailbox_views_def)
  next
    case 2
    then show ?thesis
      using lex_atoms[OF ok(2,4), of "SPACE # V nv @ rest" False] lex_atoms[OF ok(3,5) rest, of False]
      by (simp add: x mailbox_text_def mailbox_views_def not_plain lex_space)
  next
    case 3
    have "views_ok True tv" using views_ok_atoms[OF ok(2)] .
    then have "\<not> (V tv @ GT # rest \<noteq> [] \<and> hd (V tv @ GT # rest) = GT)"
      using hd_views_text[of True tv GT False] views_text_ne[of True tv False] ok(1,7) by (simp add: punctuation_def)
    then have "lex False (LT # V tv @ GT # rest) = ((LT, [LT]) # tv @ (GT, [GT]) # fst (lex False rest), snd (lex False rest))"
      using lex_LT[of "V tv @ GT # rest"] lex_atoms[OF ok(2,4), of "GT # rest" True] lex_GT[of "GT # rest"] by (auto simp: not_plain)
    then show ?thesis
      using lex_atoms[OF ok(3,5), of "SPACE # LT # V tv @ GT # rest" False] 3
      by (simp add: x mailbox_text_def mailbox_views_def not_plain lex_space)
  qed
qed

lemma lex_comma: "lex False (COMMA # rest) = ((COMMA, [COMMA]) # fst (lex False rest), snd (lex False rest))"
  using lex_atom[of "(COMMA, [COMMA])" rest False] by (simp add: atom_ok_def punctuation_def view_text_def)

lemma lex_list: "list_all mailbox_ok xs \<Longrightarrow> lex False (list_text xs) = (list_views xs, False)"
proof (induction xs rule: list_text.induct)
  case (2 x)
  then show ?case using lex_mailbox[of x "[]"] by simp
next
  case (3 x y xs)
  then show ?case using lex_mailbox[of x "COMMA # SPACE # list_text (y # xs)"] by (simp add: lex_comma lex_space)
qed simp

text \<open>The address parser on the tokens of one mailbox.\<close>

definition addr_token :: "rfc822token \<Rightarrow> bool" where
  "addr_token t \<longleftrightarrow> token t \<noteq> COMMA \<and> token t \<noteq> SEMI \<and> token t \<noteq> COLON \<and> token t \<noteq> LPAREN \<and> token t \<noteq> LT \<and> token t \<noteq> GT"

definition apart_atoms :: "rfc822token list \<Rightarrow> bool" where
  "apart_atoms ts \<longleftrightarrow> successively (\<lambda>t u. \<not> (rfc822_is_atom (token t) \<and> rfc822_is_atom (token u))) ts"

lemma old_length_mailbox:
  "list_all addr_token ts \<Longrightarrow> apart_atoms ts \<Longrightarrow> flag \<longrightarrow> ts = [] \<or> \<not> rfc822_is_atom (token (hd ts)) \<Longrightarrow>
   nm = [] \<or> (\<exists>c. nm = [c] \<and> token c = LPAREN) \<Longrightarrow> rest = [] \<or> starts COMMA rest \<Longrightarrow>
   old_length flag (ts @ nm @ rest) = length ts + length nm"
proof (induction ts arbitrary: flag)
  case Nil
  have "old_length flag rest = 0" for flag using Nil.prems(5) by (cases rest) (auto simp: starts_def)
  then show ?case using Nil.prems(4) by auto
next
  case (Cons t ts)
  have "apart_atoms ts" using Cons.prems(2) by (auto simp: apart_atoms_def intro: successively_tl)
  moreover have "rfc822_is_atom (token t) \<longrightarrow> ts = [] \<or> \<not> rfc822_is_atom (token (hd ts))"
    using Cons.prems(2) by (cases ts) (auto simp: apart_atoms_def)
  ultimately show ?case
    using Cons.IH[of True] Cons.IH[of False] Cons.prems by (auto simp: addr_token_def rfc822_is_atom_def)
qed

lemma cut_append: "list_all (\<lambda>t. P (token t)) ts \<Longrightarrow> cut P (ts @ us) = (ts @ fst (cut P us), snd (cut P us))"
  by (auto simp: cut_def list_all_iff)

lemma cut_stop: "us = [] \<or> \<not> P (token (hd us)) \<Longrightarrow> cut P us = ([], us)"
  by (cases us) (auto simp: cut_def)

lemma no_colon:
  "list_all (\<lambda>t. token t \<noteq> COLON) us \<Longrightarrow> rest = [] \<or> starts COMMA rest \<Longrightarrow> \<not> starts COLON (snd (cut is_phrase (us @ rest)))"
proof (induction us)
  case Nil
  then show ?case by (cases rest) (auto simp: cut_def starts_def)
next
  case (Cons u us)
  then show ?case by (auto simp: cut_def starts_def)
qed

lemma first_address_mailbox:
  assumes "ts \<noteq> []" "list_all addr_token ts" "apart_atoms ts"
    and "nm = [] \<or> (\<exists>c. nm = [c] \<and> token c = LPAREN)" "rest = [] \<or> starts COMMA rest"
  shows "first_address (ts @ nm @ rest) = (Some (ts, nm), rest)"
proof -
  have "list_all (\<lambda>t. token t \<noteq> COLON) (ts @ nm)" using assms(2,4) by (auto simp: addr_token_def list_all_iff)
  from no_colon[OF this assms(5)] have g: "\<not> starts COLON (snd (cut is_phrase (ts @ nm @ rest)))" by simp
  have s: "\<not> starts COMMA (ts @ nm @ rest)" "\<not> starts SEMI (ts @ nm @ rest)"
    using assms(1,2) by (auto simp: starts_def addr_token_def list_all_iff)
  have all: "list_all (\<lambda>t. no_angle (token t)) (ts @ nm)" using assms(2,4) by (auto simp: addr_token_def list_all_iff)
  have "cut no_angle rest = ([], rest)" using assms(5) by (intro cut_stop) (auto simp: starts_def)
  then have l: "\<not> starts LT (snd (cut no_angle (ts @ nm @ rest)))"
    using cut_append[OF all, of rest] assms(5) by (auto simp: starts_def)
  have len: "old_length False (ts @ nm @ rest) = length (ts @ nm)"
    using old_length_mailbox[OF assms(2,3) _ assms(4,5), of False] by simp
  have "filter (\<lambda>t. token t \<noteq> LPAREN) ts = ts" "filter (\<lambda>t. token t = LPAREN) ts = []"
    using assms(2) by (auto simp: addr_token_def list_all_iff filter_id_conv filter_empty_conv)
  then have "old_address (ts @ nm) = (ts, nm)" using assms(4) by (auto simp: old_address_def)
  then show ?thesis using first_address_old[OF g s l] len by (simp flip: append_assoc)
qed

lemma first_address_named:
  assumes "nm \<noteq> []" "list_all (\<lambda>t. is_phrase (token t)) nm" "token l = LT" "list_all addr_token ts" "token g = GT"
  shows "first_address (nm @ l # ts @ g # rest) = (Some (ts, name_of nm), rest)"
proof -
  have ph: "cut is_phrase (nm @ l # ts @ g # rest) = (nm, l # ts @ g # rest)"
    using cut_append[OF assms(2)] cut_stop[of "l # ts @ g # rest" is_phrase] assms(3) by simp
  then have g: "\<not> starts COLON (snd (cut is_phrase (nm @ l # ts @ g # rest)))" using assms(3) by (simp add: starts_def)
  have s: "\<not> starts COMMA (nm @ l # ts @ g # rest)" "\<not> starts SEMI (nm @ l # ts @ g # rest)"
    using assms(1,2) by (cases nm; auto simp: starts_def)+
  have "list_all (\<lambda>t. no_angle (token t)) nm" using assms(2) by (auto simp: list_all_iff)
  then have na: "cut no_angle (nm @ l # ts @ g # rest) = (nm, l # ts @ g # rest)"
    using cut_append[of no_angle nm] cut_stop[of "l # ts @ g # rest" no_angle] assms(3) by simp
  then have l: "starts LT (snd (cut no_angle (nm @ l # ts @ g # rest)))" using assms(3) by (simp add: starts_def)
  have "list_all (\<lambda>t. token t \<noteq> GT) ts" using assms(4) by (auto simp: addr_token_def list_all_iff)
  then have "cut (\<lambda>c. c \<noteq> GT) (ts @ g # rest) = (ts, g # rest)"
    using cut_append[of "\<lambda>c. c \<noteq> GT" ts "g # rest"] cut_stop[of "g # rest" "\<lambda>c. c \<noteq> GT"] assms(5) by simp
  then show ?thesis using first_address_route[OF g s l] na by simp
qed

lemma first_address_sep: "token c = COMMA \<Longrightarrow> first_address (c # rest) = (None, rest)"
  using first_address_comma[of "c # rest"] cut_stop[of "c # rest" is_phrase] by (simp add: starts_def)

text \<open>The tokens of a mailbox have its views.\<close>

lemma addr_tokens_views:
  assumes "mailbox_ok (map (tok_view s) ts, nv)"
  shows "ts \<noteq> []" "list_all addr_token ts" "apart_atoms ts"
proof -
  have *: "fst (tok_view s t) = token t" for t by (simp add: tok_view_def)
  have "list_all (\<lambda>t. atom_ok (tok_view s t) \<and> token t \<noteq> COMMA \<and> token t \<noteq> SEMI \<and> token t \<noteq> COLON \<and> token t \<noteq> LPAREN) ts"
    using assms by (auto simp: mailbox_ok_def list_all_iff *)
  moreover have "token t \<noteq> LT \<and> token t \<noteq> GT" if "atom_ok (tok_view s t)" for t
    using atom_ok_angle[OF that] * by simp
  ultimately show "list_all addr_token ts" by (auto simp: list_all_iff addr_token_def)
  show "ts \<noteq> []" "apart_atoms ts" using assms by (auto simp: mailbox_ok_def apart_atoms_def successively_map *)
qed

lemma name_of_same:
  assumes "list_all (\<lambda>t. token t = 0) nm \<or> (\<exists>q p. nm = [q] \<and> token q = QUOTE \<and> tok_ptr q = At p)"
  shows "name_of nm = nm"
  using assms
proof
  assume "list_all (\<lambda>t. token t = 0) nm"
  then show ?thesis by (auto simp: name_of_def list_all_iff intro: map_idI)
next
  assume "\<exists>q p. nm = [q] \<and> token q = QUOTE \<and> tok_ptr q = At p"
  then show ?thesis by (auto simp: name_of_def span_len_def)
qed

lemma mailbox_tokens:
  assumes "mailbox_ok x" "map (tok_view s) us = mailbox_views x" "rest = [] \<or> starts COMMA rest"
    and "\<forall>t \<in> set us. token t = 0 \<or> (\<exists>p. tok_ptr t = At p)"
  obtains a where "first_address (us @ rest) = (Some a, rest)" "map (tok_view s) (fst a) = fst x" "map (tok_view s) (snd a) = snd x"
proof -
  obtain tv nv where x: "x = (tv, nv)" by (cases x)
  have tk: "fst (tok_view s t) = token t" for t by (simp add: tok_view_def)
  consider (bare) "nv = []" | (comment) "nv \<noteq> []" "fst (hd nv) = LPAREN" | (named) "nv \<noteq> []" "fst (hd nv) \<noteq> LPAREN" by blast
  then show thesis
  proof cases
    case bare
    then have us: "map (tok_view s) us = tv" using assms(2) by (simp add: x mailbox_views_def)
    note ok = addr_tokens_views[of s us nv, unfolded us, OF assms(1)[unfolded x]]
    show thesis using first_address_mailbox[OF ok, of "[]" rest] assms(3) that us bare x by simp
  next
    case comment
    then have "map (tok_view s) us = tv @ nv" using assms(2) by (simp add: x mailbox_views_def)
    then obtain ts nm where us: "us = ts @ nm" "map (tok_view s) ts = tv" "map (tok_view s) nm = nv"
      by (auto simp: map_eq_append_conv)
    note ok = addr_tokens_views[of s ts nv, unfolded us, OF assms(1)[unfolded x]]
    have "length nv = 1" using mailbox_okD(6)[OF assms(1)[unfolded x]] comment by auto
    then obtain c where "nm = [c]" using us(3) by (cases nm) auto
    moreover from this have "token c = LPAREN" using us(3) comment(2) tk by auto
    ultimately show thesis using first_address_mailbox[OF ok, of nm rest] assms(3) that us x by simp
  next
    case named
    then have "map (tok_view s) us = nv @ (LT, [LT]) # tv @ [(GT, [GT])]" using assms(2) by (simp add: x mailbox_views_def)
    then obtain nm l ts g where us: "us = nm @ l # ts @ [g]" "map (tok_view s) nm = nv" "map (tok_view s) ts = tv"
      "tok_view s l = (LT, [LT])" "tok_view s g = (GT, [GT])"
      by (auto simp: map_eq_append_conv map_eq_Cons_conv append_eq_map_conv Cons_eq_map_conv)
    note ok = addr_tokens_views[of s ts nv, unfolded us, OF assms(1)[unfolded x]]
    have lg: "token l = LT" "token g = GT" using us(4,5) tk by (metis fst_conv)+
    have nv: "list_all (\<lambda>v. fst v = 0) nv \<or> length nv = 1 \<and> fst (hd nv) = QUOTE"
      using assms(1) named by (auto simp: x mailbox_ok_def)
    then have nm: "list_all (\<lambda>t. token t = 0) nm \<or> (\<exists>q. nm = [q] \<and> token q = QUOTE)"
      using us(2) tk by (cases nm) (auto simp: list_all_iff)
    have "list_all (\<lambda>t. token t = 0) nm \<or> (\<exists>q p. nm = [q] \<and> token q = QUOTE \<and> tok_ptr q = At p)"
      using nm assms(4) us(1) by auto
    then have "name_of nm = nm" by (rule name_of_same)
    moreover have "nm \<noteq> []" "list_all (\<lambda>t. is_phrase (token t)) nm" using named us(2) nm by (auto simp: list_all_iff)
    ultimately show thesis using first_address_named[of nm l ts g rest] lg ok(2) that us x by auto
  qed
qed

lemma mailbox_views_ne: "mailbox_ok x \<Longrightarrow> mailbox_views x \<noteq> []"
  by (cases x) (auto simp: mailbox_views_def mailbox_ok_def)

lemma addresses_list:
  "list_all mailbox_ok xs \<Longrightarrow> map (tok_view s) us = list_views xs \<Longrightarrow> \<forall>t \<in> set us. token t = 0 \<or> (\<exists>p. tok_ptr t = At p) \<Longrightarrow>
   map (\<lambda>a. (map (tok_view s) (fst a), map (tok_view s) (snd a))) (addresses us) = xs"
proof (induction xs arbitrary: us rule: list_views.induct)
  case 1
  then show ?case by (simp add: addresses.simps)
next
  case (2 x)
  then have ok: "mailbox_ok x" "map (tok_view s) us = mailbox_views x" by simp_all
  obtain a where a: "first_address (us @ []) = (Some a, [])" "map (tok_view s) (fst a) = fst x" "map (tok_view s) (snd a) = snd x"
    using mailbox_tokens[OF ok _ "2.prems"(3), of "[]"] by auto
  have "us \<noteq> []" using ok mailbox_views_ne[OF ok(1)] by auto
  then show ?case using addresses_step[of us] a by (simp add: addresses.simps[of "[]"])
next
  case (3 x y xs)
  then obtain ts c rest where us: "us = ts @ c # rest" "map (tok_view s) ts = mailbox_views x" "tok_view s c = (COMMA, [COMMA])"
    "map (tok_view s) rest = list_views (y # xs)"
    by (auto simp: map_eq_append_conv map_eq_Cons_conv)
  have c: "token c = COMMA" using us(3) by (simp add: tok_view_def)
  obtain a where a: "first_address (ts @ c # rest) = (Some a, c # rest)" "map (tok_view s) (fst a) = fst x" "map (tok_view s) (snd a) = snd x"
    using mailbox_tokens[OF _ us(2), of "c # rest"] "3.prems" us(1) c by (auto simp: starts_def)
  have "addresses us = a # addresses rest"
    using addresses_step[of us] addresses_step[of "c # rest"] a(1) first_address_sep[OF c, of rest] us(1) by simp
  then show ?case using "3.IH"[OF _ us(4)] "3.prems" us(1) a by simp
qed

text \<open>Printing mailboxes.\<close>

definition addr_views :: "bytes \<Rightarrow> rfc822token list \<Rightarrow> rfc822addr \<Rightarrow> views option \<times> views option" where
  "addr_views s arr a = (map_option (map (tok_view s)) (chain_tokens arr (addr_tokens a)),
     map_option (map (tok_view s)) (chain_tokens arr (addr_name a)))"

definition list_of_views :: "bytes \<Rightarrow> rfc822token list \<Rightarrow> rfc822a \<Rightarrow> (views option \<times> views option) list" where
  "list_of_views s arr a = map (addr_views s arr) (take (naddrs a) (addrs a))"

definition some_views :: "views \<times> views \<Rightarrow> views option \<times> views option" where
  "some_views x = (Some (fst x), Some (snd x))"

lemma printed_simps [simp]:
  "printed f (map PChar cs @ ds) = cs @ printed f ds" "printed f (map PChar cs) = cs"
  by (induction cs) auto

lemma adjacent_apart: "adjacent_atoms ts \<longleftrightarrow> \<not> apart_atoms ts"
  by (induction ts rule: adjacent_atoms.induct) (auto simp: apart_atoms_def)

lemma chain_tokens_None: "chain_tokens arr None = Some []"
  by (subst chain_tokens.simps) simp

lemma print_address_mailbox:
  assumes "addr_views s arr a = some_views x" "mailbox_ok x" "0 \<notin> set s"
  shows "\<exists>calls. print_address s arr None a = Some (calls, True) \<and> printed f calls = mailbox_text x \<and>
    addr_tokens a \<noteq> None \<and> 0 \<notin> set (mailbox_text x)"
proof -
  obtain ts nm where c: "chain_tokens arr (addr_tokens a) = Some ts" "chain_tokens arr (addr_name a) = Some nm"
    "x = (map (tok_view s) ts, map (tok_view s) nm)"
    using assms(1) by (cases x) (auto simp: addr_views_def some_views_def)
  note ok = addr_tokens_views[OF assms(2)[unfolded c(3)]]
  have hd: "nm \<noteq> [] \<Longrightarrow> fst (hd (map (tok_view s) nm)) = token (hd nm)" by (simp add: hd_map tok_view_def)
  have "addr_tokens a \<noteq> None" using c(1) ok(1) chain_tokens_None[of arr] by (cases "addr_tokens a") auto
  moreover have "0 \<notin> set (mailbox_text x)"
    using print_tokens_nonzero[OF assms(3), of False] by (simp add: mailbox_text_def c(3) print_tokens_views)
  ultimately show ?thesis
    using c print_chain_tokens[OF c(1)] print_chain_tokens[OF c(2)] ok(3) hd
    by (auto simp: print_address_def mailbox_text_def adjacent_apart print_tokens_views Let_def)
qed

lemma print_list_mailboxes:
  "map (addr_views s arr) as = map some_views xs \<Longrightarrow> list_all mailbox_ok xs \<Longrightarrow> 0 \<notin> set s \<Longrightarrow>
   \<exists>calls. rfc822_print_loop s arr None as = Some (calls, True) \<and> printed keep_sep calls = list_text xs \<and> 0 \<notin> set (list_text xs)"
proof (induction xs arbitrary: as rule: list_text.induct)
  case (2 x)
  then obtain a where a: "as = [a]" "addr_views s arr a = some_views x" by auto
  obtain calls where "print_address s arr None a = Some (calls, True)" "printed keep_sep calls = mailbox_text x"
    "addr_tokens a \<noteq> None" "0 \<notin> set (mailbox_text x)"
    using print_address_mailbox[OF a(2), of keep_sep] "2.prems" by auto
  then show ?case using a(1) by auto
next
  case (3 x y xs)
  then obtain a b cs where a: "as = a # b # cs" "addr_views s arr a = some_views x" "addr_views s arr b = some_views y"
    "map (addr_views s arr) (b # cs) = map some_views (y # xs)" by auto
  obtain calls where p: "print_address s arr None a = Some (calls, True)" "printed keep_sep calls = mailbox_text x"
    "addr_tokens a \<noteq> None" "0 \<notin> set (mailbox_text x)"
    using print_address_mailbox[OF a(2), of keep_sep] "3.prems" by auto
  have b: "addr_tokens b \<noteq> None" using print_address_mailbox[OF a(3)] "3.prems" by auto
  obtain rest where r: "rfc822_print_loop s arr None (b # cs) = Some (rest, True)" "printed keep_sep rest = list_text (y # xs)"
    "0 \<notin> set (list_text (y # xs))"
    using "3.IH"[OF a(4)] "3.prems" by auto
  have app: "printed keep_sep (us @ vs) = printed keep_sep us @ printed keep_sep vs" for us vs
    by (induction "keep_sep" us rule: printed.induct) auto
  have "rfc822_print_loop s arr None as = Some (calls @ [PSep [COMMA, SPACE]] @ rest, True)"
    unfolding a(1) by (subst rfc822_print_loop.simps(2)) (use p b r in \<open>auto simp: Let_def simp del: rfc822_print_loop.simps\<close>)
  moreover have "keep_sep COMMA = COMMA" "keep_sep SPACE = SPACE" by (simp_all add: keep_sep_def)
  ultimately show ?case using p r by (simp add: app del: rfc822_print_loop.simps)
qed simp

lemma stored_views:
  assumes "stored lo hi arr a y"
  shows "addr_views s arr a = some_views (map (tok_view s) (fst y), map (tok_view s) (snd y))"
proof -
  obtain us vs where "chain_tokens arr (addr_tokens a) = Some us" "map bare us = fst y"
    "chain_tokens arr (addr_name a) = Some vs" "map bare vs = snd y"
    using assms linked_tokens unfolding stored_def by metis
  moreover have "map (tok_view s) (map bare us) = map (tok_view s) us" for us by simp
  ultimately show ?thesis by (metis addr_views_def fst_conv option.simps(9) snd_conv some_views_def)
qed

lemma list_text_getaddrs:
  assumes "list_of_views s arr a = map some_views xs" "list_all mailbox_ok xs" "0 \<notin> set s"
  shows "rfc822_getaddrs s arr a = Some (list_text xs @ [0])" "0 \<notin> set (list_text xs)"
proof -
  obtain calls where "rfc822_print s arr a = Some (calls, True)" "printed keep_sep calls = list_text xs" "0 \<notin> set (list_text xs)"
    using print_list_mailboxes[OF assms(1)[unfolded list_of_views_def] assms(2,3)]
    by (auto simp: rfc822_print_def rfc822_print_common_def)
  then show "rfc822_getaddrs s arr a = Some (list_text xs @ [0])" "0 \<notin> set (list_text xs)"
    using printed_to_buffer[of keep_sep calls] by (simp_all add: rfc822_getaddrs_def Let_def del: replicate_Suc)
qed

section \<open>Properties\<close>

text \<open>
  C4: a list of mailboxes that is printed with \<open>rfc822_getaddrs\<close> is read back by the tokenizer and the
  address parser, without an error, as the same mailboxes.
\<close>

theorem print_parse_addresses:
  assumes "list_of_views s arr a = map some_views xs" "list_all mailbox_ok xs" "0 \<notin> set s"
  shows "\<exists>s' t arr' a'. rfc822_getaddrs s arr a = Some (s' @ [0]) \<and> rfc822t_alloc_new s' = (t, []) \<and>
    rfc822a_alloc t = Some (arr', a') \<and> list_of_views s' arr' a' = map some_views xs"
proof (rule rfc822a_alloc_ok[OF list_text_getaddrs(2)[OF assms]])
  fix ts es arr' as
  let ?s = "list_text xs"
  assume a: "rfc822t_alloc_new ?s = (\<lparr>tokens = ts, ntokens = length ts\<rparr>, es)"
    "rfc822a_alloc \<lparr>tokens = ts, ntokens = length ts\<rparr> = Some (arr', \<lparr>addrs = as, naddrs = length as\<rparr>)"
    "list_all2 (stored 0 (length ts) arr') as (addresses (map bare ts))" "map (tok_view ?s) ts = fst (lex False ?s)"
    "es \<noteq> [] \<longleftrightarrow> snd (lex False ?s)" "\<forall>t \<in> set ts. token t = 0 \<or> (\<exists>p. tok_ptr t = At p)"
  have l: "lex False ?s = (list_views xs, False)" by (rule lex_list[OF assms(2)])
  have x: "map (\<lambda>y. (map (tok_view ?s) (fst y), map (tok_view ?s) (snd y))) (addresses (map bare ts)) = xs"
    using a(4,6) l by (intro addresses_list[OF assms(2)]) (auto simp: comp_def)
  have "map (addr_views ?s arr') as = map (\<lambda>y. some_views (map (tok_view ?s) (fst y), map (tok_view ?s) (snd y))) (addresses (map bare ts))"
    using a(3) by (induction rule: list_all2_induct) (auto dest: stored_views)
  also have "\<dots> = map some_views xs" by (subst (2) x[symmetric]) simp
  finally have "list_of_views ?s arr' \<lparr>addrs = as, naddrs = length as\<rparr> = map some_views xs" by (simp add: list_of_views_def)
  then show ?thesis using list_text_getaddrs(1)[OF assms] a(1,2,5) l by auto
qed

theorem print_parse_addresses_witness:
  "let s = [97, 64, 98];
       arr = [\<lparr>token = 0, tok_ptr = At 0, tok_len = 1, tok_next = Some 1\<rparr>, \<lparr>token = 64, tok_ptr = At 1, tok_len = 1, tok_next = Some 2\<rparr>,
         \<lparr>token = 0, tok_ptr = At 2, tok_len = 1, tok_next = None\<rparr>];
       a = \<lparr>addrs = [\<lparr>addr_tokens = Some 0, addr_name = None\<rparr>], naddrs = 1\<rparr>
   in \<exists>s' t arr' a'. rfc822_getaddrs s arr a = Some (s' @ [0]) \<and> rfc822t_alloc_new s' = (t, []) \<and>
     rfc822a_alloc t = Some (arr', a') \<and> list_of_views s' arr' a' = map some_views [([(0, [97]), (64, [64]), (0, [98])], [])]"
  unfolding Let_def by (rule print_parse_addresses) (code_simp, code_simp, simp)

text \<open>
  C7: whatever the text of a header is, parsing its addresses succeeds, and then the loops that print the
  addresses along the \<open>next\<close> pointers end inside the array.
\<close>

theorem parse_and_print_return:
  assumes "0 \<notin> set s"
  shows "\<exists>arr a text wrapped. rfc822a_alloc (fst (rfc822t_alloc_new s)) = Some (arr, a) \<and>
    rfc822_getaddrs s arr a = Some text \<and> rfc822_getaddrs_wrap s arr a w = Some wrapped"
proof (rule rfc822a_alloc_ok[OF assms])
  fix ts es arr as
  assume a: "rfc822t_alloc_new s = (\<lparr>tokens = ts, ntokens = length ts\<rparr>, es)"
    "rfc822a_alloc \<lparr>tokens = ts, ntokens = length ts\<rparr> = Some (arr, \<lparr>addrs = as, naddrs = length as\<rparr>)"
    "list_all2 (stored 0 (length ts) arr) as (addresses (map bare ts))"
  have "list_all (walkable arr) as" using a(3) by (induction rule: list_all2_induct) (auto dest: stored_walkable)
  then obtain calls where "rfc822_print_loop s arr None as = Some (calls, True)" using print_walkable by blast
  then show ?thesis using a(1,2)
    by (simp add: rfc822_getaddrs_def rfc822_getaddrs_wrap_def rfc822_print_def rfc822_print_common_def Let_def)
qed

theorem parse_and_print_return_witness:
  "\<exists>arr a text wrapped. rfc822a_alloc (fst (rfc822t_alloc_new [97, 64, 98])) = Some (arr, a) \<and>
    rfc822_getaddrs [97, 64, 98] arr a = Some text \<and> rfc822_getaddrs_wrap [97, 64, 98] arr a 10 = Some wrapped"
  by (rule parse_and_print_return) simp

text \<open>
  C8: the wrapped list is the printed list with its separators broken, and lines joined greedily as long
  as they stay below the width; a line that does not is one item.
\<close>

theorem getaddrs_wrap_fills:
  assumes "rfc822_print s arr a = Some (calls, True)" "printed newline_sep calls = t" "0 \<notin> set t" "t = [] \<or> last t \<noteq> 10"
    and "ls = fill_lines w (hd (split_lines t)) (tl (split_lines t))"
  shows "rfc822_getaddrs_wrap s arr a w = Some (join_lines ls @ [0]) \<and>
    (\<forall>l. l \<in> set ls \<longrightarrow> int (length l) < w \<or> l \<in> set (split_lines t))"
proof -
  have b: "(saveaddr newline_sep (replicate (cntlen calls + 1) 0) 0 calls)[cntlen calls := 0] = t @ [0]"
    using printed_to_buffer[of newline_sep calls] assms(2) by simp
  have "rfc822_getaddrs_wrap s arr a w = Some (wrap_loop w (t @ [0]) 0 0 None)"
    unfolding rfc822_getaddrs_wrap_def assms(1) Let_def Option.bind.simps case_prod_conv b by simp
  moreover have "l \<in> set (split_lines t)" if "l \<in> set ls" "\<not> int (length l) < w" for l
    using fill_lines_width[of l w "hd (split_lines t)" "tl (split_lines t)"] that assms(5) split_lines_ne[of t] by simp
  ultimately show ?thesis using wrap_loop_fills[OF assms(3,4)] assms(5) by auto
qed

theorem getaddrs_wrap_fills_witness:
  "rfc822_getaddrs_wrap [97, 98] [\<lparr>token = 0, tok_ptr = At 0, tok_len = 1, tok_next = None\<rparr>, \<lparr>token = 0, tok_ptr = At 1, tok_len = 1, tok_next = None\<rparr>]
     \<lparr>addrs = [\<lparr>addr_tokens = Some 0, addr_name = None\<rparr>, \<lparr>addr_tokens = Some 1, addr_name = None\<rparr>], naddrs = 2\<rparr> 4 =
   Some (join_lines (fill_lines 4 [97, 44] [[98]]) @ [0])"
  by (rule getaddrs_wrap_fills[where calls = "[PChar 97, PSep [44, 32], PChar 98]" and t = "[97, 44, 10, 98]", THEN conjunct1])
    (code_simp, code_simp, simp, simp, simp)

text \<open>
  What the mailboxes leave out: a source route without a name is printed without its angle brackets, so
  that it reads back as two addresses, and a name that ends in a quoted string loses the closing quote.
\<close>

lemma route_loses_brackets:
  "(let s = map ch ''<@a,@b:c@d>''; t = fst (rfc822t_alloc_new s) in
     Option.bind (rfc822a_alloc t) (\<lambda>(arr, a). rfc822_getaddrs s arr a)) = Some (map ch ''@a,@b:c@d'' @ [0])"
  by code_simp

lemma name_loses_quote:
  "(let s = [97, 32, 34, 98, 34, 32, 60, 99, 62]; t = fst (rfc822t_alloc_new s) in
     Option.bind (rfc822a_alloc t) (\<lambda>(arr, a). rfc822_getaddrs s arr a)) =
   Some [34, 97, 32, 92, 34, 98, 34, 32, 60, 99, 62, 0]"
  by code_simp

end
