(* ===== verification/Search.thy ===== *)
theory Search
  imports Unicode_Width "HOL-Library.Sublist"
begin

text \<open>
  The search engine of maildir/maildirsearch.c and maildirsearch.h: an automaton that looks for a string
  in a text that is fed to it one character at a time.  After a mismatch the position moves back along
  the retry indexes, so that the text is never read again.  The lemmas show that the position is the
  length of the longest part of the string's beginning that the text read so far ends with, and that the
  string is found exactly when it occurs in the text.
\<close>

section \<open>The engine\<close>

text \<open>
  The string is null-terminated; \<open>se_r\<close> has an entry for each of its characters.  The pointers \<open>string\<close>
  and \<open>ptr\<close> are the same once a search was started; before that they are null (\<open>None\<close>).
\<close>

record maildir_searchengine =
  se_string :: "u32 list option"
  se_string_l :: nat
  se_ptr :: "u32 list option"
  se_r :: "nat list"
  se_i :: nat
  se_spc :: bool

definition maildir_search_init :: maildir_searchengine where
  "maildir_search_init = \<lparr>se_string = None, se_string_l = 0, se_ptr = None, se_r = [], se_i = 0, se_spc = False\<rparr>"

definition uc_at :: "u32 list \<Rightarrow> nat \<Rightarrow> u32" where
  "uc_at s i = (if i < length s then s ! i else 0)"

definition maildir_search_reset :: "maildir_searchengine \<Rightarrow> maildir_searchengine" where
  "maildir_search_reset e = e\<lparr>se_i := 0, se_ptr := se_string e\<rparr>"

definition maildir_search_found :: "maildir_searchengine \<Rightarrow> bool" where
  "maildir_search_found e = (case se_ptr e of None \<Rightarrow> False | Some p \<Rightarrow> uc_at p (se_i e) = 0)"

definition maildir_search_len :: "maildir_searchengine \<Rightarrow> nat" where
  "maildir_search_len e = se_string_l e"

definition maildir_search_atstart :: "maildir_searchengine \<Rightarrow> bool" where
  "maildir_search_atstart e \<longleftrightarrow> se_i e = 0"

text \<open>The inner loop over \<open>j\<close> that looks for the first mismatch of the string with itself, moved by \<open>i\<close>.\<close>

function retry_loop :: "u32 list \<Rightarrow> nat \<Rightarrow> nat \<Rightarrow> nat list \<Rightarrow> nat list" where
  "retry_loop s i j r =
     (if uc_at s (i + j) = 0 then r
      else if uc_at s j \<noteq> uc_at s (i + j) then (if r ! (i + j) < j then r[i + j := j] else r)
      else retry_loop s i (j + 1) r)"
  by pat_completeness auto
termination by (relation "measure (\<lambda>(s, i, j, r). length s - (i + j))") (auto simp: uc_at_def split: if_splits)

declare retry_loop.simps [simp del]

definition retries :: "u32 list \<Rightarrow> nat list" where
  "retries s = fold (\<lambda>i r. retry_loop s i 0 r) [0 ..< length s] (replicate (length s) 0)"

text \<open>The argument is an array that holds a null-terminated string.\<close>

definition maildir_search_start_unicode :: "u32 list \<Rightarrow> maildir_searchengine \<Rightarrow> maildir_searchengine" where
  "maildir_search_start_unicode buf e =
     (let s = takeWhile (\<lambda>c. c \<noteq> 0) buf in
      maildir_search_reset (e\<lparr>se_string := Some s, se_string_l := length s, se_i := 0, se_r := retries s\<rparr>))"

definition maildir_search_start_str :: "bytes \<Rightarrow> maildir_searchengine \<Rightarrow> maildir_searchengine" where
  "maildir_search_start_str s e = maildir_search_start_unicode (map ucast (takeWhile (\<lambda>c. c \<noteq> 0) s) @ [0]) e"

text \<open>The endless loop of a step, at position \<open>i\<close>.\<close>

partial_function (option) step_loop :: "u32 list \<Rightarrow> nat list \<Rightarrow> u32 \<Rightarrow> nat \<Rightarrow> nat option" where
  "step_loop p r c i =
     (if uc_at p i = c then Some (i + 1)
      else if i = 0 then Some 0
      else step_loop p r c (r ! i))"

declare step_loop.simps [code]

definition maildir_search_step_unicode :: "u32 \<Rightarrow> maildir_searchengine \<Rightarrow> maildir_searchengine option" where
  "maildir_search_step_unicode c e =
     (case se_ptr e of None \<Rightarrow> Some e
      | Some p \<Rightarrow> if uc_at p (se_i e) = 0 then Some e
         else (case step_loop p (se_r e) c (se_i e) of None \<Rightarrow> None | Some i \<Rightarrow> Some (e\<lparr>se_i := i\<rparr>)))"

definition maildir_search_step :: "u8 \<Rightarrow> maildir_searchengine \<Rightarrow> maildir_searchengine option" where
  "maildir_search_step c e = maildir_search_step_unicode (ucast c) e"

definition SPC :: "u32 \<Rightarrow> bool" where
  "SPC c \<longleftrightarrow> c = 32 \<or> c = 9 \<or> c = 13 \<or> c = 10"

definition maildir_search_step_unicode_lc ::
    "case_tables \<Rightarrow> u32 \<Rightarrow> maildir_searchengine \<Rightarrow> maildir_searchengine option" where
  "maildir_search_step_unicode_lc T c e =
     (let spc = SPC c; c = (if spc then 32 else c) in
      case (if spc \<and> se_spc e then Some e
            else case unicode_lc T c of None \<Rightarrow> None | Some c \<Rightarrow> maildir_search_step_unicode c e) of
        None \<Rightarrow> None
      | Some e \<Rightarrow> Some (e\<lparr>se_spc := spc\<rparr>))"

text \<open>A text is fed character by character.\<close>

fun search_all :: "('c \<Rightarrow> maildir_searchengine \<Rightarrow> maildir_searchengine option) \<Rightarrow> 'c list \<Rightarrow> maildir_searchengine \<Rightarrow>
    maildir_searchengine option" where
  "search_all step [] e = Some e"
| "search_all step (c # cs) e = (case step c e of None \<Rightarrow> None | Some e \<Rightarrow> search_all step cs e)"

section \<open>Squeezing the string to search for\<close>

text \<open>
  The loops of \<open>maildir_search_start_str_chset\<close> over the buffer of the converted string, which is
  squeezed in place: the skipping of white space, the copying of a word with the white space
  character after it, and the loop around them.
\<close>

function skip_spaces :: "u32 list \<Rightarrow> nat \<Rightarrow> nat" where
  "skip_spaces buf i = (if SPC (uc_at buf i) then skip_spaces buf (i + 1) else i)"
  by pat_completeness auto
termination by (relation "measure (\<lambda>(buf, i). length buf - i)") (auto simp: uc_at_def SPC_def split: if_splits)

declare skip_spaces.simps [simp del]

partial_function (option) copy_word :: "case_tables \<Rightarrow> u32 list \<Rightarrow> nat \<Rightarrow> nat \<Rightarrow> (u32 list \<times> nat \<times> nat) option" where
  "copy_word T buf i j =
     (if uc_at buf i = 0 then Some (buf, i, j)
      else if unicode_lc T (uc_at buf i) = None then None
      else if SPC (uc_at (buf[j := the (unicode_lc T (uc_at buf i))]) i)
        then Some (buf[j := the (unicode_lc T (uc_at buf i))], i, j + 1)
      else copy_word T (buf[j := the (unicode_lc T (uc_at buf i))]) (i + 1) (j + 1))"

partial_function (option) squeeze_loop :: "case_tables \<Rightarrow> u32 list \<Rightarrow> nat \<Rightarrow> nat \<Rightarrow> (u32 list \<times> nat) option" where
  "squeeze_loop T buf i j =
     (if uc_at buf i = 0 then Some (buf, j)
      else if uc_at buf (skip_spaces buf i) = 0 then Some (buf, j)
      else Option.bind (copy_word T buf (skip_spaces buf i) j) (\<lambda>(buf, i, j). squeeze_loop T buf i j))"

declare copy_word.simps [code] squeeze_loop.simps [code]

fun drop_spaces :: "u32 list \<Rightarrow> nat \<Rightarrow> nat" where
  "drop_spaces buf 0 = 0"
| "drop_spaces buf (Suc j) = (if SPC (uc_at buf j) then drop_spaces buf j else Suc j)"

text \<open>
  The conversion from the character set is outside of this file (\<open>unicode.c\<close> over \<open>iconv\<close>): \<open>conv chset s\<close>
  are the characters of a string, or \<open>None\<close> if it fails; a null character is put after them.  The result
  is the return code with the engine; \<open>None\<close> is a loop without an end.
\<close>

definition maildir_search_start_str_chset ::
    "(bytes \<Rightarrow> bytes \<Rightarrow> u32 list option) \<Rightarrow> case_tables \<Rightarrow> bytes \<Rightarrow> bytes \<Rightarrow> maildir_searchengine \<Rightarrow>
     (int \<times> maildir_searchengine) option" where
  "maildir_search_start_str_chset conv T string chset e =
     (case conv chset (takeWhile (\<lambda>c. c \<noteq> 0) string) of
        None \<Rightarrow> Some (- 1, e)
      | Some cs \<Rightarrow>
          (case squeeze_loop T (cs @ [0]) 0 0 of
             None \<Rightarrow> None
           | Some (buf, j) \<Rightarrow> Some (0, maildir_search_start_unicode (buf[drop_spaces buf j := 0]) e)))"

section \<open>Retry indexes\<close>

text \<open>The string agrees with itself, moved by \<open>i\<close>, on \<open>j\<close> characters.\<close>

definition border :: "u32 list \<Rightarrow> nat \<Rightarrow> nat \<Rightarrow> bool" where
  "border s i j \<longleftrightarrow> (\<forall>l<j. s ! l = s ! (i + l))"

text \<open>
  What holds of the indexes \<open>r\<close> after the moves below \<open>m\<close>: an index is a border, and no shorter than
  any border from these moves that is followed by another character.
\<close>

definition retry_inv :: "u32 list \<Rightarrow> nat \<Rightarrow> nat list \<Rightarrow> bool" where
  "retry_inv s m r \<longleftrightarrow> length r = length s \<and>
     (\<forall>k<length s. (r ! k = 0 \<or> r ! k < k) \<and> border s (k - r ! k) (r ! k) \<and>
        (\<forall>j<k. k - j < m \<longrightarrow> border s (k - j) j \<longrightarrow> s ! j \<noteq> s ! k \<longrightarrow> j \<le> r ! k))"

lemma uc_at_less: "i < length s \<Longrightarrow> uc_at s i = s ! i"
  by (simp add: uc_at_def)

lemma retry_invI:
  assumes "length r = length s"
    and "\<And>k. k < length s \<Longrightarrow> (r ! k = 0 \<or> r ! k < k) \<and> border s (k - r ! k) (r ! k)"
    and "\<And>k j. k < length s \<Longrightarrow> j < k \<Longrightarrow> k - j < m \<Longrightarrow> border s (k - j) j \<Longrightarrow> s ! j \<noteq> s ! k \<Longrightarrow> j \<le> r ! k"
  shows "retry_inv s m r"
  using assms unfolding retry_inv_def by blast

lemma retry_invD:
  assumes "retry_inv s m r"
  shows "length r = length s"
    and "k < length s \<Longrightarrow> r ! k = 0 \<or> r ! k < k"
    and "k < length s \<Longrightarrow> border s (k - r ! k) (r ! k)"
    and "k < length s \<Longrightarrow> j < k \<Longrightarrow> k - j < m \<Longrightarrow> border s (k - j) j \<Longrightarrow> s ! j \<noteq> s ! k \<Longrightarrow> j \<le> r ! k"
  using assms unfolding retry_inv_def by blast+

lemma uc_at_zero: "0 \<notin> set s \<Longrightarrow> uc_at s i = 0 \<longleftrightarrow> length s \<le> i"
  by (auto simp: uc_at_def dest: nth_mem)

lemma retry_loop_inv:
  "0 \<notin> set s \<Longrightarrow> retry_inv s i r \<Longrightarrow> border s i j \<Longrightarrow> retry_inv s (Suc i) (retry_loop s i j r)"
proof (induction s i j r rule: retry_loop.induct)
  case (1 s i j r)
  note inv = retry_invD[OF "1.prems"(2)]
  have j: "s ! l = s ! (i + l)" if "l < j" for l using "1.prems"(3) that by (simp add: border_def)
  consider "length s \<le> i + j" | "i + j < length s" "s ! j = s ! (i + j)" | "i + j < length s" "s ! j \<noteq> s ! (i + j)"
    by linarith
  then show ?case
  proof cases
    case 1
    have "retry_inv s (Suc i) r"
    proof (rule retry_invI)
      fix k l assume a: "k < length s" "l < k" "k - l < Suc i" "border s (k - l) l" "s ! l \<noteq> s ! k"
      show "l \<le> r ! k"
      proof (cases "k - l < i")
        case False
        then have "k = i + l" "l < j" using a 1 by linarith+
        then show ?thesis using j a(5) by simp
      qed (use inv(4) a in blast)
    qed (use inv in auto)
    with 1 show ?thesis by (subst retry_loop.simps) (simp add: uc_at_def)
  next
    case 2
    have "border s i (j + 1)" using j 2(2) by (auto simp: border_def less_Suc_eq)
    moreover have at: "uc_at s (i + j) \<noteq> 0" "uc_at s j = uc_at s (i + j)"
      using 2 "1.prems"(1) by (simp_all add: uc_at_zero) (simp_all add: uc_at_less)
    ultimately show ?thesis using "1.IH"[OF at(1)] "1.prems" by (subst retry_loop.simps) simp
  next
    case 3
    have i: "0 < i" using 3(2) by (cases i) auto
    have nz: "uc_at s (i + j) \<noteq> 0" using 3(1) "1.prems"(1) by (simp add: uc_at_zero)
    define r' where "r' = r[i + j := max j (r ! (i + j))]"
    have upd: "retry_loop s i j r = r'"
      using 3 nz by (subst retry_loop.simps) (auto simp: uc_at_less r'_def max_def)
    have at: "r' ! k = (if k = i + j then max j (r ! k) else r ! k)" if "k < length s" for k
      using that inv(1) by (simp add: r'_def)
    have "retry_inv s (Suc i) r'"
    proof (rule retry_invI)
      fix k assume k: "k < length s"
      show "(r' ! k = 0 \<or> r' ! k < k) \<and> border s (k - r' ! k) (r' ! k)"
        using inv(2,3)[OF k] i "1.prems"(3) by (auto simp: at[OF k] max_def)
    next
      fix k l assume a: "k < length s" "l < k" "k - l < Suc i" "border s (k - l) l" "s ! l \<noteq> s ! k"
      show "l \<le> r' ! k"
      proof (cases "k - l < i")
        case True
        then show ?thesis using inv(4)[OF a(1,2) _ a(4,5)] by (auto simp: at[OF a(1)])
      next
        case False
        then have k: "k = i + l" using a by linarith
        have "l \<le> j"
        proof (rule ccontr)
          assume "\<not> l \<le> j"
          then have "s ! j = s ! (i + j)" using a(4) by (simp add: k border_def)
          then show False using 3(2) by simp
        qed
        moreover have "\<not> l < j" using j a(5) k by auto
        ultimately show ?thesis using at[OF a(1)] k by simp
      qed
    qed (simp add: r'_def inv(1))
    then show ?thesis by (simp add: upd)
  qed
qed

lemma retries_inv:
  assumes "0 \<notin> set s"
  shows "retry_inv s (length s) (retries s)"
proof -
  have "retry_inv s m (fold (\<lambda>i r. retry_loop s i 0 r) [0 ..< m] (replicate (length s) 0))" for m
  proof (induction m)
    case 0
    show ?case by (simp add: retry_inv_def border_def)
  next
    case (Suc m)
    have "border s m 0" by (simp add: border_def)
    from retry_loop_inv[OF assms Suc this] show ?case by simp
  qed
  then show ?thesis by (simp add: retries_def)
qed

section \<open>The position is the longest match\<close>

text \<open>The text ends with the first \<open>i\<close> characters of the string, and with no longer such part.\<close>

definition longest_match :: "u32 list \<Rightarrow> u32 list \<Rightarrow> nat \<Rightarrow> bool" where
  "longest_match s t i \<longleftrightarrow> i \<le> length s \<and> suffix (take i s) t \<and> (\<forall>j\<le>length s. suffix (take j s) t \<longrightarrow> j \<le> i)"

lemma border_suffix:
  assumes "j \<le> k" "k \<le> length s"
  shows "suffix (take j s) (take k s) \<longleftrightarrow> border s (k - j) j"
proof -
  have "suffix (take j s) (take k s) \<longleftrightarrow> take j s = drop (k - j) (take k s)"
  proof
    assume "suffix (take j s) (take k s)"
    then obtain zs where zs: "take k s = zs @ take j s" by (auto simp: suffix_def)
    then have "length (zs @ take j s) = k" using assms by (metis length_take min.absorb2)
    then have "length zs = k - j" using assms by simp
    then show "take j s = drop (k - j) (take k s)" by (simp add: zs)
  qed (metis suffix_drop)
  also have "\<dots> \<longleftrightarrow> (\<forall>l<j. s ! l = s ! (k - j + l))"
    using assms by (auto simp: list_eq_iff_nth_eq)
  finally show ?thesis by (simp add: border_def)
qed

lemma suffix_take_snoc:
  assumes "j \<le> length s"
  shows "suffix (take j s) (t @ [c]) \<longleftrightarrow> j = 0 \<or> (\<exists>l. j = Suc l \<and> suffix (take l s) t \<and> s ! l = c)"
  using assms by (cases j) (auto simp: take_Suc_conv_app_nth)

lemma step_loop_correct:
  assumes s: "0 \<notin> set s" "retry_inv s (length s) r"
  shows "k < length s \<Longrightarrow> suffix (take k s) t \<Longrightarrow> (\<forall>j<length s. suffix (take j s) t \<longrightarrow> s ! j = c \<longrightarrow> j \<le> k) \<Longrightarrow>
    \<exists>i. step_loop s r c k = Some i \<and> longest_match s (t @ [c]) i"
proof (induction k rule: less_induct)
  case (less k)
  note inv = retry_invD[OF s(2)]
  show ?case
  proof (cases "s ! k = c")
    case True
    have "longest_match s (t @ [c]) (k + 1)"
      using less.prems True by (auto simp: longest_match_def suffix_take_snoc less_eq_Suc_le simp del: suffix_snoc)
    then show ?thesis using True less.prems(1) by (subst step_loop.simps) (simp add: uc_at_less)
  next
    case False
    show ?thesis
    proof (cases "k = 0")
      case True
      have "longest_match s (t @ [c]) 0"
        using less.prems False True by (auto simp: longest_match_def suffix_take_snoc less_eq_Suc_le simp del: suffix_snoc)
      then show ?thesis using False True less.prems(1) by (subst step_loop.simps) (simp add: uc_at_less)
    next
      case k: False
      let ?k = "r ! k"
      have lt: "?k < k" using inv(2)[OF less.prems(1)] k by auto
      have suf: "suffix (take ?k s) (take k s)"
        using border_suffix[of ?k k s] lt less.prems(1) inv(3)[OF less.prems(1)] by simp
      have "\<forall>j<length s. suffix (take j s) t \<longrightarrow> s ! j = c \<longrightarrow> j \<le> ?k"
      proof (intro allI impI)
        fix j assume j: "j < length s" "suffix (take j s) t" "s ! j = c"
        then have "j \<le> k" "j \<noteq> k" using less.prems(3) False by auto
        then have jk: "j < k" by simp
        have "suffix (take j s) (take k s)"
          using suffix_length_suffix[OF j(2) less.prems(2)] jk less.prems(1) by simp
        then have "border s (k - j) j" using border_suffix[of j k s] jk less.prems(1) by simp
        moreover have "s ! j \<noteq> s ! k" using j(3) False by simp
        ultimately show "j \<le> ?k" using inv(4)[OF less.prems(1) jk] less.prems(1) by simp
      qed
      then obtain i where "step_loop s r c ?k = Some i" "longest_match s (t @ [c]) i"
        using less.IH[OF lt _ suffix_order.trans[OF suf less.prems(2)]] lt less.prems(1) by auto
      then show ?thesis using False k less.prems(1) by (subst step_loop.simps) (simp add: uc_at_less)
    qed
  qed
qed

definition started :: "u32 list \<Rightarrow> maildir_searchengine \<Rightarrow> bool" where
  "started s e \<longleftrightarrow> se_ptr e = Some s \<and> se_r e = retries s"

text \<open>The state after the text \<open>t\<close>.\<close>

definition seen_text :: "u32 list \<Rightarrow> u32 list \<Rightarrow> maildir_searchengine \<Rightarrow> bool" where
  "seen_text s t e \<longleftrightarrow> started s e \<and>
     (if sublist s t then se_i e = length s else longest_match s t (se_i e))"

lemma seen_text_found:
  assumes "0 \<notin> set s" "seen_text s t e"
  shows "maildir_search_found e \<longleftrightarrow> sublist s t"
proof -
  have "sublist s t" if "longest_match s t (length s)"
    using that by (simp add: longest_match_def)
  then show ?thesis using assms
    by (auto simp: maildir_search_found_def seen_text_def started_def uc_at_zero longest_match_def split: if_splits)
qed

lemma step_seen_text:
  assumes s: "0 \<notin> set s" and e: "seen_text s t e"
  shows "\<exists>i. maildir_search_step_unicode c e = Some (e\<lparr>se_i := i\<rparr>) \<and> seen_text s (t @ [c]) (e\<lparr>se_i := i\<rparr>)"
proof (cases "sublist s t")
  case True
  then have "sublist s (t @ [c])" by (simp add: sublist_snoc)
  moreover have "e\<lparr>se_i := length s\<rparr> = e" using e True by (simp add: seen_text_def)
  ultimately show ?thesis using True e
    by (intro exI[of _ "length s"]) (auto simp: seen_text_def started_def maildir_search_step_unicode_def uc_at_def)
next
  case False
  with e have m: "longest_match s t (se_i e)" and st: "started s e" by (auto simp: seen_text_def)
  have less: "se_i e < length s" using m False by (auto simp: longest_match_def le_less)
  obtain i where i: "step_loop s (retries s) c (se_i e) = Some i" "longest_match s (t @ [c]) i"
    using step_loop_correct[OF s retries_inv[OF s] less, of t c] m by (auto simp: longest_match_def)
  have "i = length s" if "sublist s (t @ [c])"
  proof -
    have "suffix (take (length s) s) (t @ [c])" using that False by (simp add: sublist_snoc)
    then show ?thesis using i(2) by (force simp: longest_match_def)
  qed
  then have "seen_text s (t @ [c]) (e\<lparr>se_i := i\<rparr>)" using st i(2) by (auto simp: seen_text_def started_def)
  moreover have "maildir_search_step_unicode c e = Some (e\<lparr>se_i := i\<rparr>)"
    using st s less i(1) by (simp add: maildir_search_step_unicode_def started_def uc_at_zero)
  ultimately show ?thesis by blast
qed

lemma feed_seen_text:
  assumes s: "0 \<notin> set s"
  shows "seen_text s t e \<Longrightarrow> \<exists>e'. search_all maildir_search_step_unicode cs e = Some e' \<and> seen_text s (t @ cs) e'"
proof (induction cs arbitrary: t e)
  case (Cons c cs)
  from step_seen_text[OF s Cons.prems, of c] obtain i
    where "maildir_search_step_unicode c e = Some (e\<lparr>se_i := i\<rparr>)" "seen_text s (t @ [c]) (e\<lparr>se_i := i\<rparr>)" by blast
  with Cons.IH[of "t @ [c]"] show ?case by simp
qed simp

lemma start_seen_text:
  "seen_text (takeWhile (\<lambda>c. c \<noteq> 0) s) [] (maildir_search_start_unicode s e)"
  by (auto simp: seen_text_def started_def maildir_search_start_unicode_def maildir_search_reset_def Let_def longest_match_def)

lemma zero_takeWhile: "0 \<notin> set (takeWhile (\<lambda>c. c \<noteq> (0::'a::zero)) s)"
  by (auto dest: set_takeWhileD)

section \<open>White space and case\<close>

text \<open>
  The rows of the case table concern letters: no row is that of a white space or null character, and
  none maps to one.
\<close>

definition case_letters :: "case_tables \<Rightarrow> bool" where
  "case_letters T \<longleftrightarrow> wf_case T \<and>
     list_all (\<lambda>(c, _, l, _). \<not> SPC c \<and> \<not> SPC l \<and> c \<noteq> 0 \<and> l \<noteq> 0) (butlast (unicode_case_tab T))"

definition lower :: "case_tables \<Rightarrow> u32 \<Rightarrow> u32" where
  "lower T c = (case case_row T c of None \<Rightarrow> c | Some row \<Rightarrow> fst (snd row))"

definition blank :: "u32 \<Rightarrow> u32" where
  "blank c = (if SPC c then 32 else c)"

text \<open>Of each run of white space only the first character is kept; the flag tells that a run is under way.\<close>

fun collapse :: "bool \<Rightarrow> u32 list \<Rightarrow> u32 list" where
  "collapse b [] = []"
| "collapse b (c # cs) = (if SPC c then (if b then collapse True cs else c # collapse True cs) else c # collapse False cs)"

definition strip :: "u32 list \<Rightarrow> u32 list" where
  "strip s = rev (dropWhile SPC (rev s))"

text \<open>The string that is searched for, and the text it is searched in.\<close>

definition squeezed :: "case_tables \<Rightarrow> u32 list \<Rightarrow> u32 list" where
  "squeezed T s = strip (map (lower T) (collapse True s))"

definition normal_text :: "case_tables \<Rightarrow> bool \<Rightarrow> u32 list \<Rightarrow> u32 list" where
  "normal_text T b t = map (\<lambda>c. lower T (blank c)) (collapse b t)"

lemma lc_lower:
  assumes "wf_case T"
  shows "unicode_lc T c = Some (lower T c)"
proof -
  obtain i where "find_case T c = Some i"
    "case_row T c = (if case_key T i = c then Some (snd (unicode_case_tab T ! i)) else None)"
    by (rule find_case_row[OF assms])
  then show ?thesis by (simp add: unicode_lc_def lower_def)
qed

lemma lower_letters:
  assumes "case_letters T"
  shows "SPC (lower T c) = SPC c" "SPC c \<Longrightarrow> lower T c = c" "lower T c = 0 \<longleftrightarrow> c = 0"
    "lower T c = d \<Longrightarrow> SPC d \<Longrightarrow> c = d"
proof -
  have row: "\<not> SPC c \<and> \<not> SPC (fst (snd row)) \<and> c \<noteq> 0 \<and> fst (snd row) \<noteq> 0" if "case_row T c = Some row" for c row
    using map_of_SomeD[OF that[unfolded case_row_def]] assms by (auto simp: case_letters_def list_all_iff)
  show "SPC (lower T c) = SPC c" "SPC c \<Longrightarrow> lower T c = c" "lower T c = 0 \<longleftrightarrow> c = 0"
    "lower T c = d \<Longrightarrow> SPC d \<Longrightarrow> c = d"
    by (auto simp: lower_def dest: row split: option.splits)
qed

lemma step_lc_seen_text:
  assumes s: "0 \<notin> set s" and T: "wf_case T"
  shows "seen_text s t e \<Longrightarrow> \<exists>e'. search_all (maildir_search_step_unicode_lc T) cs e = Some e' \<and>
    seen_text s (t @ normal_text T (se_spc e) cs) e'"
proof (induction cs arbitrary: t e)
  case (Cons c cs)
  show ?case
  proof (cases "SPC c \<and> se_spc e")
    case True
    let ?e = "e\<lparr>se_spc := True\<rparr>"
    have "seen_text s t ?e" using Cons.prems by (simp add: seen_text_def started_def)
    from Cons.IH[OF this] True show ?thesis
      by (simp add: maildir_search_step_unicode_lc_def normal_text_def)
  next
    case False
    from step_seen_text[OF s Cons.prems, of "lower T (blank c)"] obtain i
      where i: "maildir_search_step_unicode (lower T (blank c)) e = Some (e\<lparr>se_i := i\<rparr>)"
        "seen_text s (t @ [lower T (blank c)]) (e\<lparr>se_i := i\<rparr>)" by blast
    let ?e = "e\<lparr>se_i := i, se_spc := SPC c\<rparr>"
    have "seen_text s (t @ [lower T (blank c)]) ?e" using i(2) by (auto simp: seen_text_def started_def)
    from Cons.IH[OF this] False i(1) show ?thesis
      by (auto simp: maildir_search_step_unicode_lc_def normal_text_def Let_def lc_lower[OF T] blank_def split: if_splits)
  qed
qed (simp add: normal_text_def)

lemma uc_at_drop: "drop i buf = c # us \<Longrightarrow> uc_at buf i = c"
  by (metis drop_eq_Nil hd_drop_conv_nth leI list.distinct(1) list.sel(1) uc_at_less)

lemma copy_word_ok:
  assumes T: "case_letters T"
  shows "drop i buf = us @ 0 # rest \<Longrightarrow> 0 \<notin> set us \<Longrightarrow> j \<le> i \<Longrightarrow>
    w = takeWhile (\<lambda>c. \<not> SPC c) us \<Longrightarrow> v = dropWhile (\<lambda>c. \<not> SPC c) us \<Longrightarrow>
    \<exists>buf'. copy_word T buf i j = Some (buf', i + length w, j + length (w @ take 1 v)) \<and> length buf' = length buf \<and>
      drop (i + length w) buf' = v @ 0 # rest \<and> take (j + length (w @ take 1 v)) buf' = take j buf @ map (lower T) (w @ take 1 v)"
proof (induction us arbitrary: i j buf w)
  case Nil
  then show ?case by (subst copy_word.simps) (simp add: uc_at_drop)
next
  case (Cons u us)
  let ?buf = "buf[j := lower T u]"
  have len: "i < length buf" by (rule ccontr) (use Cons.prems(1) in simp)
  have u: "uc_at buf i = u" "u \<noteq> 0" using Cons.prems(1,2) by (auto simp: uc_at_drop)
  have same: "SPC (uc_at ?buf i) = SPC u"
    using u len lower_letters(1)[OF T] by (cases "j = i") (auto simp: uc_at_def)
  have step: "copy_word T buf i j = (if SPC u then Some (?buf, i, j + 1) else copy_word T ?buf (i + 1) (j + 1))"
    using u same T by (subst copy_word.simps) (simp add: lc_lower case_letters_def)
  have written: "take (Suc j) ?buf = take j buf @ [lower T u]"
    using len Cons.prems(3) by (simp add: take_Suc_conv_app_nth)
  have drop: "drop (Suc i) ?buf = us @ 0 # rest"
    using Cons.prems(1,3) by (simp add: drop_Suc tl_drop flip: drop_Suc) (metis drop_Suc list.sel(3) tl_drop)
  show ?case
  proof (cases "SPC u")
    case True
    have "?buf = buf" if "j = i"
      using True lower_letters(2)[OF T] u(1) len that by (auto simp: uc_at_less)
    then have "drop i ?buf = u # us @ 0 # rest" using Cons.prems(1,3) by (cases "j = i") auto
    with True Cons.prems(4,5) step written show ?thesis by simp
  next
    case False
    from Cons.IH[OF drop _ _ refl, of "Suc j"] Cons.prems False step written show ?thesis
      by fastforce
  qed
qed

lemma skip_spaces_ok: "drop i buf = us @ 0 # rest \<Longrightarrow> 0 \<notin> set us \<Longrightarrow>
  drop (skip_spaces buf i) buf = dropWhile SPC us @ 0 # rest \<and> i \<le> skip_spaces buf i"
proof (induction us arbitrary: i)
  case Nil
  then show ?case by (subst (1 2) skip_spaces.simps) (simp add: uc_at_drop SPC_def)
next
  case (Cons u us)
  have "drop (i + 1) buf = us @ 0 # rest" using Cons.prems(1) by (metis Suc_eq_plus1 append_Cons drop_Suc list.sel(3) tl_drop)
  from Cons.IH[OF this] Cons.prems show ?case
    by (subst (1 2) skip_spaces.simps) (simp add: uc_at_drop)
qed

lemma collapse_word: "collapse True (dropWhile SPC us) = collapse True us"
  by (induction us) auto

lemma collapse_cut:
  "us \<noteq> [] \<Longrightarrow> \<not> SPC (hd us) \<Longrightarrow> w = takeWhile (\<lambda>c. \<not> SPC c) us \<Longrightarrow> v = dropWhile (\<lambda>c. \<not> SPC c) us \<Longrightarrow>
   collapse b us = (w @ take 1 v) @ collapse True v"
proof (induction us arbitrary: b w)
  case (Cons u us)
  show ?case
  proof (cases us)
    case (Cons u' us')
    with Cons.prems Cons.IH[of "takeWhile (\<lambda>c. \<not> SPC c) us" False] show ?thesis by (cases "SPC u'") auto
  qed (use Cons.prems in auto)
qed simp

lemma squeeze_loop_ok:
  assumes T: "case_letters T"
  shows "drop i buf = us @ 0 # rest \<Longrightarrow> 0 \<notin> set us \<Longrightarrow> j \<le> skip_spaces buf i \<Longrightarrow>
    \<exists>buf' j'. squeeze_loop T buf i j = Some (buf', j') \<and> j' < length buf' \<and>
      take j' buf' = take j buf @ map (lower T) (collapse True us)"
proof (induction "length us" arbitrary: us i j buf rule: less_induct)
  case less
  let ?us = "dropWhile SPC us" and ?i = "skip_spaces buf i"
  note skip = skip_spaces_ok[OF less.prems(1,2)]
  have len: "?i < length buf" by (rule ccontr) (use skip in simp)
  show ?case
  proof (cases ?us)
    case Nil
    then have "uc_at buf ?i = 0" using skip uc_at_drop[of ?i buf 0 rest] by simp
    moreover have "collapse True us = []" using collapse_word[of us] Nil by simp
    ultimately have "squeeze_loop T buf i j = Some (buf, j)" by (subst squeeze_loop.simps) simp
    with less.prems(3) len \<open>collapse True us = []\<close> show ?thesis by simp
  next
    case (Cons u us')
    define w where "w = takeWhile (\<lambda>c. \<not> SPC c) ?us"
    define v where "v = dropWhile (\<lambda>c. \<not> SPC c) ?us"
    have u: "\<not> SPC u" using hd_dropWhile[of SPC us] Cons by simp
    have sub: "set ?us \<subseteq> set us" by (rule set_dropWhileD[THEN subsetI])
    have nz: "0 \<notin> set ?us" "0 \<notin> set v" using sub less.prems(2) by (auto simp: v_def dest: set_dropWhileD)
    from copy_word_ok[OF T _ nz(1) _ w_def v_def, of ?i buf rest j] skip less.prems(3)
    obtain buf1 where b: "copy_word T buf ?i j = Some (buf1, ?i + length w, j + length (w @ take 1 v))"
        "drop (?i + length w) buf1 = v @ 0 # rest" "take (j + length (w @ take 1 v)) buf1 = take j buf @ map (lower T) (w @ take 1 v)"
      by auto
    have "length ?us \<le> length us" by (rule length_dropWhile_le)
    moreover have "length v \<le> length us'" using u length_dropWhile_le[of _ us'] by (simp add: v_def Cons)
    ultimately have shorter: "length v < length us" using Cons by simp
    have w: "w \<noteq> []" using u by (simp add: w_def Cons)
    have "j + length (w @ take 1 v) \<le> skip_spaces buf1 (?i + length w)"
    proof (cases v)
      case Nil
      then show ?thesis using skip_spaces_ok[OF b(2) nz(2)] less.prems(3) by simp
    next
      case (Cons c cs)
      then have c: "SPC c" using hd_dropWhile[of "\<lambda>c. \<not> SPC c" ?us] by (simp add: v_def)
      have "drop (?i + length w + 1) buf1 = cs @ 0 # rest"
        using b(2) Cons by (metis Suc_eq_plus1 append_Cons drop_Suc list.sel(3) tl_drop)
      from skip_spaces_ok[OF this] nz(2) Cons have "?i + length w + 1 \<le> skip_spaces buf1 (?i + length w + 1)" by simp
      moreover have "skip_spaces buf1 (?i + length w) = skip_spaces buf1 (?i + length w + 1)"
        using c uc_at_drop[of "?i + length w" buf1 c] b(2) Cons by (subst skip_spaces.simps) simp
      ultimately show ?thesis using less.prems(3) Cons by simp
    qed
    from less.hyps[OF shorter b(2) nz(2) this] obtain buf' j'
      where r: "squeeze_loop T buf1 (?i + length w) (j + length (w @ take 1 v)) = Some (buf', j')" "j' < length buf'"
        "take j' buf' = take (j + length (w @ take 1 v)) buf1 @ map (lower T) (collapse True v)" by blast
    have "uc_at buf ?i = u" "u \<noteq> 0" using skip nz(1) uc_at_drop[of ?i buf u] Cons by auto
    moreover have "uc_at buf i \<noteq> 0"
      using less.prems(1,2) Cons uc_at_drop[of i buf "hd us"] by (cases us) auto
    ultimately have "squeeze_loop T buf i j = Some (buf', j')" using b r by (subst squeeze_loop.simps) simp
    moreover have "collapse True us = (w @ take 1 v) @ collapse True v"
      using collapse_cut[OF _ _ w_def v_def, of True] u Cons collapse_word[of us] by simp
    ultimately show ?thesis using r b(3) by auto
  qed
qed

lemma strip_snoc: "strip (s @ [c]) = (if SPC c then strip s else s @ [c])"
  by (simp add: strip_def)

lemma drop_spaces_strip:
  "j \<le> length buf \<Longrightarrow> take (drop_spaces buf j) buf = strip (take j buf) \<and> drop_spaces buf j \<le> j"
proof (induction j)
  case 0
  then show ?case by (simp add: strip_def)
next
  case (Suc j)
  then show ?case by (auto simp: strip_snoc uc_at_less take_Suc_conv_app_nth)
qed

lemma set_strip: "set (strip s) \<subseteq> set s"
  by (auto simp: strip_def dest: set_dropWhileD)

lemma set_collapse: "set (collapse b s) \<subseteq> set s"
  by (induction b s rule: collapse.induct) auto

lemma squeezed_no_zero:
  assumes "case_letters T" "0 \<notin> set s"
  shows "0 \<notin> set (squeezed T s)"
proof
  assume "0 \<in> set (squeezed T s)"
  then obtain c where "c \<in> set s" "lower T c = 0"
    using set_strip set_collapse by (fastforce simp: squeezed_def)
  then show False using lower_letters(3)[OF assms(1)] assms(2) by auto
qed

lemma takeWhile_terminated:
  "d < length buf \<Longrightarrow> 0 \<notin> set (take d buf) \<Longrightarrow> takeWhile (\<lambda>c. c \<noteq> 0) (buf[d := (0::u32)]) = take d buf"
  by (subst upd_conv_take_nth_drop) (auto simp: takeWhile_append)

lemma start_squeezed:
  assumes T: "case_letters T" and conv: "conv chset (takeWhile (\<lambda>c. c \<noteq> 0) string) = Some cs"
  shows "\<exists>e'. maildir_search_start_str_chset conv T string chset e = Some (0, e') \<and>
    seen_text (squeezed T (takeWhile (\<lambda>c. c \<noteq> 0) cs)) [] e' \<and> se_spc e' = se_spc e"
proof -
  let ?s = "takeWhile (\<lambda>c. c \<noteq> 0) cs"
  obtain rest where "cs @ [0] = ?s @ 0 # rest"
  proof (cases "0 \<in> set cs")
    case True
    then obtain rest where "dropWhile (\<lambda>c. c \<noteq> 0) cs = 0 # rest"
      by (metis (mono_tags, lifting) dropWhile_eq_Nil_conv hd_dropWhile list.exhaust_sel)
    then have "cs @ [0] = ?s @ 0 # (rest @ [0])"
      by (metis append_Cons append_assoc takeWhile_dropWhile_id)
    then show ?thesis by (rule that)
  next
    case False
    then have s: "?s = cs" by (intro takeWhile_eq_all_conv[THEN iffD2]) auto
    show ?thesis by (rule that[of "[]"]) (subst s, rule refl)
  qed
  then have "drop 0 (cs @ [0]) = ?s @ 0 # rest" by simp
  from squeeze_loop_ok[OF T this zero_takeWhile, of 0] obtain buf j
    where q: "squeeze_loop T (cs @ [0]) 0 0 = Some (buf, j)" "j < length buf"
      "take j buf = map (lower T) (collapse True ?s)" by auto
  let ?d = "drop_spaces buf j"
  have d: "take ?d buf = squeezed T ?s" "?d < length buf"
    using drop_spaces_strip[of j buf] q(2,3) by (auto simp: squeezed_def)
  have "takeWhile (\<lambda>c. c \<noteq> 0) (buf[?d := 0]) = squeezed T ?s"
    using takeWhile_terminated[OF d(2)] squeezed_no_zero[OF T zero_takeWhile] d(1) by simp
  moreover have "se_spc (maildir_search_start_unicode b e) = se_spc e" for b
    by (simp add: maildir_search_start_unicode_def maildir_search_reset_def Let_def)
  ultimately show ?thesis
    using start_seen_text[of "buf[?d := 0]" e] by (simp add: maildir_search_start_str_chset_def conv q(1))
qed

lemma case_letters_tiny: "case_letters case_tiny"
proof -
  have "list_all (\<lambda>(c, _, l, _). \<not> SPC c \<and> \<not> SPC l \<and> c \<noteq> 0 \<and> l \<noteq> 0) (butlast (unicode_case_tab case_tiny))"
    by code_simp
  then show ?thesis by (simp add: case_letters_def wf_case_tiny)
qed

text \<open>C9: whatever text is fed to a search for a string, every step returns, and the string is reported as found exactly when it occurs in the text.\<close>

theorem search_finds:
  "\<exists>e'. search_all maildir_search_step_unicode t (maildir_search_start_unicode s e) = Some e' \<and>
     (maildir_search_found e' \<longleftrightarrow> sublist (takeWhile (\<lambda>c. c \<noteq> 0) s) t)"
  using feed_seen_text[OF zero_takeWhile start_seen_text] seen_text_found[OF zero_takeWhile] by fastforce

text \<open>C10: a search that is started with a string in a character set finds, in a text fed with case and white space
  normalised, the string with its runs of white space reduced to their first characters, in lower case.\<close>

theorem search_normalised:
  assumes "case_letters T" "conv chset (takeWhile (\<lambda>c. c \<noteq> 0) string) = Some cs"
  shows "\<exists>e1 e2. maildir_search_start_str_chset conv T string chset e = Some (0, e1) \<and>
    search_all (maildir_search_step_unicode_lc T) t e1 = Some e2 \<and>
    (maildir_search_found e2 \<longleftrightarrow> sublist (squeezed T (takeWhile (\<lambda>c. c \<noteq> 0) cs)) (normal_text T (se_spc e) t))"
proof -
  let ?s = "squeezed T (takeWhile (\<lambda>c. c \<noteq> 0) cs)"
  have nz: "0 \<notin> set ?s" by (rule squeezed_no_zero[OF assms(1) zero_takeWhile])
  obtain e1 where e1: "maildir_search_start_str_chset conv T string chset e = Some (0, e1)" "seen_text ?s [] e1" "se_spc e1 = se_spc e"
    using start_squeezed[OF assms(1), of conv, OF assms(2)] by blast
  have "wf_case T" using assms(1) by (simp add: case_letters_def)
  from step_lc_seen_text[OF nz this e1(2), of t] obtain e2
    where "search_all (maildir_search_step_unicode_lc T) t e1 = Some e2" "seen_text ?s (normal_text T (se_spc e) t) e2"
    by (auto simp: e1(3))
  then show ?thesis using e1(1) seen_text_found[OF nz] by blast
qed

theorem search_normalised_witness:
  "\<exists>e1 e2. maildir_search_start_str_chset (\<lambda>_ s. Some (map ucast s)) case_tiny (str '' B  a '') [] maildir_search_init = Some (0, e1) \<and>
    search_all (maildir_search_step_unicode_lc case_tiny) [97, 98, 9, 32, 65, 66] e1 = Some e2 \<and> maildir_search_found e2"
proof -
  let ?conv = "\<lambda>_ s. Some (map ucast s)"
  have s: "squeezed case_tiny (takeWhile (\<lambda>c. c \<noteq> 0) (map ucast (takeWhile (\<lambda>c. c \<noteq> 0) (str '' B  a '')))) = [98, 32, 97]"
    by code_simp
  have t: "sublist [98, 32, 97] (normal_text case_tiny (se_spc maildir_search_init) [97, 98, 9, 32, 65, 66])"
    by code_simp
  show ?thesis
    using search_normalised[of case_tiny ?conv "[]" "str '' B  a ''" _ maildir_search_init "[97, 98, 9, 32, 65, 66]", OF case_letters_tiny refl]
    by (simp only: s t simp_thms)
qed

text \<open>
  A tab or line ending between two words of the string is kept, while that of the text is made a blank:
  such a string is never found, whatever the text.
\<close>

lemma tab_never_found:
  assumes "case_letters T" "c \<in> set s" "SPC c" "c \<noteq> 32"
  shows "\<not> sublist s (normal_text T b t)"
proof
  assume "sublist s (normal_text T b t)"
  then obtain x where "lower T (blank x) = c"
    using assms(2) set_mono_sublist by (fastforce simp: normal_text_def)
  then have "blank x = c" using lower_letters(4)[OF assms(1) _ assms(3)] by blast
  then show False using assms(3,4) by (auto simp: blank_def split: if_splits)
qed

lemma tab_is_kept: "squeezed case_tiny [65, 9, 66] = [97, 9, 98]"
  by code_simp

end
