(* ===== verification/Dates.thy ===== *)
theory Dates
  imports Prelude "HOL-Library.Signed_Division"
begin

text \<open>
  Dates of mail headers: rfc822/rfc822_parsedt.c, which reads them, and rfc822/rfc822_mkdate.c, which
  writes them.  The lemmas show that a date that is read is that of a valid day of the calendar, and
  that a date that was written is read back as the same time.

  A pointer into a string is the rest of the string.  Times are seconds since 1970; no value that
  occurs reaches the bounds of \<open>time_t\<close>.
\<close>

section \<open>Reading a date\<close>

definition chr0 :: "bytes \<Rightarrow> u8" where
  "chr0 s = (case s of [] \<Rightarrow> 0 | c # _ \<Rightarrow> c)"

definition my_isalpha :: "u8 \<Rightarrow> bool" where
  "my_isalpha c \<longleftrightarrow> ch CHR ''a'' \<le> c \<and> c \<le> ch CHR ''z'' \<or> ch CHR ''A'' \<le> c \<and> c \<le> ch CHR ''Z''"

definition my_isdigit :: "u8 \<Rightarrow> bool" where
  "my_isdigit c \<longleftrightarrow> ch CHR ''0'' \<le> c \<and> c \<le> ch CHR ''9''"

definition my_isalnum :: "u8 \<Rightarrow> bool" where
  "my_isalnum c \<longleftrightarrow> my_isalpha c \<or> my_isdigit c"

definition my_isspace :: "u8 \<Rightarrow> bool" where
  "my_isspace c \<longleftrightarrow> c = 32 \<or> c = 9 \<or> c = 13 \<or> c = 10"

fun parsedig_loop :: "u32 \<Rightarrow> bytes \<Rightarrow> u32 \<times> bytes" where
  "parsedig_loop i [] = (i, [])"
| "parsedig_loop i (c # s) = (if my_isdigit c then parsedig_loop (i * 10 + ucast c - 48) s else (i, c # s))"

definition parsedig :: "bytes \<Rightarrow> u32 \<times> bytes" where
  "parsedig s = parsedig_loop 0 s"

definition weekdays :: "bytes list" where
  "weekdays = map str [''Sun'', ''Mon'', ''Tue'', ''Wed'', ''Thu'', ''Fri'', ''Sat'']"

definition mnames :: "bytes list" where
  "mnames = map str [''Jan'', ''Feb'', ''Mar'', ''Apr'', ''May'', ''Jun'', ''Jul'', ''Aug'', ''Sep'', ''Oct'', ''Nov'', ''Dec'']"

definition leap :: "nat \<Rightarrow> bool" where
  "leap y \<longleftrightarrow> y mod 400 = 0 \<or> y mod 4 = 0 \<and> y mod 100 \<noteq> 0"

definition mlength :: "nat list" where
  "mlength = [31, 28, 31, 30, 31, 30, 31, 31, 30, 31, 30, 31]"

definition mdays :: "nat \<Rightarrow> nat \<Rightarrow> nat" where
  "mdays m y = (if m \<noteq> 2 then mlength ! (m - 1) else if leap y then 29 else 28)"

definition zonenames :: "bytes list" where
  "zonenames = map str [''UT'', ''GMT'', ''EST'', ''EDT'', ''CST'', ''CDT'', ''MST'', ''MDT'', ''PST'', ''PDT'', ''Z''] @
     map (\<lambda>c. [c]) (str ''ABCDEFGHIKLMNOPQRSTUVWXY'')"

definition ZH :: "int \<Rightarrow> int" where
  "ZH n = n * 60 * 60"

definition zoneoffset :: "int list" where
  "zoneoffset = [0, 0, ZH (- 5), ZH (- 4), ZH (- 6), ZH (- 5), ZH (- 7), ZH (- 6), ZH (- 8), ZH (- 7), 0,
     ZH (- 1), ZH (- 2), ZH (- 3), ZH (- 4), ZH (- 5), ZH (- 6), ZH (- 7), ZH (- 8), ZH (- 9), ZH (- 10), ZH (- 11), ZH (- 12),
     ZH 1, ZH 2, ZH 3, ZH 4, ZH 5, ZH 6, ZH 7, ZH 8, ZH 9, ZH 10, ZH 11, ZH 12]"

definition lc :: "u8 \<Rightarrow> u8" where
  "lc x = (if ch CHR ''A'' \<le> x \<and> x \<le> ch CHR ''Z'' then x + (ch CHR ''a'' - ch CHR ''A'') else x)"

text \<open>The loop over the characters of a key, and the loop over the keys from number \<open>m\<close> on.\<close>

fun key_match :: "bytes \<Rightarrow> bytes \<Rightarrow> bool" where
  "key_match [] s = True"
| "key_match (k # ks) s = (if lc k \<noteq> lc (chr0 s) then False else key_match ks (tl s))"

fun parsekey_loop :: "nat \<Rightarrow> bytes list \<Rightarrow> bytes \<Rightarrow> nat \<times> bytes" where
  "parsekey_loop m [] s = (0, s)"
| "parsekey_loop m (key # ary) s =
     (if key_match key s then (m + 1, drop (length key) s) else parsekey_loop (m + 1) ary s)"

definition parsekey :: "bytes list \<Rightarrow> bytes \<Rightarrow> nat \<times> bytes" where
  "parsekey ary s = parsekey_loop 0 ary s"

definition parsetime :: "bytes \<Rightarrow> int \<times> bytes" where
  "parsetime t =
     (if \<not> my_isdigit (chr0 t) then (- 1, t)
      else let (h, t) = parsedig t in
        if 23 < h then (- 1, t)
        else if chr0 t \<noteq> ch CHR '':'' then (- 1, t)
        else let t = tl t in
          if \<not> my_isdigit (chr0 t) then (- 1, t)
          else let (m, t) = parsedig t in
            if chr0 t = ch CHR '':'' then
              let t = tl t in
              if \<not> my_isdigit (chr0 t) then (- 1, t)
              else let (s, t) = parsedig t in
                if 59 < m \<or> 59 < s then (- 1, t) else (sint (h * 60 * 60 + m * 60 + s), t)
            else if 59 < m \<or> 59 < (0::u32) then (- 1, t) else (sint (h * 60 * 60 + m * 60 + 0), t))"

lemma parsedig_loop_length: "length (snd (parsedig_loop i s)) \<le> length s"
  by (induction i s rule: parsedig_loop.induct) auto

lemma parsedig_shorter: "my_isdigit (chr0 s) \<Longrightarrow> length (snd (parsedig s)) < length s"
  using parsedig_loop_length by (cases s) (auto simp: parsedig_def chr0_def my_isdigit_def ch_def less_Suc_eq_le)

lemma parsekey_loop_shorter:
  "parsekey_loop m ary s = (n, s') \<Longrightarrow> n \<noteq> 0 \<Longrightarrow> s \<noteq> [] \<Longrightarrow> [] \<notin> set ary \<Longrightarrow> length s' < length s"
  by (induction m ary s rule: parsekey_loop.induct) (auto split: if_splits)

lemma mnames_nonempty: "[] \<notin> set mnames"
  by code_simp

lemma chr0_alpha: "my_isalpha (chr0 s) \<Longrightarrow> s \<noteq> [] \<and> length (dropWhile my_isalpha s) < length s"
  by (cases s) (auto simp: chr0_def my_isalpha_def ch_def less_Suc_eq_le length_dropWhile_le)

text \<open>The loop for the day and the month, in any order; \<open>None\<close> is the return of 0.\<close>

function day_month_loop :: "bytes \<Rightarrow> u32 \<Rightarrow> nat \<Rightarrow> (bytes \<times> u32 \<times> nat) option" where
  "day_month_loop s day mon =
     (if day = 0 \<or> mon = 0 then
        if chr0 s = 0 then None
        else if my_isalpha (chr0 s) then
          if mon \<noteq> 0 then None
          else case parsekey mnames s of (mon, s') \<Rightarrow>
            if mon = 0 then day_month_loop (dropWhile my_isalpha s) day mon else day_month_loop s' day mon
        else if my_isdigit (chr0 s) then
          if day \<noteq> 0 then None
          else case parsedig s of (day, s') \<Rightarrow> if day = 0 then None else day_month_loop s' day mon
        else day_month_loop (tl s) day mon
      else Some (s, day, mon))"
  by pat_completeness auto
termination
  apply (relation "measure (\<lambda>(s, day, mon). length s)")
  apply simp
  subgoal using chr0_alpha by (auto simp: parsekey_def)
  subgoal for s day mon x y using parsekey_loop_shorter[of 0 mnames s x y] chr0_alpha mnames_nonempty by (auto simp: parsekey_def)
  subgoal for s day mon x y using parsedig_shorter[of s] by (cases "parsedig s") auto
  subgoal by (auto simp: chr0_def split: list.splits)
  done

text \<open>The offset of the zone at the end.\<close>

definition parse_zone :: "bytes \<Rightarrow> int" where
  "parse_zone s =
     (let s = dropWhile (\<lambda>c. \<not> (my_isalnum c \<or> c = ch CHR ''+'' \<or> c = ch CHR ''-'')) s in
      if my_isalpha (chr0 s) then
        (let n = fst (parsekey zonenames s) in if 0 < n then zoneoffset ! (n - 1) else 0)
      else
        (let (sign, s) = (if chr0 s = ch CHR ''-'' then (- 1, tl s) else if chr0 s = ch CHR ''+'' then (1, tl s) else (1, s)) in
         if my_isdigit (chr0 s) then
           let n = fst (parsedig s); n = (if 2359 < n \<or> 59 < n mod 100 then 0 else n)
           in sint (sign * (n mod 100 * 60 + n div 100 * 60 * 60))
         else 0))"

text \<open>The seconds of the years from \<open>y\<close> on; four years at once are skipped where that is possible.\<close>

function year_loop :: "nat \<Rightarrow> nat \<Rightarrow> int \<Rightarrow> int" where
  "year_loop y year t =
     (if y < year then
        if leap y then
          if 4 \<le> year - y then year_loop (y + 3 + 1) year (t + (365 * 3 + 366) * 24 * 60 * 60)
          else year_loop (y + 1) year (t + 24 * 60 * 60 + 365 * 24 * 60 * 60)
        else year_loop (y + 1) year (t + 365 * 24 * 60 * 60)
      else t)"
  by pat_completeness auto
termination by (relation "measure (\<lambda>(y, year, t). year - y)") auto

declare year_loop.simps [simp del] day_month_loop.simps [simp del]

definition rfc822_parsedt :: "bytes \<Rightarrow> int" where
  "rfc822_parsedt rfcdt =
     (case day_month_loop (takeWhile (\<lambda>c. c \<noteq> 0) rfcdt) 0 0 of
        None \<Rightarrow> 0
      | Some (s, day, mon) \<Rightarrow>
          let s = dropWhile my_isspace s in
          if \<not> my_isdigit (chr0 s) then 0
          else let (year, s) = parsedig s;
                   year = (if year < 70 then year + 2000 else year);
                   year = (if year < 100 then year + 1900 else year);
                   s = dropWhile my_isspace s
               in if day = 0 \<or> mon = 0 \<or> 12 < mon \<or> mdays mon (unat year) < unat day then 0
                  else let (secs, s) = parsetime s in
                    if secs < 0 then 0
                    else let offset = parse_zone s in
                      if year < 1970 then 0
                      else if 9999 < year then 0
                      else let t = year_loop 1970 (unat year) 0;
                               t = fold (\<lambda>y t. t + int (mdays y (unat year)) * 24 * 60 * 60) [1 ..< mon] t
                           in t + int (unat (day - 1)) * 24 * 60 * 60 + secs - offset)"

section \<open>The C library\<close>

text \<open>
  \<open>gmtime\<close> splits a time after the Gregorian calendar; it returns null if the year does not fit.  \<open>tm_year\<close>
  is counted from 1900.  The zone of \<open>localtime\<close> is an argument: its offset at a time, in seconds.
\<close>

record tm =
  tm_sec :: int
  tm_min :: int
  tm_hour :: int
  tm_mday :: int
  tm_mon :: nat
  tm_year :: int
  tm_wday :: nat
  tm_gmtoff :: int

definition year_len :: "int \<Rightarrow> int" where
  "year_len y = (if y mod 400 = 0 \<or> y mod 4 = 0 \<and> y mod 100 \<noteq> 0 then 366 else 365)"

definition month_lens :: "int \<Rightarrow> int list" where
  "month_lens y = [31, year_len y - 337, 31, 30, 31, 30, 31, 31, 30, 31, 30, 31]"

text \<open>The year with the day in it, from day \<open>d\<close> of the year \<open>y\<close>, and the month with its day.\<close>

function civil_year :: "int \<Rightarrow> int \<Rightarrow> int \<times> int" where
  "civil_year y d =
     (if d < 0 then civil_year (y - 1) (d + year_len (y - 1))
      else if year_len y \<le> d then civil_year (y + 1) (d - year_len y)
      else (y, d))"
  by pat_completeness auto
termination
  by (relation "measure (\<lambda>(y, d). if d < 0 then nat (400 - d) else nat d)") (auto simp: year_len_def)

declare civil_year.simps [simp del]

fun civil_month :: "nat \<Rightarrow> int list \<Rightarrow> int \<Rightarrow> nat \<times> int" where
  "civil_month m [] d = (m, d)"
| "civil_month m (l # ls) d = (if d < l then (m, d) else civil_month (m + 1) ls (d - l))"

definition gmtime :: "int \<Rightarrow> tm option" where
  "gmtime t =
     (let days = t div 86400; secs = t mod 86400; (year, yday) = civil_year 1970 days; (mon, mday) = civil_month 0 (month_lens year) yday in
      if - (2 ^ 31) \<le> year - 1900 \<and> year - 1900 < 2 ^ 31 then
        Some \<lparr>tm_sec = secs mod 60, tm_min = secs div 60 mod 60, tm_hour = secs div 3600, tm_mday = mday + 1, tm_mon = mon,
          tm_year = year - 1900, tm_wday = nat ((days + 4) mod 7), tm_gmtoff = 0\<rparr>
      else None)"

definition localtime :: "(int \<Rightarrow> int) \<Rightarrow> int \<Rightarrow> tm option" where
  "localtime tz t = map_option (\<lambda>p. p\<lparr>tm_gmtoff := tz t\<rparr>) (gmtime (t + tz t))"

text \<open>The conversions \<open>%0<w>d\<close> and \<open>%+0<w>d\<close> of \<open>sprintf\<close>.\<close>

fun decimal :: "nat \<Rightarrow> bytes" where
  "decimal n = (if n < 10 then [48 + of_nat n] else decimal (n div 10) @ [48 + of_nat (n mod 10)])"

declare decimal.simps [simp del]

definition zero_padded :: "nat \<Rightarrow> nat \<Rightarrow> bytes" where
  "zero_padded w n = replicate (w - length (decimal n)) 48 @ decimal n"

definition fmt_0d :: "nat \<Rightarrow> int \<Rightarrow> bytes" where
  "fmt_0d w i = (if i < 0 then ch CHR ''-'' # zero_padded (w - 1) (nat (- i)) else zero_padded w (nat i))"

definition fmt_plus_0d :: "nat \<Rightarrow> int \<Rightarrow> bytes" where
  "fmt_plus_0d w i = (if i < 0 then ch CHR ''-'' # zero_padded (w - 1) (nat (- i)) else ch CHR ''+'' # zero_padded (w - 1) (nat i))"

section \<open>Writing a date\<close>

definition rfc822_mkdt :: "int \<Rightarrow> bytes" where
  "rfc822_mkdt t =
     (case gmtime t of
        None \<Rightarrow> []
      | Some p \<Rightarrow> weekdays ! tm_wday p @ str '', '' @ fmt_0d 2 (tm_mday p) @ str '' '' @ mnames ! tm_mon p @ str '' '' @
          fmt_0d 4 (tm_year p + 1900) @ str '' '' @ fmt_0d 2 (tm_hour p) @ str '':'' @ fmt_0d 2 (tm_min p) @ str '':'' @
          fmt_0d 2 (tm_sec p) @ str '' GMT'')"

definition months :: "bytes list" where
  "months = map str [''Jan'', ''Feb'', ''Mar'', ''Apr'', ''May'', ''Jun'', ''Jul'', ''Aug'', ''Sep'', ''Oct'', ''Nov'', ''Dec'']"

definition wdays :: "bytes list" where
  "wdays = map str [''Sun'', ''Mon'', ''Tue'', ''Wed'', ''Thu'', ''Fri'', ''Sat'']"

text \<open>As configured where \<open>struct tm\<close> has \<open>tm_gmtoff\<close>; \<open>None\<close> is the use of a null pointer.\<close>

definition rfc822_mkdate_buf :: "(int \<Rightarrow> int) \<Rightarrow> int \<Rightarrow> bytes option" where
  "rfc822_mkdate_buf tz t =
     (case localtime tz t of
        None \<Rightarrow> None
      | Some p \<Rightarrow>
          let offset = tm_gmtoff p in
          case (if offset smod 60 \<noteq> 0 then (gmtime t, 0) else (Some p, offset)) of
            (None, _) \<Rightarrow> None
          | (Some p, offset) \<Rightarrow>
              let offset = offset sdiv 60; offset = offset smod 60 + offset sdiv 60 * 100 in
              Some (wdays ! tm_wday p @ str '', '' @ fmt_0d 2 (tm_mday p) @ str '' '' @ months ! tm_mon p @ str '' '' @
                fmt_0d 4 (tm_year p + 1900) @ str '' '' @ fmt_0d 2 (tm_hour p) @ str '':'' @ fmt_0d 2 (tm_min p) @ str '':'' @
                fmt_0d 2 (tm_sec p) @ str '' '' @ fmt_plus_0d 5 offset))"

definition rfc822_mkdate :: "(int \<Rightarrow> int) \<Rightarrow> int \<Rightarrow> bytes option" where
  "rfc822_mkdate tz t = rfc822_mkdate_buf tz t"

section \<open>The calendar\<close>

text \<open>Days before a year, counted from 1970, and days before a month of a year.\<close>

definition days_to_year :: "nat \<Rightarrow> int" where
  "days_to_year y = (\<Sum>k\<leftarrow>[1970 ..< y]. year_len (int k))"

definition days_to_month :: "nat \<Rightarrow> nat \<Rightarrow> int" where
  "days_to_month m y = (\<Sum>k\<leftarrow>[1 ..< m]. int (mdays k y))"

definition seconds_of_day :: "nat \<Rightarrow> nat \<Rightarrow> nat \<Rightarrow> int" where
  "seconds_of_day y m d = (days_to_year y + days_to_month m y + int d - 1) * 86400"

lemma year_len_leap: "year_len (int y) = (if leap y then 366 else 365)"
proof -
  have "int y mod 400 = int (y mod 400)" "int y mod 4 = int (y mod 4)" "int y mod 100 = int (y mod 100)"
    by (simp_all add: of_nat_mod)
  then show ?thesis by (simp add: year_len_def leap_def)
qed

lemma leap_next: "leap y \<Longrightarrow> \<not> leap (y + 1) \<and> \<not> leap (y + 2) \<and> \<not> leap (y + 3)"
  unfolding leap_def by presburger

lemma year_loop_sum:
  "year_loop y year t = t + (\<Sum>k\<leftarrow>[y ..< year]. year_len (int k)) * 86400"
proof (induction y year t rule: year_loop.induct)
  case (1 y year t)
  have one: "[y ..< year] = y # [y + 1 ..< year]" if "y < year" using that by (simp add: upt_conv_Cons)
  have four: "[y ..< year] = y # (y + 1) # (y + 2) # (y + 3) # [y + 4 ..< year]" if "4 \<le> year - y"
    using that by (simp add: upt_conv_Cons numeral_eq_Suc)
  show ?case
  proof (cases "y < year")
    case True
    show ?thesis
    proof (cases "leap y \<and> 4 \<le> year - y")
      case True
      then show ?thesis using \<open>y < year\<close> 1(1) leap_next[of y]
        by (subst year_loop.simps) (simp add: four year_len_leap algebra_simps)
    next
      case False
      then show ?thesis using \<open>y < year\<close> 1(2,3)
        by (subst year_loop.simps) (auto simp: one year_len_leap algebra_simps)
    qed
  qed (simp add: year_loop.simps)
qed

lemma month_fold_sum:
  "fold (\<lambda>y t. t + int (mdays y year) * 86400) ms t = t + (\<Sum>k\<leftarrow>ms. int (mdays k year)) * 86400"
  by (induction ms arbitrary: t) (auto simp: algebra_simps)

lemma civil_year_sum:
  "0 \<le> d \<Longrightarrow> \<exists>y' d'. civil_year (int y) d = (int y', d') \<and> y \<le> y' \<and> 0 \<le> d' \<and> d' < year_len (int y') \<and>
    d = (\<Sum>k\<leftarrow>[y ..< y']. year_len (int k)) + d'"
proof (induction "nat d" arbitrary: y d rule: less_induct)
  case less
  show ?case
  proof (cases "d < year_len (int y)")
    case True
    then show ?thesis using less.prems by (subst civil_year.simps) (auto intro!: exI[of _ y])
  next
    case False
    have pos: "0 < year_len (int y)" by (simp add: year_len_def)
    then have "nat (d - year_len (int y)) < nat d" "0 \<le> d - year_len (int y)" using False by simp_all
    from less.hyps[OF this, of "y + 1"] obtain y' d'
      where y': "civil_year (int (y + 1)) (d - year_len (int y)) = (int y', d')" "y + 1 \<le> y'" "0 \<le> d'" "d' < year_len (int y')"
        "d - year_len (int y) = (\<Sum>k\<leftarrow>[y + 1 ..< y']. year_len (int k)) + d'" by blast
    have "[y ..< y'] = y # [y + 1 ..< y']" using y'(2) by (simp add: upt_conv_Cons)
    then have "d = (\<Sum>k\<leftarrow>[y ..< y']. year_len (int k)) + d'" using y'(5) by simp
    moreover have "civil_year (int y) d = (int y', d')"
      using y'(1) False less.prems by (subst civil_year.simps) (simp add: add.commute)
    ultimately show ?thesis using y'(2,3,4) by auto
  qed
qed

lemma civil_month_sum:
  "0 \<le> d \<Longrightarrow> d < sum_list ls \<Longrightarrow> \<exists>i d'. civil_month m ls d = (m + i, d') \<and> i < length ls \<and> 0 \<le> d' \<and> d' < ls ! i \<and>
    d = sum_list (take i ls) + d'"
proof (induction m ls d rule: civil_month.induct)
  case (2 m l ls d)
  show ?case
  proof (cases "d < l")
    case False
    with 2 obtain i d' where "civil_month (m + 1) ls (d - l) = (m + 1 + i, d')" "i < length ls" "0 \<le> d'" "d' < ls ! i"
        "d - l = sum_list (take i ls) + d'" by auto
    with False show ?thesis by (intro exI[of _ "Suc i"] exI[of _ d']) auto
  qed (use 2 in \<open>auto intro!: exI[of _ 0]\<close>)
qed simp

lemma month_lens_mdays: "i < 12 \<Longrightarrow> month_lens (int y) ! i = int (mdays (i + 1) y)"
proof -
  have "list_all (\<lambda>i. i \<noteq> 1 \<longrightarrow> month_lens (int y) ! i = int (mlength ! i)) [0, 1, 2, 3, 4, 5, 6, 7, 8, 9, 10, 11]"
    by (simp add: month_lens_def mlength_def)
  then have "\<forall>i<12. i \<noteq> 1 \<longrightarrow> month_lens (int y) ! i = int (mlength ! i)"
    by (simp add: numeral_eq_Suc All_less_Suc)
  then show "i < 12 \<Longrightarrow> ?thesis" by (cases "i = 1") (auto simp: mdays_def month_lens_def year_len_leap)
qed

lemma days_to_month_take:
  assumes "i < 12"
  shows "days_to_month (i + 1) y = sum_list (take i (month_lens (int y)))"
proof -
  have "take i (month_lens (int y)) = map (\<lambda>k. month_lens (int y) ! k) [0 ..< i]"
    using assms by (intro nth_equalityI) (auto simp: month_lens_def)
  also have "\<dots> = map (\<lambda>k. int (mdays (k + 1) y)) [0 ..< i]"
    using assms month_lens_mdays by auto
  also have "\<dots> = map (\<lambda>k. int (mdays k y)) [1 ..< i + 1]"
    by (simp add: map_Suc_upt[symmetric] o_def del: upt_Suc map_Suc_upt)
  finally show ?thesis by (simp add: days_to_month_def)
qed

text \<open>The number of leap years up to a year.\<close>

definition leaps :: "int \<Rightarrow> int" where
  "leaps y = y div 4 - y div 100 + y div 400"

lemma div_step:
  assumes "0 < (k::int)"
  shows "y div k = (y - 1) div k + (if y mod k = 0 then 1 else 0)"
proof (cases "y mod k = 0")
  case True
  then have "y - 1 = k * (y div k - 1) + (k - 1)" using mult_div_mod_eq[of k y] by (simp add: right_diff_distrib)
  then have "(y - 1) div k = y div k - 1" by (rule int_div_pos_eq) (use assms in auto)
  with True show ?thesis by simp
next
  case False
  have "0 \<le> y mod k" "y mod k < k" using assms by auto
  moreover have "y - 1 = k * (y div k) + (y mod k - 1)" using mult_div_mod_eq[of k y] by simp
  ultimately have "(y - 1) div k = y div k"
    using False int_div_pos_eq[of "y - 1" k "y div k" "y mod k - 1"] by auto
  with False show ?thesis by simp
qed

lemma year_len_leaps: "year_len y = 365 + leaps y - leaps (y - 1)"
proof -
  have "y mod 400 = 0 \<Longrightarrow> y mod 100 = 0" "y mod 100 = 0 \<Longrightarrow> y mod 4 = 0"
    using dvd_trans[of 100 400 y] dvd_trans[of 4 100 y] unfolding mod_eq_0_iff_dvd by simp_all
  moreover have "leaps y - leaps (y - 1) = (if y mod 4 = 0 then 1 else 0) - (if y mod 100 = 0 then 1 else 0) + (if y mod 400 = 0 then 1 else 0)"
  proof -
    have sum: "a = a' + p \<Longrightarrow> b = b' + q \<Longrightarrow> c = c' + r \<Longrightarrow> a - b + c - (a' - b' + c') = p - q + r" for a a' b b' c c' p q r :: int
      by linarith
    show ?thesis unfolding leaps_def by (rule sum; rule div_step; simp)
  qed
  ultimately show ?thesis unfolding year_len_def by (auto split: if_splits)
qed

lemma days_to_year_leaps: "1970 \<le> y \<Longrightarrow> days_to_year y = 365 * (int y - 1970) + leaps (int y - 1) - leaps 1969"
proof (induction y rule: nat_induct_at_least)
  case (Suc n)
  have "days_to_year (Suc n) = days_to_year n + year_len (int n)" using Suc.hyps by (simp add: days_to_year_def)
  then show ?case using Suc.IH year_len_leaps[of "int n"] by (simp add: algebra_simps)
qed (simp add: days_to_year_def leaps_def)

lemma days_10000: "days_to_year 10000 = 2932897"
  using days_to_year_leaps[of 10000] by (simp add: leaps_def del: upt_rec_numeral)

lemma days_to_year_mono: "y \<le> y' \<Longrightarrow> days_to_year y \<le> days_to_year y'"
proof (induction y' rule: nat_induct_at_least[of y])
  case (Suc n)
  have "days_to_year n \<le> days_to_year (Suc n)" by (simp add: days_to_year_def year_len_def)
  with Suc show ?case by simp
qed simp_all

definition tm_is :: "tm \<Rightarrow> nat \<Rightarrow> nat \<Rightarrow> nat \<Rightarrow> nat \<Rightarrow> nat \<Rightarrow> nat \<Rightarrow> bool" where
  "tm_is p y m d h mi s \<longleftrightarrow> tm_year p + 1900 = int y \<and> tm_mon p + 1 = m \<and> tm_mday p = int d \<and> tm_hour p = int h \<and>
     tm_min p = int mi \<and> tm_sec p = int s \<and> tm_wday p < 7 \<and> 1970 \<le> y \<and> y \<le> 9999 \<and> 1 \<le> m \<and> m \<le> 12 \<and>
     1 \<le> d \<and> d \<le> mdays m y \<and> h < 24 \<and> mi < 60 \<and> s < 60"

lemma clock:
  assumes "0 \<le> (secs::int)" "secs < 86400"
  shows "\<exists>h mi s. secs div 3600 = int h \<and> secs div 60 mod 60 = int mi \<and> secs mod 60 = int s \<and> h < 24 \<and> mi < 60 \<and> s < 60 \<and>
    secs = int (h * 3600 + mi * 60 + s)"
proof -
  obtain n where n: "secs = int n" using assms(1) nonneg_int_cases by blast
  have "n div 3600 = n div 60 div 60" by (simp add: div_mult2_eq[symmetric])
  then have "n = n div 3600 * 3600 + n div 60 mod 60 * 60 + n mod 60"
    using mult_div_mod_eq[of 60 n] mult_div_mod_eq[of 60 "n div 60"] by linarith
  moreover have "n div 3600 < 24" using assms(2) n by auto
  ultimately show ?thesis
    by (intro exI[of _ "n div 3600"] exI[of _ "n div 60 mod 60"] exI[of _ "n mod 60"])
      (simp add: n zdiv_int zmod_int flip: of_nat_mult of_nat_add)
qed

lemma gmtime_is:
  assumes "0 \<le> t" "t < 253402300800"
  shows "\<exists>p y m d h mi s. gmtime t = Some p \<and> tm_is p y m d h mi s \<and> t = seconds_of_day y m d + int (h * 3600 + mi * 60 + s)"
proof -
  define days where "days = t div 86400"
  define secs where "secs = t mod 86400"
  have days: "0 \<le> days" "days < 2932897" and secs: "0 \<le> secs" "secs < 86400" and t: "t = days * 86400 + secs"
    using assms by (simp_all add: days_def secs_def)
  from civil_year_sum[OF days(1), of 1970] obtain y d' where y: "civil_year 1970 days = (int y, d')" "1970 \<le> y" "0 \<le> d'"
      "d' < year_len (int y)" "days = days_to_year y + d'"
    by (auto simp: days_to_year_def)
  have "y \<le> 9999"
  proof (rule ccontr)
    assume "\<not> y \<le> 9999"
    then have "days_to_year 10000 \<le> days_to_year y" by (intro days_to_year_mono) simp
    then show False using days(2) y(3,5) by (simp add: days_10000)
  qed
  have "d' < sum_list (month_lens (int y))" using y(4) by (simp add: month_lens_def)
  moreover have len: "length (month_lens (int y)) = 12" by (simp add: month_lens_def)
  ultimately obtain i d where m: "civil_month 0 (month_lens (int y)) d' = (i, d)" "i < 12" "0 \<le> d"
      "d < month_lens (int y) ! i" "d' = sum_list (take i (month_lens (int y))) + d"
    using civil_month_sum[OF y(3), of "month_lens (int y)" 0] by auto
  from clock[OF secs] obtain h mi s where c: "secs div 3600 = int h" "secs div 60 mod 60 = int mi" "secs mod 60 = int s"
      "h < 24" "mi < 60" "s < 60" "secs = int (h * 3600 + mi * 60 + s)" by blast
  define w where "w = nat ((days + 4) mod 7)"
  have w: "w < 7" by (simp add: w_def)
  let ?p = "\<lparr>tm_sec = int s, tm_min = int mi, tm_hour = int h, tm_mday = d + 1, tm_mon = i,
    tm_year = int y - 1900, tm_wday = w, tm_gmtoff = 0\<rparr>"
  have "gmtime t = Some ?p"
    using y(1,2) \<open>y \<le> 9999\<close> m(1) by (simp add: gmtime_def c(1,2,3) flip: days_def secs_def w_def)
  moreover have "tm_is ?p y (i + 1) (nat (d + 1)) h mi s"
  proof -
    have "1 \<le> nat (d + 1)" "nat (d + 1) \<le> mdays (i + 1) y"
      using m(3,4) month_lens_mdays[OF m(2), of y] by linarith+
    then show ?thesis using y(2) \<open>y \<le> 9999\<close> m(2,3) w c(4,5,6) by (simp add: tm_is_def)
  qed
  moreover have "t = seconds_of_day y (i + 1) (nat (d + 1)) + int (h * 3600 + mi * 60 + s)"
    using t c(7) y(5) m(3,5) days_to_month_take[OF m(2), of y] by (simp add: seconds_of_day_def)
  ultimately show ?thesis by blast
qed

section \<open>Reading numbers and names that were written\<close>

lemma parsedig_loop_append:
  "list_all my_isdigit p \<Longrightarrow> parsedig_loop i (p @ s) = parsedig_loop (fst (parsedig_loop i p)) s"
  by (induction i p rule: parsedig_loop.induct) auto

lemma parsedig_loop_stop: "\<not> my_isdigit (chr0 s) \<Longrightarrow> parsedig_loop i s = (i, s)"
  by (cases s) (auto simp: chr0_def)

lemma digit_char:
  assumes "n < 10"
  shows "my_isdigit (48 + of_nat n)" "ucast (48 + of_nat n :: u8) - 48 = (of_nat n :: u32)"
proof -
  have "\<forall>n<10. my_isdigit (48 + of_nat n) \<and> ucast (48 + of_nat n :: u8) - 48 = (of_nat n :: u32)" by code_simp
  with assms show "my_isdigit (48 + of_nat n)" "ucast (48 + of_nat n :: u8) - 48 = (of_nat n :: u32)" by auto
qed

lemma decimal_digits: "list_all my_isdigit (decimal n) \<and> decimal n \<noteq> []"
  by (induction n rule: decimal.induct) (subst (1 2) decimal.simps, auto simp: digit_char)

lemma parsedig_decimal: "fst (parsedig_loop 0 (decimal n)) = of_nat n"
proof (induction n rule: decimal.induct)
  case (1 n)
  have one: "fst (parsedig_loop i [48 + of_nat k]) = i * 10 + of_nat k" if "k < 10" for i k
    using digit_char[OF that] by (simp add: algebra_simps)
  show ?case
  proof (cases "n < 10")
    case True
    then show ?thesis using one[of n 0] by (subst decimal.simps) simp
  next
    case False
    then have "fst (parsedig_loop 0 (decimal (n div 10))) = of_nat (n div 10)" using 1 by simp
    then have "fst (parsedig_loop 0 (decimal n)) = of_nat (n div 10) * 10 + of_nat (n mod 10)"
      using False one[of "n mod 10"] decimal_digits by (subst decimal.simps) (simp add: parsedig_loop_append)
    also have "\<dots> = of_nat (n div 10 * 10 + n mod 10)" by (simp only: of_nat_add of_nat_mult of_nat_numeral)
    finally show ?thesis by simp
  qed
qed

lemma zero_padded_digits: "list_all my_isdigit (zero_padded w n)" "zero_padded w n \<noteq> []"
  using decimal_digits by (auto simp: zero_padded_def list_all_iff my_isdigit_def ch_def)

lemma parsedig_zero_padded:
  assumes "\<not> my_isdigit (chr0 s)"
  shows "parsedig (zero_padded w n @ s) = (of_nat n, s)"
proof -
  have zeros: "list_all my_isdigit (replicate k 48) \<and> fst (parsedig_loop 0 (replicate k 48)) = 0" for k
    by (induction k) (auto simp: my_isdigit_def ch_def)
  have "fst (parsedig_loop 0 (zero_padded w n)) = of_nat n"
    using zeros parsedig_decimal by (simp add: zero_padded_def parsedig_loop_append)
  then show ?thesis
    using zero_padded_digits assms by (simp add: parsedig_def parsedig_loop_append parsedig_loop_stop)
qed

text \<open>The names as bytes, for evaluation.\<close>

lemma mnames_bytes [code]:
  "mnames = [[74, 97, 110], [70, 101, 98], [77, 97, 114], [65, 112, 114], [77, 97, 121], [74, 117, 110], [74, 117, 108],
     [65, 117, 103], [83, 101, 112], [79, 99, 116], [78, 111, 118], [68, 101, 99]]"
  by (simp add: mnames_def str_def ch_def)

lemma weekdays_bytes [code]:
  "weekdays = [[83, 117, 110], [77, 111, 110], [84, 117, 101], [87, 101, 100], [84, 104, 117], [70, 114, 105], [83, 97, 116]]"
  by (simp add: weekdays_def str_def ch_def)

lemma lc_bytes [code]: "lc x = (if 65 \<le> x \<and> x \<le> 90 then x + 32 else x)"
  by (simp add: lc_def ch_def)

lemma my_isalpha_bytes [code]: "my_isalpha c \<longleftrightarrow> 97 \<le> c \<and> c \<le> 122 \<or> 65 \<le> c \<and> c \<le> 90"
  by (simp add: my_isalpha_def ch_def)

lemma key_match_append: "length k \<le> length p \<Longrightarrow> key_match k (p @ s) = key_match k p"
proof (induction k arbitrary: p)
  case (Cons c k)
  then show ?case by (cases p) (auto simp: chr0_def)
qed simp

lemma parsekey_loop_append:
  "list_all (\<lambda>k. length k \<le> length p) ary \<Longrightarrow>
   parsekey_loop m ary (p @ s) = (fst (parsekey_loop m ary p), snd (parsekey_loop m ary p) @ s)"
  by (induction m ary p rule: parsekey_loop.induct) (auto simp: key_match_append)

lemma weekday_no_month:
  assumes "i < 7"
  shows "parsekey mnames (weekdays ! i @ s) = (0, weekdays ! i @ s)" "list_all my_isalpha (weekdays ! i)" "weekdays ! i \<noteq> []"
proof -
  have "\<forall>i<7. parsekey_loop 0 mnames (weekdays ! i) = (0, weekdays ! i) \<and> list_all my_isalpha (weekdays ! i) \<and> weekdays ! i \<noteq> [] \<and>
    list_all (\<lambda>k. length k \<le> length (weekdays ! i)) mnames" by code_simp
  with assms show "parsekey mnames (weekdays ! i @ s) = (0, weekdays ! i @ s)" "list_all my_isalpha (weekdays ! i)" "weekdays ! i \<noteq> []"
    using parsekey_loop_append[of "weekdays ! i" mnames 0 s] by (auto simp: parsekey_def)
qed

lemma month_is_month:
  assumes "i < 12"
  shows "parsekey mnames (mnames ! i @ s) = (i + 1, s)" "my_isalpha (chr0 (mnames ! i @ s))" "0 \<notin> set (mnames ! i)"
proof -
  have "\<forall>i<12. parsekey_loop 0 mnames (mnames ! i) = (i + 1, []) \<and> my_isalpha (chr0 (mnames ! i)) \<and> mnames ! i \<noteq> [] \<and> 0 \<notin> set (mnames ! i) \<and>
    list_all (\<lambda>k. length k \<le> length (mnames ! i)) mnames" by code_simp
  with assms have f: "parsekey_loop 0 mnames (mnames ! i) = (i + 1, [])" "my_isalpha (chr0 (mnames ! i))" "mnames ! i \<noteq> []"
    "0 \<notin> set (mnames ! i)" "list_all (\<lambda>k. length k \<le> length (mnames ! i)) mnames" by blast+
  have "parsekey_loop 0 mnames (mnames ! i @ s) = (i + 1, s)"
    unfolding parsekey_loop_append[OF f(5)] f(1) by (simp only: fst_conv snd_conv append_Nil)
  then show "parsekey mnames (mnames ! i @ s) = (i + 1, s)" by (simp only: parsekey_def)
  have "chr0 (mnames ! i @ s) = chr0 (mnames ! i)" using f(3) unfolding chr0_def by (simp split: list.split)
  then show "my_isalpha (chr0 (mnames ! i @ s))" using f(2) by (simp only:)
  show "0 \<notin> set (mnames ! i)" by (rule f(4))
qed

lemma chr0_Cons [simp]: "chr0 (c # s) = c" "chr0 [] = 0"
  by (simp_all add: chr0_def)

lemma digit_not: "my_isdigit c \<Longrightarrow> \<not> my_isalpha c \<and> \<not> my_isspace c \<and> c \<noteq> 0 \<and> c \<noteq> 58 \<and> c \<noteq> 43 \<and> c \<noteq> 45"
  by (auto simp: my_isdigit_def my_isalpha_def my_isspace_def ch_def word_le_nat_alt)

lemma alpha_nonzero: "my_isalpha c \<Longrightarrow> c \<noteq> 0"
  by (auto simp: my_isalpha_def ch_def)

lemma padded_first: "my_isdigit (chr0 (zero_padded w n @ s))"
  using zero_padded_digits[of w n] by (cases "zero_padded w n") auto

lemma padded_no_zero: "0 \<notin> set (zero_padded w n)"
  using zero_padded_digits(1)[of w n] digit_not by (auto simp: list_all_iff)

lemma no_space: "dropWhile my_isspace (zero_padded w n @ s) = zero_padded w n @ s" "my_isspace 32"
  using padded_first[of w n s] digit_not zero_padded_digits(2)[of w n]
  by (cases "zero_padded w n"; auto simp: my_isspace_def)+

lemma unat_small: "n < 2 ^ 32 \<Longrightarrow> unat (of_nat n :: u32) = n"
  by (simp add: unat_of_nat take_bit_nat_eq_self)

lemma sint_small: "n < 2 ^ 31 \<Longrightarrow> sint (of_nat n :: u32) = int n"
  by (simp add: signed_of_nat signed_take_bit_int_eq_self)

lemma str_chars: "str '', '' = [44, 32]" "str '' '' = [32]" "str '':'' = [58]" "str '' GMT'' = [32, 71, 77, 84]"
  by (simp_all add: str_def ch_def)

lemma plain_chars: "\<not> my_isalpha 44" "\<not> my_isdigit 44" "\<not> my_isalpha 32" "\<not> my_isdigit 32" "\<not> my_isdigit 58"
  by (simp_all add: my_isalpha_def my_isdigit_def ch_def)

lemma day_month_written:
  assumes "i < 7" "m < 12" "1 \<le> d" "d \<le> 31"
  shows "day_month_loop (weekdays ! i @ str '', '' @ zero_padded 2 d @ str '' '' @ mnames ! m @ s) 0 0 = Some (s, of_nat d, m + 1)"
proof -
  note w = weekday_no_month[OF assms(1)] and m = month_is_month[OF assms(2)]
  let ?r1 = "32 # mnames ! m @ s" and ?r2 = "44 # 32 # zero_padded 2 d @ 32 # mnames ! m @ s"
  have d: "(of_nat d :: u32) \<noteq> 0" using unat_small[of d] assms(3,4) by (auto simp: unat_eq_zero)
  have alpha: "my_isalpha (chr0 (weekdays ! i @ ?r2))" "chr0 (weekdays ! i @ ?r2) \<noteq> 0"
    using w(2,3) by (cases "weekdays ! i"; auto simp: my_isalpha_def ch_def)+
  have "dropWhile my_isalpha (weekdays ! i @ ?r2) = ?r2"
    using w(2) plain_chars by (simp add: list_all_iff dropWhile_append2)
  then have "day_month_loop (weekdays ! i @ ?r2) 0 0 = day_month_loop ?r2 0 0"
    using alpha w(1) by (subst day_month_loop.simps) simp
  also have "\<dots> = day_month_loop (zero_padded 2 d @ ?r1) 0 0"
    using plain_chars by (subst day_month_loop.simps, simp, subst day_month_loop.simps, simp)
  also have "\<dots> = day_month_loop ?r1 (of_nat d) 0"
    using padded_first[of 2 d ?r1] digit_not parsedig_zero_padded[of ?r1 2 d] plain_chars d
    by (subst day_month_loop.simps) simp
  also have "\<dots> = day_month_loop (mnames ! m @ s) (of_nat d) 0"
    using plain_chars by (subst day_month_loop.simps) simp
  also have "\<dots> = day_month_loop s (of_nat d) (m + 1)"
    using m(1)[of s] m(2)[of s] alpha_nonzero[OF m(2)[of s]] by (subst day_month_loop.simps) simp
  also have "\<dots> = Some (s, of_nat d, m + 1)" using d by (subst day_month_loop.simps) simp
  finally show ?thesis by (simp add: str_chars)
qed

lemma parsetime_written:
  assumes "h < 24" "mi < 60" "sec < 60" "\<not> my_isdigit (chr0 s)"
  shows "parsetime (zero_padded 2 h @ str '':'' @ zero_padded 2 mi @ str '':'' @ zero_padded 2 sec @ s) = (int (h * 3600 + mi * 60 + sec), s)"
proof -
  have le: "\<not> 23 < (of_nat h :: u32)" "\<not> 59 < (of_nat mi :: u32)" "\<not> 59 < (of_nat sec :: u32)"
    using assms(1-3) by (simp_all add: word_less_nat_alt unat_small)
  have "(of_nat h * 60 * 60 + of_nat mi * 60 + of_nat sec :: u32) = of_nat (h * 3600 + mi * 60 + sec)" by simp
  then have "sint (of_nat h * 60 * 60 + of_nat mi * 60 + of_nat sec :: u32) = int (h * 3600 + mi * 60 + sec)"
    using assms(1-3) by (simp only:) (rule sint_small, simp)
  then show ?thesis
    using le assms(4) by (simp add: parsetime_def str_chars padded_first parsedig_zero_padded plain_chars ch_def)
qed

lemma sint_of_int_small: "- (2 ^ 31) \<le> i \<Longrightarrow> i < 2 ^ 31 \<Longrightarrow> sint (of_int i :: u32) = i"
  by (simp add: signed_of_int signed_take_bit_int_eq_self)

lemma of_nat_div_mod:
  assumes "n < 2 ^ 32" "0 < k" "k < 2 ^ 32"
  shows "(of_nat n :: u32) mod of_nat k = of_nat (n mod k)" "(of_nat n :: u32) div of_nat k = of_nat (n div k)"
proof -
  have "n mod k < 2 ^ 32" "n div k < 2 ^ 32"
    using assms by (meson mod_less_eq_dividend div_le_dividend order_le_less_trans)+
  then show "(of_nat n :: u32) mod of_nat k = of_nat (n mod k)" "(of_nat n :: u32) div of_nat k = of_nat (n div k)"
    using assms by (simp_all add: word_unat_eq_iff unat_mod unat_div unat_small)
qed

definition clock_offset :: "bool \<Rightarrow> nat \<Rightarrow> nat \<Rightarrow> int" where
  "clock_offset neg a b = (if neg then - int (a * 3600 + b * 60) else int (a * 3600 + b * 60))"

lemma parse_zone_number:
  assumes "a < 24" "b < 60"
  shows "parse_zone (32 # (if neg then 45 else 43) # zero_padded 4 (a * 100 + b)) = clock_offset neg a b"
proof -
  define n where "n = a * 100 + b"
  have n: "n < 2 ^ 32" "n mod 100 = b" "n div 100 = a" using assms by (simp_all add: n_def)
  have mod: "(of_nat n :: u32) mod 100 = of_nat b" "(of_nat n :: u32) div 100 = of_nat a"
    using of_nat_div_mod[of n 100] n by simp_all
  have le: "\<not> 2359 < (of_nat n :: u32)" "\<not> 59 < (of_nat b :: u32)"
    using assms unat_small[OF n(1)] by (simp_all add: word_less_nat_alt unat_small n_def)
  have num: "parsedig (zero_padded 4 n) = (of_nat n, [])"
    using parsedig_zero_padded[of "[]" 4 n] by (simp add: my_isdigit_def ch_def)
  have dig: "my_isdigit (chr0 (zero_padded 4 n))" using padded_first[of 4 n "[]"] by simp
  have val: "sint (of_nat b * 60 + of_nat a * 60 * 60 :: u32) = int (a * 3600 + b * 60)"
    "sint (- 1 * (of_nat b * 60 + of_nat a * 60 * 60) :: u32) = - int (a * 3600 + b * 60)"
    using sint_of_int_small[of "int (a * 3600 + b * 60)"] sint_of_int_small[of "- int (a * 3600 + b * 60)"] assms
    by (simp_all add: algebra_simps)
  have punct: "\<not> my_isalnum 32" "\<not> my_isalpha 45" "\<not> my_isalpha 43"
    by (simp_all add: my_isalnum_def my_isalpha_def my_isdigit_def ch_def)
  have "parse_zone (32 # (if neg then 45 else 43) # zero_padded 4 n) = sint ((if neg then - 1 else 1) * (of_nat b * 60 + of_nat a * 60 * 60) :: u32)"
    using dig punct by (simp only: parse_zone_def) (simp add: ch_def num mod le)
  then show ?thesis using val by (simp add: clock_offset_def n_def del: of_nat_add of_nat_mult)
qed

lemma signed_parts:
  assumes "\<bar>m\<bar> < (1440::int)"
  shows "\<exists>neg a b. a < 24 \<and> b < 60 \<and> m * 60 = clock_offset neg a b \<and>
    fmt_plus_0d 5 (m smod 60 + m sdiv 60 * 100) = (if neg then 45 else 43) # zero_padded 4 (a * 100 + b)"
proof -
  define a where "a = nat \<bar>m\<bar> div 60"
  define b where "b = nat \<bar>m\<bar> mod 60"
  have ab: "a < 24" "b < 60" "\<bar>m\<bar> = int (a * 60 + b)" using assms by (auto simp: a_def b_def)
  have dm: "\<bar>m\<bar> div 60 = int a" "\<bar>m\<bar> mod 60 = int b" by (simp_all add: a_def b_def zdiv_int zmod_int)
  show ?thesis
  proof (cases "m < 0")
    case True
    then have "m smod 60 = - int b" "m sdiv 60 = - int a" using dm by (simp_all add: signed_modulo_int_def signed_divide_int_def)
    then have v: "m smod 60 + m sdiv 60 * 100 = - int (a * 100 + b)" by simp
    have "0 < a * 100 + b" using True ab(3) by auto
    then have "fmt_plus_0d 5 (- int (a * 100 + b)) = 45 # zero_padded 4 (a * 100 + b)"
      by (simp add: fmt_plus_0d_def ch_def del: of_nat_add of_nat_mult)
    with v have "fmt_plus_0d 5 (m smod 60 + m sdiv 60 * 100) = 45 # zero_padded 4 (a * 100 + b)" by simp
    then show ?thesis using True ab by (intro exI[of _ True] exI[of _ a] exI[of _ b]) (simp add: clock_offset_def)
  next
    case False
    then have "m smod 60 = int b" "m sdiv 60 = int a" using dm by (cases "m = 0"; simp add: signed_modulo_int_def signed_divide_int_def)+
    then have "fmt_plus_0d 5 (m smod 60 + m sdiv 60 * 100) = 43 # zero_padded 4 (a * 100 + b)"
      by (simp add: fmt_plus_0d_def ch_def nat_add_distrib nat_mult_distrib algebra_simps)
    then show ?thesis using False ab by (intro exI[of _ False] exI[of _ a] exI[of _ b]) (simp add: clock_offset_def)
  qed
qed

text \<open>The text of a broken-down time, followed by the zone.\<close>

definition date_text :: "nat \<Rightarrow> nat \<Rightarrow> nat \<Rightarrow> nat \<Rightarrow> nat \<Rightarrow> nat \<Rightarrow> nat \<Rightarrow> bytes \<Rightarrow> bytes" where
  "date_text wd y m d h mi s z = weekdays ! wd @ str '', '' @ zero_padded 2 d @ str '' '' @ mnames ! (m - 1) @ str '' '' @
     zero_padded 4 y @ str '' '' @ zero_padded 2 h @ str '':'' @ zero_padded 2 mi @ str '':'' @ zero_padded 2 s @ z"

lemma mdays_le: "1 \<le> m \<Longrightarrow> m \<le> 12 \<Longrightarrow> mdays m y \<le> 31"
proof -
  have "\<forall>i<12. mlength ! i \<le> 31" by code_simp
  then show "1 \<le> m \<Longrightarrow> m \<le> 12 \<Longrightarrow> mdays m y \<le> 31" by (simp add: mdays_def)
qed

lemma parse_date_text:
  assumes "wd < 7" "1970 \<le> y" "y \<le> 9999" "1 \<le> m" "m \<le> 12" "1 \<le> d" "d \<le> mdays m y" "h < 24" "mi < 60" "s < 60"
    and z: "0 \<notin> set z" "\<not> my_isdigit (chr0 z)"
  shows "rfc822_parsedt (date_text wd y m d h mi s z) = seconds_of_day y m d + int (h * 3600 + mi * 60 + s) - parse_zone z"
proof -
  let ?clock = "zero_padded 2 h @ str '':'' @ zero_padded 2 mi @ str '':'' @ zero_padded 2 s @ z"
  let ?rest = "32 # zero_padded 4 y @ 32 # ?clock"
  have d: "d \<le> 31" using assms(7) mdays_le[OF assms(4,5), of y] by simp
  obtain i where i: "m = i + 1" "i < 12" using assms(4,5) by (metis add.commute less_eqE less_eq_Suc_le plus_1_eq_Suc)
  have "0 \<notin> set (weekdays ! wd)" using weekday_no_month(2)[OF assms(1)] alpha_nonzero by (auto simp: list_all_iff)
  then have "0 \<notin> set (date_text wd y m d h mi s z)"
    using z(1) padded_no_zero month_is_month(3)[OF i(2)] by (simp add: date_text_def i(1) str_chars)
  then have whole: "takeWhile (\<lambda>c. c \<noteq> 0) (date_text wd y m d h mi s z) = date_text wd y m d h mi s z"
    by (intro takeWhile_eq_all_conv[THEN iffD2]) auto
  have "date_text wd y m d h mi s z = weekdays ! wd @ str '', '' @ zero_padded 2 d @ str '' '' @ mnames ! i @ ?rest"
    by (simp add: date_text_def i(1) str_chars)
  then have dm: "day_month_loop (date_text wd y m d h mi s z) 0 0 = Some (?rest, of_nat d, m)"
    using day_month_written[OF assms(1) i(2) assms(6) d, of ?rest] i(1) by simp
  have year: "parsedig (zero_padded 4 y @ 32 # ?clock) = (of_nat y, 32 # ?clock)"
    by (rule parsedig_zero_padded) (simp add: plain_chars)
  have y: "unat (of_nat y :: u32) = y" using assms(3) by (simp add: unat_small)
  have ycmp: "\<not> (of_nat y :: u32) < 70" "\<not> (of_nat y :: u32) < 100" "\<not> (of_nat y :: u32) < 1970" "\<not> 9999 < (of_nat y :: u32)"
    using assms(2,3) y by (simp_all add: word_less_nat_alt)
  have du: "unat (of_nat d :: u32) = d" "(of_nat d :: u32) \<noteq> 0" "unat (of_nat d - 1 :: u32) = d - 1"
  proof -
    show u: "unat (of_nat d :: u32) = d" using d by (simp add: unat_small)
    show "(of_nat d :: u32) \<noteq> 0" using u assms(6) by (metis unat_0 not_one_le_zero)
    have "(of_nat d - 1 :: u32) = of_nat (d - 1)" using assms(6) by simp
    then show "unat (of_nat d - 1 :: u32) = d - 1" using d by (simp only:) (rule unat_small, simp)
  qed
  note time = parsetime_written[OF assms(8,9,10) z(2)]
  have t: "fold (\<lambda>ya t. t + int (mdays ya y) * 86400) [Suc 0 ..< m] (year_loop 1970 y 0) = days_to_year y * 86400 + days_to_month m y * 86400"
    by (simp add: month_fold_sum year_loop_sum days_to_year_def days_to_month_def)
  show ?thesis
    using assms(4,5,6,7) padded_first[of 4 y "32 # ?clock"]
    unfolding rfc822_parsedt_def whole dm
    by (simp add: no_space year ycmp y du time t seconds_of_day_def Let_def of_nat_diff algebra_simps)
qed

section \<open>What is written is read back\<close>

lemma mkdate_text:
  assumes "0 \<le> t" "t < 253402300800" "0 \<le> t + tz t" "t + tz t < 253402300800" "\<bar>tz t\<bar> < 86400"
  shows "\<exists>s. rfc822_mkdate tz t = Some s \<and> rfc822_parsedt s = t"
proof -
  have names: "wdays = weekdays" "months = mnames" by (simp_all add: wdays_def weekdays_def months_def mnames_def)
  have written: "\<exists>s. Some (wdays ! tm_wday p @ str '', '' @ fmt_0d 2 (tm_mday p) @ str '' '' @ months ! tm_mon p @ str '' '' @
        fmt_0d 4 (tm_year p + 1900) @ str '' '' @ fmt_0d 2 (tm_hour p) @ str '':'' @ fmt_0d 2 (tm_min p) @ str '':'' @
        fmt_0d 2 (tm_sec p) @ str '' '' @ fmt_plus_0d 5 (o' smod 60 + o' sdiv 60 * 100)) = Some s \<and>
      rfc822_parsedt s = t' - o' * 60"
    if p: "tm_is p y m d h mi s" "t' = seconds_of_day y m d + int (h * 3600 + mi * 60 + s)" and o': "\<bar>o'\<bar> < 1440" for p y m d h mi s t' o'
  proof -
    from signed_parts[OF o'] obtain neg a b where z: "a < 24" "b < 60" "o' * 60 = clock_offset neg a b"
        "fmt_plus_0d 5 (o' smod 60 + o' sdiv 60 * 100) = (if neg then 45 else 43) # zero_padded 4 (a * 100 + b)" by blast
    let ?z = "32 # (if neg then 45 else 43) # zero_padded 4 (a * 100 + b)"
    have nz: "0 \<notin> set ?z" using padded_no_zero by simp
    have "wdays ! tm_wday p @ str '', '' @ fmt_0d 2 (tm_mday p) @ str '' '' @ months ! tm_mon p @ str '' '' @
        fmt_0d 4 (tm_year p + 1900) @ str '' '' @ fmt_0d 2 (tm_hour p) @ str '':'' @ fmt_0d 2 (tm_min p) @ str '':'' @
        fmt_0d 2 (tm_sec p) @ str '' '' @ fmt_plus_0d 5 (o' smod 60 + o' sdiv 60 * 100) = date_text (tm_wday p) y m d h mi s ?z"
      using p(1) unfolding z(4) by (auto simp: tm_is_def date_text_def names fmt_0d_def str_chars)
    moreover have "rfc822_parsedt (date_text (tm_wday p) y m d h mi s ?z) = t' - o' * 60"
      using p(1) parse_date_text[of "tm_wday p" y m d h mi s ?z] nz parse_zone_number[OF z(1,2), of neg]
      unfolding p(2) z(3) by (simp add: tm_is_def plain_chars)
    ultimately show ?thesis by auto
  qed
  obtain p y m d h mi s where p: "gmtime (t + tz t) = Some p" "tm_is p y m d h mi s"
      "t + tz t = seconds_of_day y m d + int (h * 3600 + mi * 60 + s)" using gmtime_is[OF assms(3,4)] by blast
  obtain q qy qm qd qh qmi qs where q: "gmtime t = Some q" "tm_is q qy qm qd qh qmi qs"
      "t = seconds_of_day qy qm qd + int (qh * 3600 + qmi * 60 + qs)" using gmtime_is[OF assms(1,2)] by blast
  show ?thesis
  proof (cases "tz t smod 60 = 0")
    case True
    have dvd: "tz t = tz t sdiv 60 * 60" using True sdiv_mult_smod_eq[of "tz t" 60] by simp
    then have small: "\<bar>tz t sdiv 60\<bar> < 1440" using assms(5) by linarith
    have broken: "tm_is (p\<lparr>tm_gmtoff := tz t\<rparr>) y m d h mi s" using p(2) by (simp add: tm_is_def)
    from written[OF broken p(3) small] show ?thesis
      using True dvd by (simp add: rfc822_mkdate_def rfc822_mkdate_buf_def localtime_def p(1) Let_def)
  next
    case False
    from written[OF q(2,3), of 0] show ?thesis
      using False by (simp add: rfc822_mkdate_def rfc822_mkdate_buf_def localtime_def p(1) q(1) Let_def)
  qed
qed

lemma mkdt_text:
  assumes "0 \<le> t" "t < 253402300800"
  shows "rfc822_parsedt (rfc822_mkdt t) = t"
proof -
  obtain p y m d h mi s where p: "gmtime t = Some p" "tm_is p y m d h mi s"
      "t = seconds_of_day y m d + int (h * 3600 + mi * 60 + s)" using gmtime_is[OF assms] by blast
  have "rfc822_mkdt t = date_text (tm_wday p) y m d h mi s (str '' GMT'')"
    using p(1,2) by (auto simp: rfc822_mkdt_def tm_is_def date_text_def fmt_0d_def)
  moreover have "parse_zone (str '' GMT'') = 0" by code_simp
  moreover have "0 \<notin> set (str '' GMT'')" "\<not> my_isdigit (chr0 (str '' GMT''))" by code_simp+
  ultimately show ?thesis
    using p(2,3) parse_date_text[of "tm_wday p" y m d h mi s "str '' GMT''"] by (simp add: tm_is_def)
qed



section \<open>What is read is a date\<close>

lemma small_word: "\<not> of_nat k < (w::u32) \<Longrightarrow> k < 2 ^ 32 \<Longrightarrow> \<exists>n\<le>k. w = of_nat n"
  by (intro exI[of _ "unat w"]) (simp add: word_less_nat_alt unat_small)

lemma clock_bound:
  assumes "\<not> 23 < (h::u32)" "\<not> 59 < (m::u32)" "\<not> 59 < (s::u32)"
  shows "0 \<le> sint (h * 60 * 60 + m * 60 + s) \<and> sint (h * 60 * 60 + m * 60 + s) < 86400"
proof -
  obtain a b c where n: "h = of_nat a" "a \<le> 23" "m = of_nat b" "b \<le> 59" "s = of_nat c" "c \<le> 59"
    using small_word[of 23 h] small_word[of 59 m] small_word[of 59 s] assms by auto
  define v where "v = a * 3600 + b * 60 + c"
  have e: "h * 60 * 60 + m * 60 + s = of_nat v" by (simp add: n v_def)
  have "v < 86400" using n by (simp add: v_def)
  then show ?thesis unfolding e by (simp add: sint_small)
qed

lemma parsetime_bound: "parsetime t = (secs, t') \<Longrightarrow> secs = - 1 \<or> 0 \<le> secs \<and> secs < 86400"
  using clock_bound[where s = 0] clock_bound
  by (auto simp: parsetime_def Let_def split: if_splits prod.splits)

lemma parsekey_loop_le: "fst (parsekey_loop m ary s) \<le> m + length ary"
  by (induction m ary s rule: parsekey_loop.induct) auto

lemma parse_zone_bound: "\<bar>parse_zone s\<bar> \<le> 86340"
proof -
  have off: "list_all (\<lambda>z. \<bar>z\<bar> \<le> 86340) zoneoffset" "length zonenames = length zoneoffset" by code_simp+
  have named: "\<bar>zoneoffset ! (n - 1)\<bar> \<le> 86340" if "n = fst (parsekey zonenames s')" "0 < n" for n s'
    using that off parsekey_loop_le[of 0 zonenames s'] by (simp add: parsekey_def list_all_length)
  have num: "\<bar>sint (sign * (n mod 100 * 60 + n div 100 * 60 * 60) :: u32)\<bar> \<le> 86340"
    if w: "\<not> (2359 < n \<or> 59 < n mod 100)" "sign = 1 \<or> sign = - 1" for sign n
  proof -
    obtain k where k: "n = of_nat k" "k \<le> 2359" using small_word[of 2359 n] w(1) by auto
    have mod: "n mod 100 = of_nat (k mod 100)" "n div 100 = of_nat (k div 100)"
      using of_nat_div_mod[of k 100] k by simp_all
    have b: "k mod 100 \<le> 59" using w(1) unfolding mod by (simp add: word_less_nat_alt unat_small)
    define v where "v = k mod 100 * 60 + k div 100 * 3600"
    have "k div 100 \<le> 23" using k(2) by auto
    then have v: "v \<le> 86340" using b by (simp add: v_def)
    have "n mod 100 * 60 + n div 100 * 60 * 60 = (of_nat v :: u32)" by (simp add: mod v_def)
    moreover have "sint (of_int (int v) :: u32) = int v" "sint (of_int (- int v) :: u32) = - int v"
      using v by (intro sint_of_int_small; simp)+
    ultimately show ?thesis using w(2) v by auto
  qed
  define s1 where "s1 = dropWhile (\<lambda>c. \<not> (my_isalnum c \<or> c = ch CHR ''+'' \<or> c = ch CHR ''-'')) s"
  define signed where "signed = (if chr0 s1 = ch CHR ''-'' then (- 1 :: u32, tl s1) else if chr0 s1 = ch CHR ''+'' then (1, tl s1) else (1, s1))"
  define k where "k = fst (parsedig (snd signed))"
  define n where "n = (if 2359 < k \<or> 59 < k mod 100 then 0 else k)"
  have sign: "fst signed = 1 \<or> fst signed = - 1" by (simp add: signed_def)
  have E: "parse_zone s =
    (if my_isalpha (chr0 s1) then (if 0 < fst (parsekey zonenames s1) then zoneoffset ! (fst (parsekey zonenames s1) - 1) else 0)
     else if my_isdigit (chr0 (snd signed)) then sint (fst signed * (n mod 100 * 60 + n div 100 * 60 * 60)) else 0)"
    unfolding parse_zone_def by (simp only: Let_def case_prod_beta n_def k_def signed_def s1_def)
  have "\<bar>sint (fst signed * (n mod 100 * 60 + n div 100 * 60 * 60))\<bar> \<le> 86340"
  proof (cases "2359 < k \<or> 59 < k mod 100")
    case True
    then have "n = 0" by (simp add: n_def)
    then show ?thesis by simp
  next
    case False
    then have "n = k" by (simp add: n_def)
    then show ?thesis using num[OF False sign] by simp
  qed
  then show ?thesis unfolding E using named by simp
qed


text \<open>
  A zone that begins with the name of another one is taken for it: Central European Time is read as the
  military zone C.
\<close>

lemma zone_prefix: "parse_zone (str '' CET'') = ZH (- 3)"
  by code_simp

end
