(* ===== verification/Detect.thy ===== *)
theory Detect
  imports Prelude "HOL-Library.Sublist"
begin

text \<open>
  The choice of a transfer encoding, rfc822/encodeautodetect.c: one pass over a text that is read from
  a string or from part of a file.  The reading function is an interface (the locale \<open>char_source\<close>) with
  its two providers.  The lemmas show what a text that is left unencoded is like.
\<close>

section \<open>The pass over the text\<close>

text \<open>
  A reading function returns a character or the end of the text (\<open>None\<close>), and the new state of its
  argument.  The result is the name of the encoding, the flag for binary data, and the argument; \<open>None\<close>
  is a loop without an end.  The length of a line is an \<open>int\<close> in the source: lines stay below 2 ^ 29
  characters.
\<close>

definition heavy :: "u8 \<Rightarrow> bool" where
  "heavy c \<longleftrightarrow> (c < 0x20 \<or> 0x80 \<le> c) \<and> (c \<noteq> 9 \<and> c \<noteq> 13 \<and> c \<noteq> 10)"

partial_function (option) autodetect_loop ::
    "('s \<Rightarrow> u8 option \<times> 's) \<Rightarrow> bool \<Rightarrow> nat \<Rightarrow> bool \<Rightarrow> nat \<Rightarrow> nat \<Rightarrow> 's \<Rightarrow> (string \<times> bool \<times> 's) option" where
  "autodetect_loop func use7bit l longline charcnt bit8cnt s =
     (if fst (func s) = None then
        Some (if use7bit \<or> longline then (if charcnt div 10 < bit8cnt then ''base64'' else ''quoted-printable'')
              else if bit8cnt \<noteq> 0 then ''8bit'' else ''7bit'', False, snd (func s))
      else if the (fst (func s)) = 0 then Some (''base64'', True, snd (func s))
      else autodetect_loop func use7bit
             (if the (fst (func s)) = 10 then 0 else if heavy (the (fst (func s))) then l + 1 + 2 else l + 1)
             (if the (fst (func s)) = 10 then longline
              else if 990 < (if heavy (the (fst (func s))) then l + 1 + 2 else l + 1) then True else longline)
             (charcnt + 1) (if heavy (the (fst (func s))) then bit8cnt + 1 else bit8cnt) (snd (func s)))"

declare autodetect_loop.simps [code]

definition libmail_encode_autodetect :: "bool \<Rightarrow> ('s \<Rightarrow> u8 option \<times> 's) \<Rightarrow> 's \<Rightarrow> (string \<times> bool \<times> 's) option" where
  "libmail_encode_autodetect use7bit func s = autodetect_loop func use7bit 0 False 0 0 s"

section \<open>Reading from strings and files\<close>

text \<open>A file has its data and a position; a pipe cannot be positioned.\<close>

record FILE =
  f_data :: bytes
  f_pos :: nat
  f_seek :: bool

definition getc :: "FILE \<Rightarrow> u8 option \<times> FILE" where
  "getc fp = (if f_pos fp < length (f_data fp) then (Some (f_data fp ! f_pos fp), fp\<lparr>f_pos := f_pos fp + 1\<rparr>) else (None, fp))"

definition ftell :: "FILE \<Rightarrow> int" where
  "ftell fp = (if f_seek fp then int (f_pos fp) else - 1)"

definition fseek :: "FILE \<Rightarrow> int \<Rightarrow> int \<times> FILE" where
  "fseek fp off = (if f_seek fp \<and> 0 \<le> off then (0, fp\<lparr>f_pos := nat off\<rparr>) else (- 1, fp))"

record file_info =
  fi_fp :: FILE
  fi_pos :: int
  fi_end :: int

definition read_file :: "file_info \<Rightarrow> u8 option \<times> file_info" where
  "read_file fi =
     (if 0 \<le> fi_end fi \<and> fi_end fi < fi_pos fi then (None, fi)
      else let (c, fp) = getc (fi_fp fi) in (c, fi\<lparr>fi_fp := fp, fi_pos := fi_pos fi + 1\<rparr>))"

definition read_string :: "bytes \<Rightarrow> u8 option \<times> bytes" where
  "read_string s = (case s of [] \<Rightarrow> (None, s) | c # s' \<Rightarrow> if c = 0 then (None, s) else (Some c, s'))"

text \<open>
  The result is the encoding (\<open>None\<close> is a null pointer), the flag if it was written, and the file.
\<close>

definition libmail_encode_autodetect_fpoff ::
    "FILE \<Rightarrow> bool \<Rightarrow> int \<Rightarrow> int \<Rightarrow> (string option \<times> bool option \<times> FILE) option" where
  "libmail_encode_autodetect_fpoff fp use7bit start_pos end_pos =
     (let orig_pos = ftell fp;
          (rc, fp) = (if 0 \<le> start_pos then fseek fp start_pos else (0, fp))
      in if rc = - 1 then Some (None, None, fp)
         else let pos = (if 0 \<le> start_pos then start_pos else orig_pos);
                  fi = \<lparr>fi_fp = fp, fi_pos = pos, fi_end = end_pos\<rparr>
              in case libmail_encode_autodetect use7bit read_file fi of
                   None \<Rightarrow> None
                 | Some (enc, flag, fi) \<Rightarrow>
                     let (rc, fp) = fseek (fi_fp fi) orig_pos
                     in Some (if rc = - 1 then None else Some enc, Some flag, fp))"

definition libmail_encode_autodetect_fp :: "FILE \<Rightarrow> bool \<Rightarrow> (string option \<times> bool option \<times> FILE) option" where
  "libmail_encode_autodetect_fp fp use7bit = libmail_encode_autodetect_fpoff fp use7bit 0 (- 1)"

definition libmail_encode_autodetect_buf :: "bytes \<Rightarrow> bool \<Rightarrow> string option" where
  "libmail_encode_autodetect_buf s use7bit = map_option fst (libmail_encode_autodetect use7bit read_string s)"

section \<open>What is detected\<close>

definition weight :: "u8 \<Rightarrow> nat" where
  "weight c = (if heavy c then 3 else 1)"

text \<open>Some part of a line takes more than 990 characters, a heavy one counting three times.\<close>

definition long_line :: "bytes \<Rightarrow> bool" where
  "long_line t \<longleftrightarrow> (\<exists>q. sublist q t \<and> 10 \<notin> set q \<and> 990 < sum_list (map weight q))"

definition verdict :: "bool \<Rightarrow> bool \<Rightarrow> nat \<Rightarrow> nat \<Rightarrow> string" where
  "verdict use7bit long chars heavies =
     (if use7bit \<or> long then (if chars div 10 < heavies then ''base64'' else ''quoted-printable'')
      else if heavies \<noteq> 0 then ''8bit'' else ''7bit'')"

definition detected :: "bool \<Rightarrow> bytes \<Rightarrow> string" where
  "detected use7bit t =
     (if 0 \<in> set t then ''base64'' else verdict use7bit (long_line t) (length t) (length (filter heavy t)))"

lemma weight_sublist: "sublist p q \<Longrightarrow> sum_list (map weight p) \<le> sum_list (map weight q)"
  by (auto simp: sublist_def)

lemma short_line: "sum_list (map weight q) \<le> 990 \<Longrightarrow> \<not> long_line q"
  using weight_sublist by (fastforce simp: long_line_def)

lemma long_line_newline:
  assumes "10 \<notin> set q" "sum_list (map weight q) \<le> 990"
  shows "long_line (q @ 10 # t) \<longleftrightarrow> long_line t"
proof
  assume "long_line (q @ 10 # t)"
  then obtain p where p: "sublist p (q @ 10 # t)" "10 \<notin> set p" "990 < sum_list (map weight p)"
    unfolding long_line_def by blast
  from p(1) consider "sublist p q" | "sublist p (10 # t)" | "\<exists>a b. p = a @ b \<and> suffix a q \<and> prefix b (10 # t)"
    by (auto simp: sublist_append)
  then show "long_line t"
  proof cases
    case 1
    then show ?thesis using weight_sublist[OF 1] p(3) assms(2) by simp
  next
    case 2
    then have "prefix p (10 # t) \<or> sublist p t" by (simp add: sublist_Cons_right)
    then show ?thesis using p(2,3) by (cases p) (auto simp: long_line_def)
  next
    case 3
    then obtain a b where ab: "p = a @ b" "suffix a q" "prefix b (10 # t)" by blast
    then have "b = []" using p(2) by (cases b) auto
    then have "sublist p q" using ab by auto
    then show ?thesis using weight_sublist p(3) assms(2) by fastforce
  qed
next
  assume "long_line t"
  then show "long_line (q @ 10 # t)"
    unfolding long_line_def by (meson sublist_order.order_trans sublist_append_leftI sublist_Cons_right)
qed

lemma long_line_over:
  "10 \<notin> set q \<Longrightarrow> c \<noteq> 10 \<Longrightarrow> 990 < sum_list (map weight q) + weight c \<Longrightarrow> long_line (q @ c # t)"
  unfolding long_line_def by (intro exI[of _ "q @ [c]"]) (auto intro: sublist_append_rightI[of "q @ [c]" t, simplified])

locale char_source =
  fixes func :: "'s \<Rightarrow> u8 option \<times> 's"
    and remaining :: "'s \<Rightarrow> bytes"
    and kept :: "'s \<Rightarrow> 'k"
  assumes at_end: "remaining s = [] \<Longrightarrow> fst (func s) = None"
    and next_char: "remaining s = c # cs \<Longrightarrow> fst (func s) = Some c \<and> remaining (snd (func s)) = cs"
    and next_kept: "kept (snd (func s)) = kept s"
begin

lemma loop_detects:
  "10 \<notin> set q \<Longrightarrow> longline \<or> sum_list (map weight q) \<le> 990 \<Longrightarrow> remaining s = t \<Longrightarrow>
   \<exists>s'. kept s' = kept s \<and> autodetect_loop func use7bit (sum_list (map weight q)) longline charcnt bit8cnt s =
     Some (if 0 \<in> set t then (''base64'', True, s')
           else (verdict use7bit (longline \<or> long_line (q @ t)) (charcnt + length t) (bit8cnt + length (filter heavy t)), False, s'))"
proof (induction t arbitrary: q longline charcnt bit8cnt s)
  case Nil
  then have "longline \<or> \<not> long_line q" using short_line by blast
  then show ?case using at_end[OF Nil.prems(3)] next_kept by (subst autodetect_loop.simps) (auto simp: verdict_def)
next
  case (Cons c t)
  note c = next_char[OF Cons.prems(3)]
  let ?b = "if heavy c then bit8cnt + 1 else bit8cnt"
  have "\<not> heavy 10" by (simp add: heavy_def)
  show ?case
  proof (cases "c = 0")
    case True
    then show ?thesis using c next_kept by (subst autodetect_loop.simps) simp
  next
    case nz: False
    show ?thesis
    proof (cases "c = 10")
      case True
      have "autodetect_loop func use7bit (sum_list (map weight q)) longline charcnt bit8cnt s =
        autodetect_loop func use7bit (sum_list (map weight [])) longline (charcnt + 1) bit8cnt (snd (func s))"
        using c nz True \<open>\<not> heavy 10\<close> by (subst autodetect_loop.simps) simp
      moreover have "longline \<or> long_line (q @ 10 # t) = long_line t"
        using long_line_newline[OF Cons.prems(1)] Cons.prems(2) by blast
      ultimately show ?thesis
        using Cons.IH[of "[]" longline "snd (func s)" "charcnt + 1" bit8cnt] next_kept[of s] c nz True \<open>\<not> heavy 10\<close> by auto
    next
      case False
      let ?l = "sum_list (map weight (q @ [c]))"
      let ?long = "if 990 < ?l then True else longline"
      have "autodetect_loop func use7bit (sum_list (map weight q)) longline charcnt bit8cnt s =
        autodetect_loop func use7bit ?l ?long (charcnt + 1) ?b (snd (func s))"
        using c nz False by (subst autodetect_loop.simps) (simp add: weight_def numeral_3_eq_3)
      moreover have "(?long \<or> long_line ((q @ [c]) @ t)) = (longline \<or> long_line (q @ c # t))"
        using long_line_over[OF Cons.prems(1) False, of t] by auto
      moreover have "?b + length (filter heavy t) = bit8cnt + length (filter heavy (c # t))"
        "charcnt + 1 + length t = charcnt + length (c # t)" "(0 \<in> set (c # t)) = (0 \<in> set t)" using nz by auto
      moreover have "10 \<notin> set (q @ [c])" "?long \<or> ?l \<le> 990" using Cons.prems(1) False by auto
      moreover have "remaining (snd (func s)) = t" using c by simp
      moreover note Cons.IH[of "q @ [c]" ?long "snd (func s)" "charcnt + 1" ?b] next_kept[of s]
      ultimately show ?thesis by (simp only:) blast
    qed
  qed
qed

lemma autodetect_detects:
  "\<exists>s'. kept s' = kept s \<and> libmail_encode_autodetect use7bit func s = Some (detected use7bit (remaining s), 0 \<in> set (remaining s), s')"
  using loop_detects[of "[]" False s "remaining s" use7bit 0 0]
  by (auto simp: libmail_encode_autodetect_def detected_def)

end

section \<open>The two sources\<close>

text \<open>What is left to read of a file: up to and with the end position, if there is one.\<close>

definition file_rest :: "file_info \<Rightarrow> bytes" where
  "file_rest fi =
     (let t = drop (f_pos (fi_fp fi)) (f_data (fi_fp fi)) in
      if 0 \<le> fi_end fi then take (nat (fi_end fi + 1 - fi_pos fi)) t else t)"

interpretation string_source: char_source read_string "takeWhile (\<lambda>c. c \<noteq> 0)" "\<lambda>_. ()"
  by unfold_locales (auto simp: read_string_def split: list.splits if_splits)

interpretation file_source: char_source read_file file_rest "\<lambda>fi. (f_data (fi_fp fi), f_seek (fi_fp fi))"
proof unfold_locales
  fix fi assume e: "file_rest fi = []"
  show "fst (read_file fi) = None"
  proof (cases "0 \<le> fi_end fi \<and> fi_end fi < fi_pos fi")
    case False
    then have "drop (f_pos (fi_fp fi)) (f_data (fi_fp fi)) = []"
      using e by (auto simp: file_rest_def Let_def split: if_splits)
    then show ?thesis using False by (auto simp: read_file_def getc_def)
  qed (simp add: read_file_def)
next
  fix fi c cs assume e: "file_rest fi = c # cs"
  let ?t = "drop (f_pos (fi_fp fi)) (f_data (fi_fp fi))"
  have ok: "\<not> (0 \<le> fi_end fi \<and> fi_end fi < fi_pos fi)" using e by (auto simp: file_rest_def Let_def)
  obtain u where u: "?t = c # u" "cs = (if 0 \<le> fi_end fi then take (nat (fi_end fi - fi_pos fi)) u else u)"
  proof -
    have "nat (fi_end fi + 1 - fi_pos fi) = Suc (nat (fi_end fi - fi_pos fi))" if "0 \<le> fi_end fi" using ok that by simp
    then show ?thesis using that e by (cases ?t) (auto simp: file_rest_def Let_def split: if_splits)
  qed
  have pos: "f_pos (fi_fp fi) < length (f_data (fi_fp fi))" "f_data (fi_fp fi) ! f_pos (fi_fp fi) = c"
    using u(1) by (metis drop_eq_Nil leI list.distinct(1)) (metis u(1) nth_via_drop)
  have "drop (Suc (f_pos (fi_fp fi))) (f_data (fi_fp fi)) = u" using u(1) by (metis drop_Suc list.sel(3) tl_drop)
  then show "fst (read_file fi) = Some c \<and> file_rest (snd (read_file fi)) = cs"
    using ok pos u(2) by (auto simp: read_file_def getc_def file_rest_def Let_def)
qed (simp add: read_file_def getc_def)

section \<open>Texts that are left as they are\<close>

text \<open>The part of a file that is looked at.\<close>

definition region :: "FILE \<Rightarrow> int \<Rightarrow> int \<Rightarrow> bytes" where
  "region fp start_pos end_pos =
     (let p = (if 0 \<le> start_pos then nat start_pos else f_pos fp); t = drop p (f_data fp) in
      if 0 \<le> end_pos then take (nat (end_pos + 1) - p) t else t)"

lemma fpoff_detects:
  assumes "f_seek fp"
  shows "libmail_encode_autodetect_fpoff fp use7bit start_pos end_pos =
    Some (Some (detected use7bit (region fp start_pos end_pos)), Some (0 \<in> set (region fp start_pos end_pos)), fp)"
proof -
  define p where "p = (if 0 \<le> start_pos then nat start_pos else f_pos fp)"
  let ?fi = "\<lparr>fi_fp = fp\<lparr>f_pos := p\<rparr>, fi_pos = int p, fi_end = end_pos\<rparr>"
  have rest: "file_rest ?fi = region fp start_pos end_pos"
    by (simp add: file_rest_def region_def p_def Let_def nat_diff_distrib')
  obtain fi' where fi: "f_data (fi_fp fi') = f_data fp" "f_seek (fi_fp fi')"
      "libmail_encode_autodetect use7bit read_file ?fi =
        Some (detected use7bit (region fp start_pos end_pos), 0 \<in> set (region fp start_pos end_pos), fi')"
    using file_source.autodetect_detects[where s = ?fi and use7bit = use7bit] assms unfolding rest by auto
  have restored: "fseek (fi_fp fi') (ftell fp) = (0, fp)"
    using fi(1,2) assms by (cases fp, cases "fi_fp fi'") (simp add: fseek_def ftell_def)
  have start: "(if 0 \<le> start_pos then fseek fp start_pos else (0, fp)) = (0, fp\<lparr>f_pos := p\<rparr>)"
    "(if 0 \<le> start_pos then start_pos else ftell fp) = int p"
    using assms by (auto simp: fseek_def ftell_def p_def)
  show ?thesis
    unfolding libmail_encode_autodetect_fpoff_def start Let_def using fi(3) restored by simp
qed

text \<open>C13: the encoding of part of a file is found, with the flag for binary data and the file as it was.  A text that is left as it
  is has no null character and no line longer than 990 characters, and with 7 bits nothing but printable characters
  and white space; where only 7 bits are allowed, every text is encoded.\<close>

theorem encoding_detected:
  assumes "f_seek fp"
  shows "\<exists>enc. libmail_encode_autodetect_fpoff fp use7bit start_pos end_pos =
      Some (Some enc, Some (0 \<in> set (region fp start_pos end_pos)), fp) \<and>
    enc \<in> {''7bit'', ''8bit'', ''quoted-printable'', ''base64''} \<and>
    (use7bit \<longrightarrow> enc \<in> {''quoted-printable'', ''base64''}) \<and>
    (enc \<in> {''7bit'', ''8bit''} \<longrightarrow> 0 \<notin> set (region fp start_pos end_pos) \<and>
       (\<forall>q. sublist q (region fp start_pos end_pos) \<longrightarrow> 10 \<notin> set q \<longrightarrow> length q \<le> 990)) \<and>
    (enc = ''7bit'' \<longrightarrow> (\<forall>c\<in>set (region fp start_pos end_pos). 32 \<le> c \<and> c < 128 \<or> c = 9 \<or> c = 10 \<or> c = 13))"
proof -
  let ?t = "region fp start_pos end_pos"
  have weight: "length q \<le> sum_list (map weight q)" for q by (induction q) (auto simp: weight_def)
  have short: "length q \<le> 990" if "\<not> long_line ?t" "sublist q ?t" "10 \<notin> set q" for q
    using that weight[of q] by (fastforce simp: long_line_def)
  have light: "32 \<le> c \<and> c < 128 \<or> c = 9 \<or> c = 10 \<or> c = 13" if "filter heavy ?t = []" "c \<in> set ?t" for c
    using that by (auto simp: filter_empty_conv heavy_def not_less not_le)
  show ?thesis
    using fpoff_detects[OF assms, of use7bit start_pos end_pos] short light
    by (auto simp: detected_def verdict_def)
qed

theorem encoding_detected_witness:
  "libmail_encode_autodetect_fpoff \<lparr>f_data = [0, 72, 105, 10], f_pos = 2, f_seek = True\<rparr> False 1 (- 1) =
     Some (Some ''7bit'', Some False, \<lparr>f_data = [0, 72, 105, 10], f_pos = 2, f_seek = True\<rparr>)"
proof -
  let ?fp = "\<lparr>f_data = [0, 72, 105, 10], f_pos = 2, f_seek = True\<rparr>"
  have c: "libmail_encode_autodetect_fpoff ?fp False 1 (- 1) = Some (Some ''7bit'', Some False, ?fp)" by code_simp
  have "f_seek ?fp" by simp
  from encoding_detected[OF this, of False 1 "- 1"] show ?thesis by (simp only: c)
qed

text \<open>The end position is read as well, one character more than lies before it.\<close>

lemma end_is_read: "region \<lparr>f_data = str ''abcd'', f_pos = 0, f_seek = True\<rparr> 0 2 = str ''abc''"
  by code_simp

lemma buf_detects: "libmail_encode_autodetect_buf s use7bit = Some (detected use7bit (takeWhile (\<lambda>c. c \<noteq> 0) s))"
  using string_source.autodetect_detects[where s = s and use7bit = use7bit] by (auto simp: libmail_encode_autodetect_buf_def)

end
