(* ===== verification/Spec2Isabelle.thy ===== *)
theory Spec2Isabelle
  imports Hmac Password_Hash Md5_Crypt Cdecode Wordbreak Unicode_Width Sha_Constants Rfc822_Print Search Dates Detect
begin

text \<open>
  Verification library for the C core of the cone mail client: the hash functions, the transfer
  encodings of MIME, the addresses and dates of message headers, text search, and the Unicode algorithms
  its user interface and its mail composer rest on.

  \<^bold>\<open>The program and its parts.\<close>  The repository holds the mail client (cone/, libmail/ and curses/, in
  C++) over a set of C libraries that do the work: md5/, sha1/ and libhmac/ (digests, HMAC and the
  password hashes), rfc822/ (headers, addresses, encoders), rfc2045/ (MIME structure and decoders),
  unicode/ (character classes, line and word breaking), maildir/, rfc1035/, numlib/, liblock/.  Most
  of these libraries are stream machines: a structure is initialised, takes pieces of data through a
  \<open>next\<close> function, calls back with its results and is closed by an \<open>end\<close> function.  The theorems say
  that such a machine computes a function of the whole input, however it is cut into pieces.

  \<^bold>\<open>Prelude\<close> holds the machine types (\<open>u8\<close> to \<open>u64\<close>, a buffer is a list of bytes), packing of bytes into
  words, return codes (\<open>rc_bind\<close>: a code other than 0 returns at once), and evaluation over all bytes.
  \<^bold>\<open>Reporter\<close> holds callbacks that take events (\<open>feed\<close>), the locale \<open>event_sink\<close> of callbacks that never
  stop, and the locale \<open>reporter\<close>: the contract of a machine that may hold reports back.

  \<^bold>\<open>Hashes.\<close>  Hash_Stream has the block buffering and padding that md5.c, sha1.c, sha256.c and sha512.c
  share, as a locale with an interpretation in each of \<^bold>\<open>Md5\<close>, \<^bold>\<open>Sha1\<close>, \<^bold>\<open>Sha256\<close> and \<^bold>\<open>Sha512\<close>, which
  model the context structures, the block functions with their 32 or 64-bit arithmetic, the length
  encoding, the digest and its inverse \<open>restore\<close>.  Each is refined to the standard (RFC 1321 or
  FIPS 180) for any cutting of the message; for SHA-1 and SHA-256 below 2 ^ 29 bytes, where the
  implementation cuts the length field off.  \<^bold>\<open>Sha_Constants\<close> derives the constants from primes.
  \<^bold>\<open>Hmac\<close> models libhmac/hmac.c over a table of functions and instantiates it with md5/hmac.c and
  sha1/hmac.c; \<^bold>\<open>Password_Hash\<close> and \<^bold>\<open>Md5_Crypt\<close> model md5_hash.c, sha1_hash.c and their kin and
  redhat-crypt-md5.c.

  \<^bold>\<open>Transfer encodings.\<close>  \<^bold>\<open>Base64\<close> models rfc2045/base64.c, the stream decoder, with the locale \<open>sink\<close> of
  its callbacks; \<^bold>\<open>Encode\<close> models rfc822/encode.c, the encoder for base64, quoted-printable and 8-bit
  text; \<^bold>\<open>Cdecode\<close> models rfc2045/rfc2045cdecode.c and the work buffer of rfc2045/rfc2045.c.  The
  lemmas show independence of the cutting, line lengths, and that decoding inverts encoding.

  \<^bold>\<open>Unicode.\<close>  \<^bold>\<open>Unicode_Tab\<close> models the binary search of unicode_tablookup.c and the grapheme cluster
  rules; \<^bold>\<open>Wordbreak\<close> and \<^bold>\<open>Linebreak\<close> model the state machines of unicode_wordbreak.c and
  unicode_linebreak.c, with the handler pointers as datatypes, and refine them to the rules of Unicode
  Standard Annexes 29 and 14 written with lookahead, errors of the callback included;
  \<^bold>\<open>Unicode_Buf\<close> models unicodebuf.c; \<^bold>\<open>Unicode_Width\<close> models unicode_wcwidth.c and unicode_ultcase.c.

  \<^bold>\<open>Headers.\<close>  \<^bold>\<open>Rfc822_Tok\<close> models the tokenizer of rfc822.c: tokens are offsets into the text, held in an
  array whose \<open>next\<close> pointers are indices, and both passes (counting, then filling) are the same function.
  It is refined to a lexer on lists, and the printing of linked tokens is shown to be read back.
  \<^bold>\<open>Rfc822_Addr\<close> models the address parser, which rewrites the token array in place; a subtraction of
  unrelated pointers or a chain that leaves the array is \<open>None\<close>, and the lemmas show that it never occurs
  and that every address leads to its tokens.  \<^bold>\<open>Rfc822_Print\<close> models the printing of addresses through
  callbacks, to a buffer and wrapped (rfc822_getaddrs.c), with the round trip of address lists.
  \<^bold>\<open>Dates\<close> models rfc822_parsedt.c and rfc822_mkdate.c with the calendar of the C library; a date that is
  written is read back, and a date that is read exists.  \<^bold>\<open>Detect\<close> models encodeautodetect.c, with the
  locale \<open>char_source\<close> of its reading functions.

  \<^bold>\<open>Search.\<close>  \<^bold>\<open>Search\<close> models maildir/maildirsearch.c and its macros: the automaton finds a string exactly
  when it occurs in the text, as given or with case and white space normalised.

  \<^bold>\<open>Conventions and bounds.\<close>  Structures are records with the members' names, prefixed where two
  structures share a name; pointers to functions are datatypes of the functions they can hold, or
  arguments; callbacks are functions from their data and their argument to a return code and the new
  argument.  Memory allocation succeeds.  Counters of characters in memory are natural numbers;
  where a counter can wrap around the bound is stated (\<open>SIZE_MAX\<close>, the length fields of the hashes).
  Loops are functions with termination proofs, or partial functions where they follow pointers or
  indices in memory or call a function that is an argument; then \<open>None\<close> is a loop without an end, and
  that it does not occur is part of the theorems.  No fuel is used.  Generated tables are arguments with
  well-formedness predicates.

  \<^bold>\<open>Not modelled.\<close>  The C++ user interface and mail access classes; sockets, processes, locks, random
  devices, TLS, LDAP and GPG, which are calls into the system or libraries outside of the repository;
  vendored gettext; the generated tables; the character set conversion of unicode.c, a wrapper of
  \<open>iconv\<close>, which the search takes as an argument.  Of rfc822/, the threading of messages by references
  and subjects and the display of encoded words; of rfc2045/, the structure parser, parameters and
  format=flowed text; of maildir/, everything but the search, most of which is directory traffic; and
  rfc1035/ and numlib/ are further separate parts that no modelled function calls.
\<close>

end
